(* ===== verification/Prelude.thy ===== *)
theory Prelude
  imports Main "HOL-Library.Word"
begin

text \<open>
  Shared vocabulary of the development.

  \<^item> The machine types of the sources on an LP64 target: \<open>uint8_t\<close>/\<open>char\<close> as \<open>byte\<close>,
    \<open>size_t\<close> as a 64-bit word, \<open>int\<close> values as mathematical integers that are produced by
    \<open>int_of_size\<close> / \<open>int32_of\<close> wherever the code narrows.
  \<^item> The ways in which a C call can fail to return normally (\<open>c_error\<close>), the result type
    \<open>'a res\<close> and its sequencing combinator \<open>bindE\<close>, with the collection \<open>res_simps\<close>.
  \<^item> Fixed-size C buffers (\<open>cbuf\<close>): a capacity and cells that may be uninitialised, so that
    an access outside the capacity and a read of an unwritten cell are values of the model.
\<close>

unbundle bit_operations_syntax

named_theorems res_simps
named_theorems c_defs

type_synonym byte = "8 word"
type_synonym size_t = "64 word"

datatype c_error =
    AssertFail    \<comment> \<open>\<open>assert\<close> aborts the process\<close>
  | OutOfBounds   \<comment> \<open>access outside an object\<close>
  | Uninit        \<comment> \<open>an indeterminate byte is used\<close>
  | NullDeref     \<comment> \<open>a null pointer is dereferenced\<close>
  | Blocked       \<comment> \<open>the call is still waiting when the environment's script ends\<close>
  | Diverges      \<comment> \<open>the call does not return\<close>

type_synonym 'a res = "c_error + 'a"

definition bindE :: "'a res \<Rightarrow> ('a \<Rightarrow> 'b res) \<Rightarrow> 'b res" where
  "bindE r f = (case r of Inl e \<Rightarrow> Inl e | Inr x \<Rightarrow> f x)"

definition assertE :: "bool \<Rightarrow> unit res" where
  "assertE b = (if b then Inr () else Inl AssertFail)"

text \<open>A fixed-size C object: \<open>cells\<close> beyond its length have never been written.\<close>

record cbuf =
  cap :: nat
  cells :: "byte option list"

definition buf_new :: "nat \<Rightarrow> cbuf" where
  "buf_new n = \<lparr>cap = n, cells = []\<rparr>"

definition cell :: "byte option list \<Rightarrow> nat \<Rightarrow> byte option" where
  "cell cs i = (if i < length cs then cs ! i else None)"

definition set_cell :: "byte option list \<Rightarrow> nat \<Rightarrow> byte \<Rightarrow> byte option list" where
  "set_cell cs i x =
     (if i < length cs then cs[i := Some x]
      else cs @ replicate (i - length cs) None @ [Some x])"

definition buf_get :: "cbuf \<Rightarrow> nat \<Rightarrow> byte res" where
  "buf_get b i =
     (if i < cap b then (case cell (cells b) i of None \<Rightarrow> Inl Uninit | Some x \<Rightarrow> Inr x)
      else Inl OutOfBounds)"

definition buf_put :: "cbuf \<Rightarrow> nat \<Rightarrow> byte \<Rightarrow> cbuf res" where
  "buf_put b i x =
     (if i < cap b then Inr (b\<lparr>cells := set_cell (cells b) i x\<rparr>) else Inl OutOfBounds)"

text \<open>A run of bytes stored from index \<open>i\<close> on, one after the other.\<close>

fun buf_puts :: "cbuf \<Rightarrow> nat \<Rightarrow> byte list \<Rightarrow> cbuf res" where
  "buf_puts b i [] = Inr b"
| "buf_puts b i (x # xs) = bindE (buf_put b i x) (\<lambda>b'. buf_puts b' (Suc i) xs)"

text \<open>A run of \<open>n\<close> bytes loaded from index \<open>i\<close> on.\<close>

fun buf_gets :: "cbuf \<Rightarrow> nat \<Rightarrow> nat \<Rightarrow> byte list res" where
  "buf_gets b i 0 = Inr []"
| "buf_gets b i (Suc n) =
     bindE (buf_get b i) (\<lambda>x. bindE (buf_gets b (Suc i) n) (\<lambda>xs. Inr (x # xs)))"

text \<open>The C string that starts at index \<open>i\<close>: the bytes up to the terminating NUL.\<close>

function buf_cstr :: "cbuf \<Rightarrow> nat \<Rightarrow> byte list res" where
  "buf_cstr b i =
     (if i < cap b then
        bindE (buf_get b i) (\<lambda>x.
          if x = 0 then Inr [] else bindE (buf_cstr b (Suc i)) (\<lambda>xs. Inr (x # xs)))
      else Inl OutOfBounds)"
  by pat_completeness auto
termination
  by (relation "measure (\<lambda>(b, i). cap b - i)") auto

declare buf_cstr.simps [simp del]

text \<open>The conversions of the usual arithmetic conversions: \<open>size_t\<close> to \<open>int\<close> keeps the low
  32 bits in two's complement; so does a store through \<open>%x\<close> or \<open>%d\<close> into an \<open>int\<close>.\<close>

definition int32_of :: "int \<Rightarrow> int" where
  "int32_of n = signed_take_bit 31 n"

definition int_of_size :: "size_t \<Rightarrow> int" where
  "int_of_size w = int32_of (uint w)"

definition size_of_int :: "int \<Rightarrow> size_t" where
  "size_of_int n = word_of_int n"

subsection \<open>The result type\<close>

lemma bindE_Inl [simp, res_simps]: "bindE (Inl e) f = Inl e"
  by (simp add: bindE_def)

lemma bindE_Inr [simp, res_simps]: "bindE (Inr x) f = f x"
  by (simp add: bindE_def)

lemma bindE_Inr_iff [res_simps]: "bindE r f = Inr y \<longleftrightarrow> (\<exists>x. r = Inr x \<and> f x = Inr y)"
  by (cases r) auto

lemma bindE_InrE: "bindE r f = Inr y \<Longrightarrow> (\<And>x. r = Inr x \<Longrightarrow> f x = Inr y \<Longrightarrow> P) \<Longrightarrow> P"
  by (cases r) auto

lemma bindE_Inl_iff [res_simps]: "bindE r f = Inl e \<longleftrightarrow> r = Inl e \<or> (\<exists>x. r = Inr x \<and> f x = Inl e)"
  by (cases r) auto

lemma bindE_assoc [res_simps]: "bindE (bindE r f) g = bindE r (\<lambda>x. bindE (f x) g)"
  by (cases r) auto

lemma assertE_True [simp, res_simps]: "assertE True = Inr ()"
  by (simp add: assertE_def)

lemma assertE_False [simp, res_simps]: "assertE False = Inl AssertFail"
  by (simp add: assertE_def)

lemma assertE_Inr_iff [res_simps]: "assertE b = Inr u \<longleftrightarrow> b"
  by (simp add: assertE_def)

lemma bindE_assertE [res_simps]: "bindE (assertE b) f = (if b then f () else Inl AssertFail)"
  by simp

lemma bindE_cong [fundef_cong]:
  "r = r' \<Longrightarrow> (\<And>x. r' = Inr x \<Longrightarrow> f x = g x) \<Longrightarrow> bindE r f = bindE r' g"
  by (cases r') auto

subsection \<open>Buffers\<close>

lemma buf_new_simps [simp]: "cap (buf_new n) = n" "cells (buf_new n) = []"
  by (simp_all add: buf_new_def)

lemma cell_set_cell: "cell (set_cell cs i x) j = (if j = i then Some x else cell cs j)"
  by (auto simp: cell_def set_cell_def nth_append nth_Cons' nth_list_update)

lemma buf_put_Inr_iff: "buf_put b i x = Inr b' \<longleftrightarrow>
    i < cap b \<and> b' = b\<lparr>cells := set_cell (cells b) i x\<rparr>"
  by (auto simp: buf_put_def)

lemma buf_get_put: "buf_put b i x = Inr b' \<Longrightarrow> buf_get b' j = (if j = i then Inr x else buf_get b j)"
  by (auto simp: buf_put_Inr_iff buf_get_def cell_set_cell)

lemma cap_buf_put: "buf_put b i x = Inr b' \<Longrightarrow> cap b' = cap b"
  by (auto simp: buf_put_Inr_iff)

lemma buf_puts_ok: "i + length xs \<le> cap b \<Longrightarrow> \<exists>b'. buf_puts b i xs = Inr b'"
  by (induction xs arbitrary: b i) (auto simp: buf_put_def)

lemma buf_puts_oob: "cap b < i + length xs \<Longrightarrow> xs \<noteq> [] \<Longrightarrow> buf_puts b i xs = Inl OutOfBounds"
proof (induction xs arbitrary: b i)
  case (Cons x xs)
  then show ?case
    by (cases "xs = []") (auto simp: buf_put_def)
qed simp

lemma cap_buf_puts: "buf_puts b i xs = Inr b' \<Longrightarrow> cap b' = cap b"
  by (induction xs arbitrary: b i) (auto simp: bindE_Inr_iff dest: cap_buf_put)

lemma buf_get_puts:
  "buf_puts b i xs = Inr b' \<Longrightarrow>
     buf_get b' j = (if i \<le> j \<and> j < i + length xs then Inr (xs ! (j - i)) else buf_get b j)"
proof (induction xs arbitrary: b i)
  case Nil
  then show ?case by auto
next
  case (Cons x xs)
  then obtain b1 where b1: "buf_put b i x = Inr b1" and b': "buf_puts b1 (Suc i) xs = Inr b'"
    by (auto simp: bindE_Inr_iff)
  have "buf_get b' j = (if Suc i \<le> j \<and> j < Suc i + length xs then Inr (xs ! (j - Suc i))
      else buf_get b1 j)"
    by (rule Cons.IH [OF b'])
  then show ?case
    by (auto simp: buf_get_put [OF b1] nth_Cons' not_less_eq_eq)
qed

lemma buf_gets_Inr: "(\<And>k. k < length xs \<Longrightarrow> buf_get b (i + k) = Inr (xs ! k)) \<Longrightarrow>
    buf_gets b i (length xs) = Inr xs"
proof (induction xs arbitrary: i)
  case (Cons x xs)
  have "buf_get b i = Inr x"
    using Cons.prems [of 0] by simp
  moreover have "buf_gets b (Suc i) (length xs) = Inr xs"
  proof (rule Cons.IH)
    fix k assume "k < length xs"
    then show "buf_get b (Suc i + k) = Inr (xs ! k)"
      using Cons.prems [of "Suc k"] by simp
  qed
  ultimately show ?case by simp
qed simp

lemma buf_gets_puts: "buf_puts b i xs = Inr b' \<Longrightarrow> buf_gets b' i (length xs) = Inr xs"
  by (rule buf_gets_Inr) (simp add: buf_get_puts)

lemma buf_cstr_Inr:
  "(\<And>k. k < length xs \<Longrightarrow> buf_get b (i + k) = Inr (xs ! k)) \<Longrightarrow> 0 \<notin> set xs \<Longrightarrow>
   buf_get b (i + length xs) = Inr 0 \<Longrightarrow> buf_cstr b i = Inr xs"
proof (induction xs arbitrary: i)
  case Nil
  then show ?case
    by (subst buf_cstr.simps) (simp add: buf_get_def split: if_splits)
next
  case (Cons x xs)
  have x: "buf_get b i = Inr x"
    using Cons.prems(1) [of 0] by simp
  then have "i < cap b" by (simp add: buf_get_def split: if_splits)
  moreover have "buf_cstr b (Suc i) = Inr xs"
  proof (rule Cons.IH)
    fix k assume "k < length xs"
    then show "buf_get b (Suc i + k) = Inr (xs ! k)"
      using Cons.prems(1) [of "Suc k"] by simp
  qed (use Cons.prems in auto)
  ultimately show ?case
    using x Cons.prems(2) by (subst buf_cstr.simps) auto
qed

text \<open>Storing a string with its terminator and reading it back as a C string.\<close>

lemma buf_cstr_puts:
  "buf_puts b i (xs @ [0]) = Inr b' \<Longrightarrow> 0 \<notin> set xs \<Longrightarrow> buf_cstr b' i = Inr xs"
  by (rule buf_cstr_Inr) (auto simp: buf_get_puts nth_append)

lemma buf_new_cstr:
  assumes "0 \<notin> set xs" "length xs < n"
  shows "bindE (buf_puts (buf_new n) 0 (xs @ [0])) (\<lambda>b. buf_cstr b 0) = Inr xs"
proof -
  obtain b where "buf_puts (buf_new n) 0 (xs @ [0]) = Inr b"
    using buf_puts_ok [of 0 "xs @ [0]" "buf_new n"] assms(2) by auto
  then show ?thesis
    using buf_cstr_puts assms(1) by fastforce
qed

subsection \<open>Words\<close>

lemma unat_byte_less: "unat (x :: byte) < 256"
  using unsigned_less [of x, where ?'a = nat] by simp

end
