(* ===== verification/CLib.thy ===== *)
theory CLib
  imports Prelude
begin

text \<open>
  What the sources use of the C standard library: the string functions \<open>strchr\<close> (as the
  recurring ``find, overwrite with NUL, step past'' idiom) and \<open>strtok\<close>, the conversions of
  \<open>sscanf\<close> (\<open>%x\<close>, \<open>%lx\<close>, \<open>%zx\<close>, \<open>%d\<close>) and of \<open>sprintf\<close> (\<open>%d\<close>, \<open>%04d\<close>, \<open>%02x\<close>).  A C string
  is the list of its bytes without the terminator.

  Numbers are converted as glibc does: through \<open>strtoul\<close> / \<open>strtol\<close>, which saturate at 64
  bits, and then stored in the width of the destination.  The prefix \<open>0x\<close> without a digit is
  a matching failure, as the C standard says.
\<close>

definition ch :: "char \<Rightarrow> byte" where
  [c_defs]: "ch c = of_char c"

definition str :: "string \<Rightarrow> byte list" where
  [c_defs]: "str s = map of_char s"

lemma byte_of_char_inject: "(of_char c :: byte) = of_char d \<longleftrightarrow> c = d"
proof
  assume "(of_char c :: byte) = of_char d"
  then have "(of_nat (of_char c) :: byte) = of_nat (of_char d)" by (simp only: of_nat_of_char)
  then have "take_bit 8 (of_char c :: nat) = take_bit 8 (of_char d)" by (simp only: word_of_nat_eq_iff) simp
  then show "c = d" by (simp add: take_bit_eq_mod)
qed simp

lemma ch_inject [simp]: "ch c = ch d \<longleftrightarrow> c = d"
  by (simp add: ch_def byte_of_char_inject)

lemma str_inject [simp]: "str s = str t \<longleftrightarrow> s = t"
proof -
  have "inj (of_char :: char \<Rightarrow> byte)" by (simp add: inj_def byte_of_char_inject)
  then show ?thesis by (simp add: str_def inj_map_eq_map)
qed

subsection \<open>Splitting strings\<close>

text \<open>\<open>p = strchr(s, c); if (p) { *p = 0; p++; }\<close>: what \<open>s\<close> and \<open>p\<close> point to afterwards.\<close>

definition split_chr :: "byte \<Rightarrow> byte list \<Rightarrow> byte list \<times> byte list option" where
  "split_chr c s =
     (takeWhile (\<lambda>x. x \<noteq> c) s,
      if c \<in> set s then Some (tl (dropWhile (\<lambda>x. x \<noteq> c) s)) else None)"

text \<open>One call of \<open>strtok\<close> with a single delimiter: the token and the saved position.\<close>

definition strtok :: "byte \<Rightarrow> byte list \<Rightarrow> (byte list \<times> byte list) option" where
  "strtok c s =
     (let s' = dropWhile (\<lambda>x. x = c) s
      in if s' = [] then None
         else Some (takeWhile (\<lambda>x. x \<noteq> c) s', tl (dropWhile (\<lambda>x. x \<noteq> c) s')))"

subsection \<open>Reading numbers\<close>

definition is_space :: "byte \<Rightarrow> bool" where
  "is_space c \<longleftrightarrow> c = 32 \<or> (9 \<le> c \<and> c \<le> 13)"

definition is_digit :: "byte \<Rightarrow> bool" where
  "is_digit c \<longleftrightarrow> 48 \<le> c \<and> c \<le> 57"

definition is_xdigit :: "byte \<Rightarrow> bool" where
  "is_xdigit c \<longleftrightarrow> is_digit c \<or> (65 \<le> c \<and> c \<le> 70) \<or> (97 \<le> c \<and> c \<le> 102)"

definition digit_val :: "byte \<Rightarrow> nat" where
  "digit_val c =
     (if is_digit c then unat c - 48 else if c \<le> 70 then unat c - 55 else unat c - 87)"

definition num_val :: "nat \<Rightarrow> byte list \<Rightarrow> nat" where
  "num_val base ds = foldl (\<lambda>a d. base * a + digit_val d) 0 ds"

definition scan_sign :: "byte list \<Rightarrow> bool \<times> byte list" where
  "scan_sign s =
     (case s of [] \<Rightarrow> (False, [])
      | c # r \<Rightarrow> if c = 45 then (True, r) else if c = 43 then (False, r) else (False, c # r))"

definition scan_0x :: "byte list \<Rightarrow> byte list" where
  "scan_0x s =
     (case s of a # b # r \<Rightarrow> if a = 48 \<and> (b = 120 \<or> b = 88) then r else s | _ \<Rightarrow> s)"

definition strtoul_val :: "bool \<Rightarrow> nat \<Rightarrow> size_t" where
  "strtoul_val neg n =
     (if 2 ^ 64 \<le> n then - 1 else if neg then - of_nat n else of_nat n)"

definition strtol_val :: "bool \<Rightarrow> nat \<Rightarrow> int" where
  "strtol_val neg n =
     (if neg then max (- (2 ^ 63)) (- int n) else min (2 ^ 63 - 1) (int n))"

text \<open>One \<open>%lx\<close> conversion: the value and the unread input; \<open>None\<close> is a matching failure.\<close>

definition scan_hex :: "byte list \<Rightarrow> (size_t \<times> byte list) option" where
  "scan_hex s =
     (let (neg, r) = scan_sign (dropWhile is_space s);
          r' = scan_0x r;
          ds = takeWhile is_xdigit r'
      in if ds = [] then None
         else Some (strtoul_val neg (num_val 16 ds), dropWhile is_xdigit r'))"

text \<open>One \<open>%d\<close> conversion into an \<open>int\<close>.\<close>

definition scan_dec :: "byte list \<Rightarrow> (int \<times> byte list) option" where
  "scan_dec s =
     (let (neg, r) = scan_sign (dropWhile is_space s);
          ds = takeWhile is_digit r
      in if ds = [] then None
         else Some (int32_of (strtol_val neg (num_val 10 ds)), dropWhile is_digit r))"

text \<open>\<open>sscanf(s, "%lx,%lx,...")\<close> with \<open>n\<close> conversions: the values assigned, in order.  The
  length of the list is the return value (an input failure before the first conversion,
  \<open>EOF\<close>, is the empty list too: the callers only compare with \<open>n\<close>).\<close>

fun sscanf_hexs :: "nat \<Rightarrow> byte list \<Rightarrow> size_t list" where
  "sscanf_hexs 0 s = []"
| "sscanf_hexs (Suc n) s =
     (case scan_hex s of
        None \<Rightarrow> []
      | Some (v, r) \<Rightarrow>
          v # (if n = 0 then [] else
               case r of [] \<Rightarrow> [] | c # r' \<Rightarrow> if c = ch CHR '','' then sscanf_hexs n r' else []))"

text \<open>\<open>sscanf(s, "%x", &i)\<close>.\<close>

definition sscanf_x :: "byte list \<Rightarrow> int option" where
  "sscanf_x s = map_option (\<lambda>(v, r). int_of_size v) (scan_hex s)"

subsection \<open>Printing numbers\<close>

definition digit_char :: "nat \<Rightarrow> byte" where
  "digit_char d = (if d < 10 then of_nat (48 + d) else of_nat (87 + d))"

fun digits_of :: "nat \<Rightarrow> nat \<Rightarrow> byte list" where
  "digits_of base n =
     (if base < 2 \<or> n < base then [digit_char n]
      else digits_of base (n div base) @ [digit_char (n mod base)])"

declare digits_of.simps [simp del]

text \<open>\<open>%d\<close> and the zero-padded \<open>%04d\<close> (the sign counts towards the width).\<close>

definition fmt_d :: "int \<Rightarrow> byte list" where
  "fmt_d n = (if n < 0 then ch CHR ''-'' # digits_of 10 (nat (- n)) else digits_of 10 (nat n))"

definition fmt_04d :: "int \<Rightarrow> byte list" where
  "fmt_04d n =
     (let sgn = (if n < 0 then [ch CHR ''-''] else []);
          ds = digits_of 10 (nat \<bar>n\<bar>)
      in sgn @ replicate (4 - length sgn - length ds) 48 @ ds)"

definition fmt_02x :: "nat \<Rightarrow> byte list" where
  "fmt_02x n = (let ds = digits_of 16 n in replicate (2 - length ds) 48 @ ds)"

subsection \<open>Facts about the splitting functions\<close>

lemma span_chr:
  assumes "c \<notin> set xs"
  shows "takeWhile (\<lambda>x. x \<noteq> c) (xs @ c # ys) = xs"
    and "dropWhile (\<lambda>x. x \<noteq> c) (xs @ c # ys) = c # ys"
  using assms by (induction xs) auto

lemma span_chr_all:
  assumes "c \<notin> set xs"
  shows "takeWhile (\<lambda>x. x \<noteq> c) xs = xs"
    and "dropWhile (\<lambda>x. x \<noteq> c) xs = []"
  using assms by (induction xs) auto

lemma split_chr_append:
  "c \<notin> set xs \<Longrightarrow> split_chr c (xs @ c # ys) = (xs, Some ys)"
  by (simp add: split_chr_def span_chr)

lemma split_chr_none: "c \<notin> set xs \<Longrightarrow> split_chr c xs = (xs, None)"
  by (simp add: split_chr_def span_chr_all)

lemma strtok_append:
  assumes "xs \<noteq> []" "c \<notin> set xs"
  shows "strtok c (xs @ c # ys) = Some (xs, ys)"
proof -
  from assms have "dropWhile (\<lambda>x. x = c) (xs @ c # ys) = xs @ c # ys"
    by (cases xs) auto
  then show ?thesis using assms by (simp add: strtok_def span_chr)
qed

lemma strtok_last:
  assumes "xs \<noteq> []" "c \<notin> set xs"
  shows "strtok c xs = Some (xs, [])"
proof -
  from assms have "dropWhile (\<lambda>x. x = c) xs = xs" by (cases xs) auto
  then show ?thesis using assms by (simp add: strtok_def span_chr_all)
qed

subsection \<open>Printing and reading numbers back\<close>

lemma digit_char_table:
  "\<forall>d \<in> set [0..<16]. is_xdigit (digit_char d) \<and> digit_val (digit_char d) = d \<and>
     (d < 10 \<longrightarrow> is_digit (digit_char d)) \<and> \<not> is_space (digit_char d) \<and>
     digit_char d \<noteq> 45 \<and> digit_char d \<noteq> 43 \<and> digit_char d \<noteq> 120 \<and> digit_char d \<noteq> 88 \<and> digit_char d \<noteq> 0"
  by code_simp

lemma digit_char_props:
  assumes "d < 16"
  shows "is_xdigit (digit_char d)" "digit_val (digit_char d) = d"
    "d < 10 \<Longrightarrow> is_digit (digit_char d)" "\<not> is_space (digit_char d)"
    "digit_char d \<noteq> 45" "digit_char d \<noteq> 43" "digit_char d \<noteq> 120" "digit_char d \<noteq> 88"
    "digit_char d \<noteq> 0"
proof -
  from assms have "d \<in> set [0..<16]" by simp
  with digit_char_table show "is_xdigit (digit_char d)" "digit_val (digit_char d) = d"
    "d < 10 \<Longrightarrow> is_digit (digit_char d)" "\<not> is_space (digit_char d)"
    "digit_char d \<noteq> 45" "digit_char d \<noteq> 43" "digit_char d \<noteq> 120" "digit_char d \<noteq> 88"
    "digit_char d \<noteq> 0"
    by blast+
qed

lemma num_val_append: "num_val b (xs @ [d]) = b * num_val b xs + digit_val d"
  by (simp add: num_val_def)

lemma digits_of_induct [case_names small step]:
  assumes "2 \<le> (b::nat)"
    and "\<And>n. n < b \<Longrightarrow> P n" and "\<And>n. b \<le> n \<Longrightarrow> P (n div b) \<Longrightarrow> P n"
  shows "P n"
proof (induction n rule: less_induct)
  case (less n)
  show ?case
  proof (cases "n < b")
    case False
    with assms(1) have "n div b < n" by (intro div_less_dividend) auto
    then show ?thesis using False less assms(3) by simp
  qed (rule assms(2))
qed

lemma digits_of_small: "n < b \<Longrightarrow> digits_of b n = [digit_char n]"
  by (subst digits_of.simps) simp

lemma digits_of_step: "2 \<le> b \<Longrightarrow> b \<le> n \<Longrightarrow>
    digits_of b n = digits_of b (n div b) @ [digit_char (n mod b)]"
  by (subst digits_of.simps) simp

lemma digits_of_nonempty: "digits_of b n \<noteq> []"
  by (subst digits_of.simps) simp

lemma set_digits_of:
  assumes "2 \<le> b"
  shows "set (digits_of b n) \<subseteq> digit_char ` {..<b}"
  using assms
proof (induction n rule: digits_of_induct [OF assms])
  case (1 n)
  then show ?case by (simp add: digits_of_small)
next
  case (2 n)
  moreover from 2 have "n mod b < b" by simp
  ultimately show ?case by (auto simp: digits_of_step)
qed

lemma num_val_digits_of:
  assumes "2 \<le> b" "b \<le> 16"
  shows "num_val b (digits_of b n) = n"
proof (induction n rule: digits_of_induct [OF assms(1)])
  case (1 n)
  with assms show ?case by (simp add: digits_of_small num_val_def digit_char_props)
next
  case (2 n)
  from assms have "n mod b < 16" using mod_less_divisor [of b n] by linarith
  with 2 assms show ?case
    by (simp add: digits_of_step num_val_append digit_char_props)
qed

lemma digits_of_16_xdigit: "\<forall>c \<in> set (digits_of 16 n). is_xdigit c"
  using set_digits_of [of 16 n] digit_char_props(1) by fastforce

lemma digits_of_10_digit: "\<forall>c \<in> set (digits_of 10 n). is_digit c"
  using set_digits_of [of 10 n] digit_char_props(3) by fastforce

lemma digits_of_hd:
  assumes "2 \<le> b" "b \<le> 16" "digits_of b n = c # cs"
  shows "\<exists>d < 16. c = digit_char d"
proof -
  from assms set_digits_of [of b n] have "c \<in> digit_char ` {..<b}" by simp
  with assms(2) show ?thesis by force
qed

definition ends_number :: "byte list \<Rightarrow> bool" where
  "ends_number r \<longleftrightarrow> (case r of [] \<Rightarrow> True | c # _ \<Rightarrow> \<not> is_xdigit c \<and> c \<noteq> 120 \<and> c \<noteq> 88)"

lemma ends_number_simps [simp]: "ends_number []"
  "ends_number (c # r) \<longleftrightarrow> \<not> is_xdigit c \<and> c \<noteq> 120 \<and> c \<noteq> 88"
  by (simp_all add: ends_number_def)

lemma takeWhile_run: "\<forall>c \<in> set xs. P c \<Longrightarrow> takeWhile P (xs @ ys) = xs @ takeWhile P ys"
  and dropWhile_run: "\<forall>c \<in> set xs. P c \<Longrightarrow> dropWhile P (xs @ ys) = dropWhile P ys"
  by (induction xs) auto

lemma ends_number_span:
  "ends_number r \<Longrightarrow> takeWhile is_xdigit r = [] \<and> dropWhile is_xdigit r = r"
  "ends_number r \<Longrightarrow> takeWhile is_digit r = [] \<and> dropWhile is_digit r = r"
  by (cases r; simp add: is_xdigit_def)+

lemma scan_0x_digits:
  assumes "ends_number r"
  shows "scan_0x (digits_of 16 n @ r) = digits_of 16 n @ r"
proof -
  obtain c cs where ds: "digits_of 16 n = c # cs"
    using digits_of_nonempty by (cases "digits_of 16 n") auto
  have x: "d \<noteq> 120 \<and> d \<noteq> 88" if "d \<in> set (digits_of 16 n)" for d
    using that set_digits_of [of 16 n] digit_char_props(7,8) by auto
  show ?thesis
  proof (cases cs)
    case Nil
    with assms ds show ?thesis by (auto simp: scan_0x_def split: list.splits)
  next
    case (Cons d ds')
    with x [of d] ds show ?thesis by (auto simp: scan_0x_def)
  qed
qed

lemma scan_sign_digits:
  assumes "2 \<le> b" "b \<le> 16"
  shows "scan_sign (dropWhile is_space (digits_of b n @ r)) = (False, digits_of b n @ r)"
proof -
  obtain c cs where ds: "digits_of b n = c # cs"
    using digits_of_nonempty by (cases "digits_of b n") auto
  with digits_of_hd [OF assms ds] digit_char_props show ?thesis
    by (auto simp: scan_sign_def)
qed

text \<open>A number printed in base 16 and followed by a character that cannot continue it is read
  back exactly by \<open>%lx\<close>.\<close>

lemma scan_hex_digits:
  assumes "n < 2 ^ 64" "ends_number r"
  shows "scan_hex (digits_of 16 n @ r) = Some (of_nat n, r)"
  using assms digits_of_16_xdigit [of n] digits_of_nonempty [of 16 n]
  by (simp add: scan_hex_def scan_sign_digits scan_0x_digits takeWhile_run dropWhile_run
      ends_number_span num_val_digits_of strtoul_val_def)

lemma scan_dec_digits:
  assumes "n < 2 ^ 31" "ends_number r"
  shows "scan_dec (digits_of 10 n @ r) = Some (int n, r)"
proof -
  have "int32_of (strtol_val False n) = int n"
    using assms(1) by (simp add: strtol_val_def int32_of_def signed_take_bit_int_eq_self)
  then show ?thesis
    using assms digits_of_10_digit [of n] digits_of_nonempty [of 10 n]
    by (simp add: scan_dec_def scan_sign_digits takeWhile_run dropWhile_run
        ends_number_span num_val_digits_of)
qed

lemma not_xdigit_sep [simp]:
  "\<not> is_xdigit (ch CHR '','')" "\<not> is_xdigit (ch CHR '':'')" "\<not> is_xdigit (ch CHR ''='')"
  "ch CHR '','' \<noteq> 120" "ch CHR '','' \<noteq> 88" "ch CHR '':'' \<noteq> 120" "ch CHR '':'' \<noteq> 88"
  "ch CHR ''='' \<noteq> 120" "ch CHR ''='' \<noteq> 88"
  by (simp_all add: is_xdigit_def is_digit_def c_defs)

text \<open>The requests of the protocol print their numbers in hexadecimal, separated by commas.\<close>

lemma sscanf_hexs_2:
  assumes "a < 2 ^ 64" "l < 2 ^ 64"
  shows "sscanf_hexs 2 (digits_of 16 a @ ch CHR '','' # digits_of 16 l) = [of_nat a, of_nat l]"
  using assms scan_hex_digits [of l "[]"] by (simp add: numeral_2_eq_2 scan_hex_digits)

lemma sscanf_hexs_3:
  assumes "t < 2 ^ 64" "a < 2 ^ 64" "k < 2 ^ 64"
  shows "sscanf_hexs 3 (digits_of 16 t @ ch CHR '','' # digits_of 16 a @ ch CHR '','' # digits_of 16 k)
    = [of_nat t, of_nat a, of_nat k]"
  using assms scan_hex_digits [of k "[]"] by (simp add: numeral_3_eq_3 scan_hex_digits)

lemma sscanf_x_digits:
  assumes "n < 2 ^ 31" "ends_number r"
  shows "sscanf_x (digits_of 16 n @ r) = Some (int n)"
proof -
  have "uint (of_nat n :: size_t) = int n"
    using assms(1) by (simp add: uint_nat unat_of_nat)
  moreover have "int32_of (int n) = int n"
    using assms(1) by (simp add: int32_of_def signed_take_bit_int_eq_self)
  ultimately show ?thesis
    using assms scan_hex_digits [of n r] by (simp add: sscanf_x_def int_of_size_def)
qed

subsection \<open>Shapes of printed numbers\<close>

lemma nul_free_digits_of: "2 \<le> b \<Longrightarrow> b \<le> 16 \<Longrightarrow> 0 \<notin> set (digits_of b n)"
  using set_digits_of [of b n] digit_char_props(9) by fastforce

lemma length_digits_of:
  assumes "2 \<le> b" "n < b ^ k" "0 < k"
  shows "length (digits_of b n) \<le> k"
  using assms(2,3)
proof (induction n arbitrary: k rule: digits_of_induct [OF assms(1)])
  case (1 n)
  then show ?case by (simp add: digits_of_small)
next
  case (2 n)
  from 2 obtain k' where k: "k = Suc k'" by (cases k) auto
  with 2 have "0 < k'" by (cases k') auto
  moreover have "n div b < b ^ k'"
    using 2 k by (simp add: less_mult_imp_div_less mult.commute)
  ultimately have "length (digits_of b (n div b)) \<le> k'" by (rule 2(2) [rotated])
  with 2 k assms(1) show ?case by (simp add: digits_of_step)
qed

lemma length_fmt_02x: "n < 256 \<Longrightarrow> length (fmt_02x n) = 2"
  using length_digits_of [of 16 n 2] by (simp add: fmt_02x_def Let_def)

lemma length_fmt_04d: "0 \<le> n \<Longrightarrow> n < 10000 \<Longrightarrow> length (fmt_04d n) = 4"
  using length_digits_of [of 10 "nat n" 4] by (simp add: fmt_04d_def Let_def)

lemma nul_free_fmt: "0 \<notin> set (fmt_d n)" "0 \<notin> set (fmt_04d n)" "0 \<notin> set (fmt_02x k)"
  using nul_free_digits_of
  by (auto simp: fmt_d_def fmt_04d_def fmt_02x_def Let_def c_defs)

lemma length_fmt_d:
  assumes "- (2 ^ 31) \<le> n" "n < 2 ^ 31"
  shows "length (fmt_d n) \<le> 11"
proof -
  have "nat \<bar>n\<bar> < 10 ^ 10" using assms by simp
  then have "length (digits_of 10 (nat \<bar>n\<bar>)) \<le> 10"
    by (intro length_digits_of) auto
  then show ?thesis by (auto simp: fmt_d_def)
qed

end
