(* ===== verification/Translate.thy ===== *)
theory Translate
  imports CLib
begin

text \<open>
  \<^verbatim>\<open>src/src/utils/csum.c\<close> and \<^verbatim>\<open>src/src/utils/translate.c\<close>: the packet checksum, the
  hexadecimal codec and the in-place removal of escapes.  The pointer arguments become a
  buffer and an index into it; a load or store outside the buffer is \<open>OutOfBounds\<close>.

  The interfaces \<open>codec\<close> and \<open>block_codec\<close> state what the handlers rely on (decoding undoes
  encoding, blocks of fixed width decode independently); they are interpreted here by the
  hexadecimal codec of the library and by its escape removal.
\<close>

subsection \<open>Definitions\<close>

text \<open>\<open>compute_checksum\<close>: a running sum in a \<open>uint8_t\<close>.\<close>

fun compute_checksum_loop :: "byte \<Rightarrow> byte list \<Rightarrow> byte" where
  "compute_checksum_loop csum [] = csum"
| "compute_checksum_loop csum (b # bs) = compute_checksum_loop (csum + b) bs"

definition compute_checksum :: "byte list \<Rightarrow> nat \<Rightarrow> byte res" where
  "compute_checksum buf len =
     (if length buf < len then Inl OutOfBounds
      else Inr (compute_checksum_loop 0 (take len buf)))"

definition hexchars :: "byte list" where
  "hexchars = str ''0123456789abcdef''"

text \<open>\<open>hex_to_str(num + n, str + s, bytes)\<close>.\<close>

fun hex_to_str_loop :: "cbuf \<Rightarrow> nat \<Rightarrow> cbuf \<Rightarrow> nat \<Rightarrow> nat \<Rightarrow> nat \<Rightarrow> cbuf res" where
  "hex_to_str_loop num n s so i 0 = Inr s"
| "hex_to_str_loop num n s so i (Suc k) =
     bindE (buf_get num (n + i)) (\<lambda>c.
     bindE (buf_put s (so + i * 2) (hexchars ! unat (drop_bit 4 c))) (\<lambda>s1.
     bindE (buf_put s1 (so + i * 2 + 1) (hexchars ! unat (c AND 0xf))) (\<lambda>s2.
     hex_to_str_loop num n s2 so (Suc i) k)))"

definition hex_to_str :: "cbuf \<Rightarrow> nat \<Rightarrow> cbuf \<Rightarrow> nat \<Rightarrow> int \<Rightarrow> cbuf res" where
  "hex_to_str num n s so bytes =
     bindE (hex_to_str_loop num n s so 0 (nat bytes)) (\<lambda>s'.
       if bytes < 0 then Inl OutOfBounds else buf_put s' (so + nat bytes * 2) 0)"

definition char_to_hex :: "byte \<Rightarrow> byte" where
  "char_to_hex c =
     (let letter = c AND 0x40;
          offset = drop_bit 3 letter OR drop_bit 6 letter
      in (c + offset) AND 0xf)"

definition peek :: "byte list \<Rightarrow> nat \<Rightarrow> byte res" where
  "peek s i = (if i < length s then Inr (s ! i) else Inl OutOfBounds)"

text \<open>\<open>str_to_hex(str + so, num + n, bytes)\<close>.\<close>

fun str_to_hex_loop :: "byte list \<Rightarrow> nat \<Rightarrow> cbuf \<Rightarrow> nat \<Rightarrow> nat \<Rightarrow> nat \<Rightarrow> cbuf res" where
  "str_to_hex_loop s so num n i 0 = Inr num"
| "str_to_hex_loop s so num n i (Suc k) =
     bindE (peek s (so + i * 2)) (\<lambda>h.
     bindE (peek s (so + i * 2 + 1)) (\<lambda>l.
     bindE (buf_put num (n + i) (push_bit 4 (char_to_hex h) OR char_to_hex l)) (\<lambda>num'.
     str_to_hex_loop s so num' n (Suc i) k)))"

definition str_to_hex :: "byte list \<Rightarrow> nat \<Rightarrow> cbuf \<Rightarrow> nat \<Rightarrow> int \<Rightarrow> cbuf res" where
  "str_to_hex s so num n bytes = str_to_hex_loop s so num n 0 (nat bytes)"

text \<open>\<open>unescape(msg, end)\<close> on the memory \<open>m\<close> that holds both pointers: \<open>r\<close> reads, \<open>w\<close> writes.\<close>

function unescape_loop :: "byte list \<Rightarrow> nat \<Rightarrow> nat \<Rightarrow> nat \<Rightarrow> (byte list \<times> nat) res" where
  "unescape_loop m r w e =
     (if r < e then
        bindE (peek m r) (\<lambda>x.
          if x = ch CHR ''}'' then
            bindE (peek m (r + 1)) (\<lambda>y. unescape_loop (m[w := y XOR 0x20]) (r + 2) (w + 1) e)
          else unescape_loop (m[w := x]) (r + 1) (w + 1) e)
      else Inr (m, w))"
  by pat_completeness auto
termination
  by (relation "measure (\<lambda>(m, r, w, e). e - r)") auto

declare unescape_loop.simps [simp del]

definition unescape :: "byte list \<Rightarrow> nat \<Rightarrow> nat \<Rightarrow> (byte list \<times> nat) res" where
  "unescape m msg e = bindE (unescape_loop m msg msg e) (\<lambda>(m', w). Inr (m', w - msg))"

subsection \<open>Reference functions\<close>

text \<open>Mathematical counterparts of the loops, and the encoder of the peer.\<close>

definition hex_pair :: "byte \<Rightarrow> byte list" where
  "hex_pair c = [hexchars ! unat (drop_bit 4 c), hexchars ! unat (c AND 0xf)]"

definition hexstr :: "byte list \<Rightarrow> byte list" where
  "hexstr xs = concat (map hex_pair xs)"

fun unhex :: "byte list \<Rightarrow> byte list" where
  "unhex (h # l # r) = (push_bit 4 (char_to_hex h) OR char_to_hex l) # unhex r"
| "unhex _ = []"

fun unesc :: "byte list \<Rightarrow> byte list" where
  "unesc [] = []"
| "unesc [x] = [x]"
| "unesc (x # y # r) = (if x = ch CHR ''}'' then (y XOR 0x20) # unesc r else x # unesc (y # r))"

fun well_escaped :: "byte list \<Rightarrow> bool" where
  "well_escaped [] = True"
| "well_escaped [x] = (x \<noteq> ch CHR ''}'')"
| "well_escaped (x # y # r) = (if x = ch CHR ''}'' then well_escaped r else well_escaped (y # r))"

definition must_escape :: "byte \<Rightarrow> bool" where
  "must_escape x \<longleftrightarrow> x \<in> {ch CHR ''#'', ch CHR ''$'', ch CHR ''}'', ch CHR ''*''}"

definition esc :: "byte list \<Rightarrow> byte list" where
  "esc xs = concat (map (\<lambda>x. if must_escape x then [ch CHR ''}'', x XOR 0x20] else [x]) xs)"

subsection \<open>Codec interfaces\<close>

locale codec =
  fixes enc :: "'a list \<Rightarrow> 'b list"
    and dec :: "'b list \<Rightarrow> 'a list"
  assumes dec_enc: "dec (enc xs) = xs"
begin

lemma enc_inject: "enc xs = enc ys \<longleftrightarrow> xs = ys"
  by (metis dec_enc)

end

locale block_codec = codec +
  fixes width :: nat
  assumes length_enc: "length (enc xs) = width * length xs"
    and enc_append: "enc (xs @ ys) = enc xs @ enc ys"
begin

lemma take_enc: "take (width * n) (enc xs) = enc (take n xs)"
proof (cases "n \<le> length xs")
  case True
  have "enc xs = enc (take n xs) @ enc (drop n xs)"
    by (metis append_take_drop_id enc_append)
  with True show ?thesis
    by (simp add: length_enc min_def)
qed (simp add: length_enc)

lemma drop_enc: "drop (width * n) (enc xs) = enc (drop n xs)"
proof -
  have "enc xs = enc (take n xs) @ enc (drop n xs)"
    by (metis append_take_drop_id enc_append)
  moreover have "enc xs = take (width * n) (enc xs) @ drop (width * n) (enc xs)"
    by simp
  ultimately show ?thesis by (metis take_enc same_append_eq)
qed

lemma dec_block: "dec (take (width * n) (drop (width * i) (enc xs))) = take n (drop i xs)"
  by (simp add: drop_enc take_enc dec_enc)

end

subsection \<open>The checksum\<close>

lemma compute_checksum_loop_sum: "compute_checksum_loop c bs = c + sum_list bs"
  by (induction c bs rule: compute_checksum_loop.induct) (simp_all add: algebra_simps)

lemma compute_checksum_ok: "len \<le> length buf \<Longrightarrow> compute_checksum buf len = Inr (sum_list (take len buf))"
  by (simp add: compute_checksum_def compute_checksum_loop_sum)

lemma unat_sum_list_bytes: "unat (sum_list bs :: byte) = sum_list (map unat bs) mod 256"
  by (induction bs) (simp_all add: unat_word_ariths mod_simps)

lemma sum_list_update_byte:
  "i < length p \<Longrightarrow> sum_list (p[i := y]) + p ! i = sum_list p + (y :: byte)"
  by (induction p arbitrary: i) (auto simp: algebra_simps split: nat.splits)

subsection \<open>The hexadecimal codec\<close>

lemma nibble_table:
  "\<forall>d \<in> set [0..<16]. char_to_hex (hexchars ! d) = of_nat d \<and> is_xdigit (hexchars ! d) \<and> hexchars ! d \<noteq> 0"
  by code_simp

lemma nibble:
  fixes x :: byte
  assumes "unat x < 16"
  shows "char_to_hex (hexchars ! unat x) = x" "is_xdigit (hexchars ! unat x)"
    "hexchars ! unat x \<noteq> 0"
proof -
  from assms have "unat x \<in> set [0..<16]" by simp
  with nibble_table have "char_to_hex (hexchars ! unat x) = of_nat (unat x) \<and>
      is_xdigit (hexchars ! unat x) \<and> hexchars ! unat x \<noteq> 0" by blast
  then show "char_to_hex (hexchars ! unat x) = x" "is_xdigit (hexchars ! unat x)"
    "hexchars ! unat x \<noteq> 0" by simp_all
qed

lemma and_15: "c AND 15 = take_bit 4 c" for c :: byte
  by (simp add: take_bit_eq_mask mask_eq_exp_minus_1)

lemma unat_high_nibble: "unat (drop_bit 4 c) < 16" for c :: byte
  using unat_byte_less [of c] by (simp add: drop_bit_eq_div unat_div)

lemma unat_low_nibble: "unat (c AND 0xf) < 16" for c :: byte
  by (simp add: and_15 take_bit_eq_mod unat_mod)

lemma nibbles_join: "push_bit 4 (drop_bit 4 c) OR (c AND 0xf) = c" for c :: byte
  by (rule bit_word_eqI) (auto simp: and_15 bit_simps)

lemmas hex_nibbles = nibble [OF unat_high_nibble] nibble [OF unat_low_nibble]

lemma unhex_hex_pair: "unhex (hex_pair c) = [c]"
  by (simp add: hex_pair_def hex_nibbles nibbles_join)

lemma hex_pair_xdigit: "x \<in> set (hex_pair c) \<Longrightarrow> is_xdigit x \<and> x \<noteq> 0"
  using hex_nibbles by (auto simp: hex_pair_def)

lemma length_hex_pair [simp]: "length (hex_pair c) = 2"
  by (simp add: hex_pair_def)

lemma hexstr_simps [simp]: "hexstr [] = []" "hexstr (x # xs) = hex_pair x @ hexstr xs"
  by (simp_all add: hexstr_def)

lemma unhex_hexstr: "unhex (hexstr xs) = xs"
proof (induction xs)
  case (Cons x xs)
  then show ?case using unhex_hex_pair [of x] by (simp add: hex_pair_def)
qed simp

interpretation hexc: block_codec hexstr unhex 2
proof
  show "unhex (hexstr xs) = xs" for xs by (rule unhex_hexstr)
  show "length (hexstr xs) = 2 * length xs" for xs by (induction xs) auto
  show "hexstr (xs @ ys) = hexstr xs @ hexstr ys" for xs ys by (induction xs) auto
qed

lemma hexstr_xdigit: "x \<in> set (hexstr xs) \<Longrightarrow> is_xdigit x \<and> x \<noteq> 0"
  by (induction xs) (auto dest: hex_pair_xdigit)

lemma nul_free_hexstr: "0 \<notin> set (hexstr xs)"
  using hexstr_xdigit by blast

text \<open>The loop of \<open>hex_to_str\<close> stores the reference string.\<close>

lemma buf_puts_append:
  "buf_puts b i (xs @ ys) = bindE (buf_puts b i xs) (\<lambda>b'. buf_puts b' (i + length xs) ys)"
  by (induction xs arbitrary: b i) (simp_all add: bindE_assoc)

lemma hex_to_str_loop_puts:
  "(\<And>k. k < length xs \<Longrightarrow> buf_get num (n + i + k) = Inr (xs ! k)) \<Longrightarrow>
   hex_to_str_loop num n s so i (length xs) = buf_puts s (so + i * 2) (hexstr xs)"
proof (induction xs arbitrary: s i)
  case (Cons x xs)
  have x: "buf_get num (n + i) = Inr x"
    using Cons.prems [of 0] by simp
  have tl: "buf_get num (n + Suc i + k) = Inr (xs ! k)" if "k < length xs" for k
    using Cons.prems [of "Suc k"] that by simp
  show ?case
    using Cons.IH [OF tl] x
    by (simp add: hex_pair_def bindE_assoc algebra_simps)
qed simp

lemma hex_to_str_puts:
  assumes "\<And>k. k < length xs \<Longrightarrow> buf_get num (n + k) = Inr (xs ! k)"
  shows "hex_to_str num n s so (int (length xs)) = buf_puts s so (hexstr xs @ [0])"
proof -
  have "hex_to_str_loop num n s so 0 (length xs) = buf_puts s (so + 0 * 2) (hexstr xs)"
    by (rule hex_to_str_loop_puts) (use assms in simp)
  then show ?thesis
    by (simp add: hex_to_str_def buf_puts_append hexc.length_enc bindE_assoc mult.commute)
       (simp add: bindE_def split: sum.splits)
qed

text \<open>The loop of \<open>str_to_hex\<close> stores what the reference decoder computes.\<close>

lemma length_unhex: "length (unhex s) = length s div 2"
  by (induction s rule: unhex.induct) auto

lemma str_to_hex_loop_puts:
  "so + 2 * (i + k) \<le> length s \<Longrightarrow>
   str_to_hex_loop s so num n i k = buf_puts num (n + i) (unhex (take (2 * k) (drop (so + 2 * i) s)))"
proof (induction k arbitrary: num i)
  case (Suc k)
  let ?j = "so + 2 * i"
  from Suc.prems have j: "Suc ?j < length s" by simp
  then have d: "drop (so + i * 2) s = s ! ?j # s ! Suc ?j # drop (so + Suc i * 2) s"
    by (simp add: Cons_nth_drop_Suc mult.commute)
  have "so + 2 * (Suc i + k) \<le> length s" using Suc.prems by simp
  note IH = Suc.IH [OF this]
  show ?case
    using j IH by (simp add: peek_def mult.commute d)
qed simp

lemma str_to_hex_puts:
  assumes "so + 2 * k \<le> length s"
  shows "str_to_hex s so num n (int k) = buf_puts num n (unhex (take (2 * k) (drop so s)))"
  using str_to_hex_loop_puts [of so 0 k s num n] assms by (simp add: str_to_hex_def)

text \<open>Reading past the end of the text is caught.\<close>

lemma str_to_hex_oob:
  assumes "length s < so + 2 * k" "0 < k" "n + k \<le> cap num"
  shows "str_to_hex s so num n (int k) = Inl OutOfBounds"
proof -
  have "length s < so + 2 * (i + k) \<Longrightarrow> 0 < k \<Longrightarrow> n + i + k \<le> cap num \<Longrightarrow>
      str_to_hex_loop s so num n i k = Inl OutOfBounds" for i num
  proof (induction k arbitrary: i num)
    case (Suc k)
    show ?case
    proof (cases "k = 0 \<or> length s \<le> so + 2 * i + 1")
      case True
      with Suc.prems show ?thesis by (auto simp: peek_def mult.commute)
    next
      case False
      with Suc.IH [of "Suc i"] Suc.prems show ?thesis
        by (auto simp: peek_def mult.commute buf_put_def)
    qed
  qed simp
  from this [of 0 num] assms show ?thesis
    by (simp add: str_to_hex_def)
qed


subsection \<open>Removing escapes\<close>

lemma must_escape_cases:
  "must_escape x \<longleftrightarrow> x = 35 \<or> x = 36 \<or> x = 125 \<or> x = 42"
  by (simp add: must_escape_def c_defs)

lemma esc_simps [simp]: "esc [] = []"
  "esc (x # xs) = (if must_escape x then [ch CHR ''}'', x XOR 0x20] else [x]) @ esc xs"
  by (simp_all add: esc_def)

lemma well_escaped_cons: "well_escaped (x # r) \<longleftrightarrow>
    (if x = ch CHR ''}'' then (case r of [] \<Rightarrow> False | y # r' \<Rightarrow> well_escaped r') else well_escaped r)"
  by (cases r) auto

lemma unesc_cons: "x \<noteq> ch CHR ''}'' \<Longrightarrow> unesc (x # r) = x # unesc r"
  by (cases r) auto

lemma well_escaped_esc: "well_escaped (esc xs)"
  by (induction xs) (auto simp: well_escaped_cons must_escape_def)

lemma unesc_esc: "unesc (esc xs) = xs"
proof (induction xs)
  case (Cons x xs)
  show ?case
  proof (cases "must_escape x")
    case True
    then have "(x XOR 0x20) XOR 0x20 = x" by (auto simp: must_escape_cases)
    with True Cons show ?thesis by simp
  next
    case False
    then have "x \<noteq> ch CHR ''}''" by (simp add: must_escape_def)
    with False Cons show ?thesis by (simp add: unesc_cons)
  qed
qed simp

interpretation escc: codec esc unesc
  by unfold_locales (rule unesc_esc)

lemma esc_no_hash: "ch CHR ''#'' \<notin> set (esc xs)"
  by (induction xs) (auto simp: must_escape_cases c_defs)

lemma update_front: "zs \<noteq> [] \<Longrightarrow> (pre @ zs @ rest)[length pre := v] = (pre @ [v]) @ tl zs @ rest"
  by (cases zs) (auto simp: list_update_append)

text \<open>The write position never overtakes the read position, so the loop can work in place:
  the segment's decoding ends up at the front of the segment and nothing else is touched.\<close>

lemma unescape_loop_in_place:
  "well_escaped seg \<Longrightarrow>
   unescape_loop (pre @ mid @ seg @ post) (length pre + length mid) (length pre)
       (length pre + length mid + length seg) =
   Inr (pre @ unesc seg @ drop (length (unesc seg)) (mid @ seg) @ post, length pre + length (unesc seg))"
proof (induction seg arbitrary: pre mid rule: unesc.induct)
  case 1
  then show ?case by (subst unescape_loop.simps) simp
next
  case (2 x)
  have "(pre @ mid @ x # post)[length pre := x] = (pre @ [x]) @ tl (mid @ [x]) @ post"
    using update_front [of "mid @ [x]" pre post x] by simp
  moreover have "tl (mid @ [x]) = drop 1 (mid @ [x])" by (cases mid) auto
  ultimately show ?case using 2
    by (subst unescape_loop.simps) (simp add: peek_def nth_append unescape_loop.simps)
next
  case (3 x y r)
  show ?case
  proof (cases "x = ch CHR ''}''")
    case True
    let ?v = "y XOR 0x20" and ?mid = "tl (mid @ [x, y])"
    have upd: "(pre @ mid @ x # y # r @ post)[length pre := ?v] = (pre @ [?v]) @ ?mid @ r @ post"
      using update_front [of "mid @ [x, y]" pre "r @ post" ?v] by simp
    have "unescape_loop (pre @ mid @ (x # y # r) @ post) (length pre + length mid) (length pre)
       (length pre + length mid + length (x # y # r)) =
      unescape_loop ((pre @ [?v]) @ ?mid @ r @ post) (length (pre @ [?v]) + length ?mid)
       (length (pre @ [?v])) (length (pre @ [?v]) + length ?mid + length r)"
      using True upd by (subst unescape_loop.simps) (simp add: peek_def nth_append)
    also have "\<dots> = Inr ((pre @ [?v]) @ unesc r @ drop (length (unesc r)) (?mid @ r) @ post,
        length (pre @ [?v]) + length (unesc r))"
      using True 3(3) by (intro 3(1)) (auto)
    also have "drop (length (unesc r)) (?mid @ r) = drop (Suc (length (unesc r))) (mid @ x # y # r)"
      by (cases mid) auto
    finally show ?thesis using True by simp
  next
    case False
    let ?mid = "tl (mid @ [x])"
    have upd: "(pre @ mid @ x # y # r @ post)[length pre := x] = (pre @ [x]) @ ?mid @ (y # r) @ post"
      using update_front [of "mid @ [x]" pre "(y # r) @ post" x] by simp
    have "unescape_loop (pre @ mid @ (x # y # r) @ post) (length pre + length mid) (length pre)
       (length pre + length mid + length (x # y # r)) =
      unescape_loop ((pre @ [x]) @ ?mid @ (y # r) @ post) (length (pre @ [x]) + length ?mid)
       (length (pre @ [x])) (length (pre @ [x]) + length ?mid + length (y # r))"
      using False upd by (subst unescape_loop.simps) (simp add: peek_def nth_append)
    also have "\<dots> = Inr ((pre @ [x]) @ unesc (y # r) @ drop (length (unesc (y # r))) (?mid @ y # r) @ post,
        length (pre @ [x]) + length (unesc (y # r)))"
      using False 3(3) by (intro 3(2)) auto
    also have "drop (length (unesc (y # r))) (?mid @ y # r) =
        drop (Suc (length (unesc (y # r)))) (mid @ x # y # r)"
      by (cases mid) auto
    finally show ?thesis using False by simp
  qed
qed

lemma unescape_in_place:
  assumes "well_escaped seg"
  shows "unescape (pre @ seg @ post) (length pre) (length pre + length seg) =
    Inr (pre @ unesc seg @ drop (length (unesc seg)) seg @ post, length (unesc seg))"
  using unescape_loop_in_place [OF assms, of pre "[]" post] by (simp add: unescape_def)

end
