(* ===== verification/Packet.thy ===== *)
theory Packet
  imports Translate
begin

text \<open>
  \<^verbatim>\<open>src/src/packet.c\<close> and \<^verbatim>\<open>src/include/packet.h\<close>: the reassembly buffer of the reader
  thread.  \<open>pktbuf\<close> has the fields of \<open>pktbuf_t\<close>; \<open>data\<close> is the whole allocation of
  \<open>1 << cap\<close> bytes, so that stale bytes beyond \<open>size\<close> are part of the state, and
  \<open>fresh\<close> gives the contents \<open>realloc\<close> happens to deliver; whether an allocation succeeds is an
  argument of the operation that makes it.  The descriptor's \<open>read\<close> is a
  \<open>read_ev\<close>: what the call returned.
\<close>

subsection \<open>Definitions\<close>

record packet_t =
  pkt_end_pos :: nat
  pkt_data :: "byte list"

record pktbuf_t =
  pb_size :: nat
  pb_cap :: nat
  pb_end_pos :: int
  pb_data :: "byte list"
  pb_fresh :: "nat \<Rightarrow> byte"

definition STR_ACK :: "byte list" where [c_defs]: "STR_ACK = str ''+''"
definition STR_NACK :: "byte list" where [c_defs]: "STR_NACK = str ''-''"
definition INTR_CHAR :: byte where "INTR_CHAR = 3"
definition CSUM_SIZE :: nat where "CSUM_SIZE = 2"
definition DEFAULT_CAP :: nat where "DEFAULT_CAP = 10"

datatype read_ev =
    ReadData "byte list"   \<comment> \<open>at least one byte is available\<close>
  | ReadEOF
  | ReadErr int            \<comment> \<open>\<open>-1\<close> and \<open>errno\<close>\<close>

definition pktbuf_clear :: "pktbuf_t \<Rightarrow> pktbuf_t" where
  "pktbuf_clear pb = pb\<lparr>pb_end_pos := -1, pb_size := 0\<rparr>"

text \<open>\<open>ok\<close> is the outcome of the allocation.  A \<open>data\<close> pointer that is null, because the allocation
  failed or the block was freed, is the empty list.\<close>

definition pktbuf_init :: "bool \<Rightarrow> (nat \<Rightarrow> byte) \<Rightarrow> bool \<times> pktbuf_t" where
  "pktbuf_init ok fresh =
     (True, pktbuf_clear \<lparr>pb_size = 0, pb_cap = DEFAULT_CAP, pb_end_pos = 0,
        pb_data = (if ok then replicate (2 ^ DEFAULT_CAP) 0 else []), pb_fresh = fresh\<rparr>)"

text \<open>\<open>memmove\<close> within one object.  A move of no bytes touches nothing.\<close>

definition memmove :: "byte list \<Rightarrow> nat \<Rightarrow> nat \<Rightarrow> nat \<Rightarrow> byte list res" where
  "memmove m dst src n =
     (if n = 0 then Inr m
      else if src + n \<le> length m \<and> dst + n \<le> length m
      then Inr (take dst m @ take n (drop src m) @ drop (dst + n) m)
      else Inl OutOfBounds)"

text \<open>\<open>realloc\<close>, when the buffer is full.\<close>

definition pktbuf_full :: "pktbuf_t \<Rightarrow> bool" where
  "pktbuf_full pb \<longleftrightarrow> pb_size pb = 2 ^ pb_cap pb"

definition pktbuf_grow :: "bool \<Rightarrow> pktbuf_t \<Rightarrow> pktbuf_t" where
  "pktbuf_grow ok pb =
     (if pktbuf_full pb then
        pb\<lparr>pb_cap := pb_cap pb + 1,
           pb_data := (if ok then pb_data pb @ map (pb_fresh pb) [2 ^ pb_cap pb..<2 ^ (pb_cap pb + 1)] else [])\<rparr>
      else pb)"

text \<open>The result is \<open>nread\<close>: the number of bytes stored, \<open>0\<close> at the end of the stream, \<open>-1\<close>
  with an \<open>errno\<close>.  \<open>read\<close> stores at most \<open>left\<close> of the bytes that are available; into a null buffer
  it stores nothing and fails with \<open>EFAULT\<close>.\<close>

definition pktbuf_fill_from_file :: "bool \<Rightarrow> pktbuf_t \<Rightarrow> read_ev \<Rightarrow> (int \<times> pktbuf_t) res" where
  "pktbuf_fill_from_file ok pb0 ev =
     bindE (assertE (pb_size pb0 \<le> 2 ^ pb_cap pb0)) (\<lambda>_.
       let pb = pktbuf_grow ok pb0;
           left = 2 ^ pb_cap pb - pb_size pb
       in case ev of
            ReadEOF \<Rightarrow> Inr (0, pb)
          | ReadErr e \<Rightarrow> Inr (-1, pb)
          | ReadData bs \<Rightarrow>
              if pb_data pb = [] then Inr (-1, pb)
              else
                let got = take left bs
                in Inr (int (length got),
                     pb\<lparr>pb_data := take (pb_size pb) (pb_data pb) @ got @
                          drop (pb_size pb + length got) (pb_data pb),
                        pb_size := pb_size pb + length got\<rparr>))"

text \<open>The first position below \<open>n\<close> that holds \<open>c\<close> (the scan for \<open>$\<close>, and \<open>memchr\<close>).\<close>

fun find_byte :: "byte \<Rightarrow> byte list \<Rightarrow> nat option" where
  "find_byte c [] = None"
| "find_byte c (x # xs) = (if x = c then Some 0 else map_option Suc (find_byte c xs))"

definition pktbuf_is_complete :: "pktbuf_t \<Rightarrow> (bool \<times> pktbuf_t) res" where
  "pktbuf_is_complete pb =
     (case find_byte (ch CHR ''$'') (take (pb_size pb) (pb_data pb)) of
        None \<Rightarrow> Inr (False, pktbuf_clear pb)
      | Some head \<Rightarrow>
          bindE (if 0 < head then
                   bindE (memmove (pb_data pb) 0 head (pb_size pb - head)) (\<lambda>d.
                     Inr (pb\<lparr>pb_data := d, pb_size := pb_size pb - head\<rparr>))
                 else Inr pb) (\<lambda>pb1.
          case find_byte (ch CHR ''#'') (take (pb_size pb1) (pb_data pb1)) of
            None \<Rightarrow> Inr (False, pb1)
          | Some k \<Rightarrow>
              let end_pos = k + CSUM_SIZE
              in if end_pos > pb_size pb1 then Inr (False, pb1)
                 else Inr (True, pb1\<lparr>pb_end_pos := int end_pos\<rparr>)))"

text \<open>\<open>ok\<close> is the outcome of \<open>calloc\<close>, whose result is used unchecked.
  The move count \<open>size - old_pkt_size\<close> is an \<open>int\<close> that \<open>memmove\<close> takes as a \<open>size_t\<close>: a
  negative one asks for almost the whole address space.\<close>

definition pktbuf_pop_packet :: "bool \<Rightarrow> pktbuf_t \<Rightarrow> (packet_t option \<times> pktbuf_t) res" where
  "pktbuf_pop_packet ok pb =
     (if pb_end_pos pb = -1 then Inr (None, pb)
      else if \<not> ok then Inl NullDeref
      else
        let old_pkt_size = nat (pb_end_pos pb + 1)
        in if length (pb_data pb) < old_pkt_size then Inl OutOfBounds
           else
             let pkt = \<lparr>pkt_end_pos = nat (pb_end_pos pb),
                        pkt_data = take old_pkt_size (pb_data pb) @ [0]\<rparr>
             in if pb_size pb < old_pkt_size then Inl OutOfBounds
                else
                  bindE (memmove (pb_data pb) 0 (old_pkt_size + 1) (pb_size pb - old_pkt_size)) (\<lambda>d.
                    Inr (Some pkt,
                      pb\<lparr>pb_data := d, pb_size := pb_size pb - old_pkt_size, pb_end_pos := -1\<rparr>)))"

definition pktbuf_destroy :: "pktbuf_t \<Rightarrow> pktbuf_t" where
  "pktbuf_destroy pb = pb\<lparr>pb_data := []\<rparr>"

text \<open>The loop \<open>while (pktbuf_is_complete(..)) { pkt = pktbuf_pop_packet(..); ... }\<close> of the
  reader removes at least four bytes per round; it is defined with the reader.\<close>

definition packet_csum_verify :: "packet_t \<Rightarrow> bool res" where
  "packet_csum_verify p =
     (if pkt_end_pos p < CSUM_SIZE + 1 then Inl OutOfBounds
      else
        bindE (compute_checksum (drop 1 (pkt_data p)) (pkt_end_pos p - CSUM_SIZE - 1)) (\<lambda>csum_rslt.
        bindE (str_to_hex (pkt_data p) (pkt_end_pos p - CSUM_SIZE + 1) (buf_new 1) 0 1) (\<lambda>b.
        bindE (buf_get b 0) (\<lambda>csum_expected.
          Inr (csum_rslt = csum_expected)))))"

subsection \<open>Reference notions\<close>

text \<open>The received bytes that are still in the buffer, and a complete frame of the protocol.\<close>

definition valid :: "pktbuf_t \<Rightarrow> byte list" where
  "valid pb = take (pb_size pb) (pb_data pb)"

definition frame :: "byte list \<Rightarrow> byte list" where
  "frame p = ch CHR ''$'' # p @ ch CHR ''#'' # hex_pair (sum_list p)"

definition pb_inv :: "pktbuf_t \<Rightarrow> bool" where
  "pb_inv pb \<longleftrightarrow> length (pb_data pb) = 2 ^ pb_cap pb \<and> pb_size pb \<le> 2 ^ pb_cap pb"

text \<open>A buffer whose allocation failed.\<close>

definition pb_null :: "pktbuf_t \<Rightarrow> bool" where
  "pb_null pb \<longleftrightarrow> pb_data pb = [] \<and> pb_size pb < 2 ^ pb_cap pb"

subsection \<open>Searching and moving\<close>

lemma find_byte_None: "find_byte c xs = None \<longleftrightarrow> c \<notin> set xs"
  by (induction xs) auto

lemma find_byte_Some: "find_byte c xs = Some k \<Longrightarrow>
    k < length xs \<and> xs ! k = c \<and> c \<notin> set (take k xs) \<and> dropWhile (\<lambda>x. x \<noteq> c) xs = drop k xs"
  by (induction xs arbitrary: k) (auto split: if_splits)

lemma find_byte_append [simp]: "c \<notin> set xs \<Longrightarrow> find_byte c (xs @ c # ys) = Some (length xs)"
  by (induction xs) auto

lemma memmove_front:
  assumes "src + n \<le> length m"
  shows "\<exists>d. memmove m 0 src n = Inr d \<and> length d = length m \<and> take n d = take n (drop src m) \<and>
    (0 < n \<longrightarrow> drop n d = drop n m)"
  using assms by (auto simp: memmove_def)

subsection \<open>The buffer invariant\<close>

lemma pb_inv_init: "pb_inv (snd (pktbuf_init True f))"
  by (simp add: pb_inv_def pktbuf_init_def pktbuf_clear_def)

lemma valid_init [simp]: "valid (snd (pktbuf_init True f)) = []"
  by (simp add: valid_def pktbuf_init_def pktbuf_clear_def)

lemma length_valid: "pb_inv pb \<Longrightarrow> length (valid pb) = pb_size pb"
  by (simp add: valid_def pb_inv_def)

lemma pktbuf_grow_props:
  assumes "pb_inv pb"
  shows "pb_inv (pktbuf_grow True pb)" "valid (pktbuf_grow True pb) = valid pb"
    "pb_size (pktbuf_grow True pb) = pb_size pb" "pb_size pb < 2 ^ pb_cap (pktbuf_grow True pb)"
    "pb_end_pos (pktbuf_grow True pb) = pb_end_pos pb"
proof -
  have "2 ^ pb_cap pb = pb_size pb \<Longrightarrow> 0 < pb_size pb"
    by (metis zero_less_numeral zero_less_power)
  then show "pb_size pb < 2 ^ pb_cap (pktbuf_grow True pb)"
    using assms by (auto simp: pktbuf_grow_def pktbuf_full_def pb_inv_def)
qed (use assms in \<open>auto simp: pktbuf_grow_def pktbuf_full_def pb_inv_def valid_def\<close>)

text \<open>Reading appends the received bytes, as many as fit, and there is always room for one.\<close>

lemma pktbuf_fill_data:
  assumes "pb_inv pb" "bs \<noteq> []"
  shows "\<exists>pb' got. pktbuf_fill_from_file True pb (ReadData bs) = Inr (int (length got), pb') \<and>
    got = take (2 ^ pb_cap pb' - pb_size pb) bs \<and> got \<noteq> [] \<and>
    valid pb' = valid pb @ got \<and> pb_size pb' = pb_size pb + length got \<and> pb_inv pb' \<and>
    pb_end_pos pb' = pb_end_pos pb \<and> pb_cap pb \<le> pb_cap pb'"
proof -
  define g where "g = pktbuf_grow True pb"
  define got where "got = take (2 ^ pb_cap g - pb_size pb) bs"
  define pb' where "pb' = g\<lparr>pb_data := take (pb_size g) (pb_data g) @ got @
                        drop (pb_size g + length got) (pb_data g),
                      pb_size := pb_size g + length got\<rparr>"
  note g = pktbuf_grow_props [OF assms(1), folded g_def]
  have "0 < length (pb_data g)" using g(1) by (simp add: pb_inv_def)
  then have fill: "pktbuf_fill_from_file True pb (ReadData bs) = Inr (int (length got), pb')"
    using assms(1) g(3) unfolding pktbuf_fill_from_file_def g_def [symmetric] got_def pb'_def
    by (simp add: pb_inv_def Let_def)
  have "got \<noteq> []" using g(4) assms(2) by (simp add: got_def)
  moreover have "length (take (pb_size g) (pb_data g)) = pb_size g"
    using length_valid [OF g(1)] by (simp only: valid_def)
  then have "valid pb' = valid g @ got" by (simp add: pb'_def valid_def)
  then have "valid pb' = valid pb @ got" using g(2) by simp
  moreover have "length got \<le> 2 ^ pb_cap g - pb_size g" by (simp add: got_def g(3))
  then have "pb_inv pb'"
    using g(1,3,4) by (simp add: pb'_def pb_inv_def)
  moreover have "pb_cap pb \<le> pb_cap g" by (simp add: g_def pktbuf_grow_def pktbuf_full_def)
  ultimately show ?thesis
    using fill g(3,5) by (intro exI [of _ pb'] exI [of _ got]) (simp add: pb'_def got_def)
qed

text \<open>Everything before the first \<open>$\<close> is dropped.\<close>

lemma complete_shift:
  assumes "pb_inv pb" "find_byte (ch CHR ''$'') (valid pb) = Some head"
  shows "\<exists>pb1. (if 0 < head then
        bindE (memmove (pb_data pb) 0 head (pb_size pb - head)) (\<lambda>d.
          Inr (pb\<lparr>pb_data := d, pb_size := pb_size pb - head\<rparr>))
      else Inr pb) = Inr pb1 \<and>
    valid pb1 = drop head (valid pb) \<and> pb_inv pb1 \<and> pb_end_pos pb1 = pb_end_pos pb \<and>
    pb_cap pb1 = pb_cap pb \<and> (head = 0 \<longrightarrow> pb1 = pb)"
proof (cases "head = 0")
  case True
  with assms(1) show ?thesis by auto
next
  case False
  have "head < pb_size pb"
    using find_byte_Some [OF assms(2)] length_valid [OF assms(1)] by simp
  then have "head + (pb_size pb - head) \<le> length (pb_data pb)"
    using assms(1) by (simp add: pb_inv_def)
  from memmove_front [OF this] obtain d where d: "memmove (pb_data pb) 0 head (pb_size pb - head) = Inr d"
    "length d = length (pb_data pb)"
    "take (pb_size pb - head) d = take (pb_size pb - head) (drop head (pb_data pb))" by blast
  with False assms(1) show ?thesis
    by (auto simp: valid_def pb_inv_def drop_take)
qed

lemma pktbuf_is_complete_no_head:
  "ch CHR ''$'' \<notin> set (valid pb) \<Longrightarrow> pktbuf_is_complete pb = Inr (False, pktbuf_clear pb)"
  by (simp add: pktbuf_is_complete_def valid_def [symmetric] find_byte_None [symmetric])

lemma pktbuf_is_complete_spec:
  assumes "pb_inv pb" "ch CHR ''$'' \<in> set (valid pb)"
  shows "\<exists>pb1. valid pb1 = dropWhile (\<lambda>x. x \<noteq> ch CHR ''$'') (valid pb) \<and> pb_inv pb1 \<and>
    pb_end_pos pb1 = pb_end_pos pb \<and> pb_cap pb1 = pb_cap pb \<and>
    (hd (valid pb) = ch CHR ''$'' \<longrightarrow> pb1 = pb) \<and>
    pktbuf_is_complete pb =
      (case find_byte (ch CHR ''#'') (valid pb1) of
         Some k \<Rightarrow> if k + 2 \<le> length (valid pb1) then Inr (True, pb1\<lparr>pb_end_pos := int (k + 2)\<rparr>)
                   else Inr (False, pb1)
       | None \<Rightarrow> Inr (False, pb1))"
proof -
  obtain head where h: "find_byte (ch CHR ''$'') (valid pb) = Some head"
    using assms(2) find_byte_None by (cases "find_byte (ch CHR ''$'') (valid pb)") auto
  obtain pb1 where pb1: "(if 0 < head then
        bindE (memmove (pb_data pb) 0 head (pb_size pb - head)) (\<lambda>d.
          Inr (pb\<lparr>pb_data := d, pb_size := pb_size pb - head\<rparr>))
      else Inr pb) = Inr pb1"
    "valid pb1 = drop head (valid pb)" "pb_inv pb1" "pb_end_pos pb1 = pb_end_pos pb"
    "pb_cap pb1 = pb_cap pb" "head = 0 \<longrightarrow> pb1 = pb"
    using complete_shift [OF assms(1) h] by blast
  have hd0: "hd (valid pb) = ch CHR ''$'' \<Longrightarrow> head = 0"
    using h assms(2) by (cases "valid pb") auto
  have "pktbuf_is_complete pb =
      (case find_byte (ch CHR ''#'') (valid pb1) of
         Some k \<Rightarrow> if k + 2 \<le> length (valid pb1) then Inr (True, pb1\<lparr>pb_end_pos := int (k + 2)\<rparr>)
                   else Inr (False, pb1)
       | None \<Rightarrow> Inr (False, pb1))"
    by (simp only: pktbuf_is_complete_def h [unfolded valid_def] option.case pb1(1) bindE_Inr)
       (simp add: CSUM_SIZE_def Let_def not_less length_valid [OF pb1(3)] flip: valid_def
         split: option.split)
  with pb1 find_byte_Some [OF h] hd0 show ?thesis by auto
qed

subsection \<open>Taking packets out\<close>

lemma pktbuf_pop_spec:
  assumes "pb_inv pb" "pb_end_pos pb = int e" "e < pb_size pb" "pb_size pb < 2 ^ pb_cap pb \<or> e + 1 = pb_size pb"
  shows "\<exists>pb'. pktbuf_pop_packet True pb =
      Inr (Some \<lparr>pkt_end_pos = e, pkt_data = take (e + 1) (valid pb) @ [0]\<rparr>, pb') \<and>
    pb_size pb' = pb_size pb - (e + 1) \<and> pb_end_pos pb' = -1 \<and> pb_cap pb' = pb_cap pb \<and> pb_inv pb' \<and>
    valid pb' = take (pb_size pb - (e + 1)) (drop (e + 2) (pb_data pb))"
proof -
  have sz: "pb_size pb \<le> length (pb_data pb)" "length (pb_data pb) = 2 ^ pb_cap pb"
    using assms(1) by (simp_all add: pb_inv_def)
  have tk: "take (e + 1) (pb_data pb) = take (e + 1) (valid pb)"
    using assms(3) by (simp add: valid_def min_def)
  obtain d where d: "memmove (pb_data pb) 0 (e + 2) (pb_size pb - (e + 1)) = Inr d"
    "length d = length (pb_data pb)"
    "take (pb_size pb - (e + 1)) d = take (pb_size pb - (e + 1)) (drop (e + 2) (pb_data pb))"
  proof (cases "e + 1 = pb_size pb")
    case True
    then show ?thesis using that by (simp add: memmove_def)
  next
    case False
    with assms(3,4) sz have "e + 2 + (pb_size pb - (e + 1)) \<le> length (pb_data pb)" by simp
    from memmove_front [OF this] that show ?thesis by blast
  qed
  have n: "nat (int e + 1) = e + 1" by simp
  show ?thesis
    using assms sz d tk
    by (simp add: pktbuf_pop_packet_def n Let_def pb_inv_def valid_def)
qed

text \<open>The whole life of one frame in an otherwise empty buffer, whatever precedes its \<open>$\<close>.\<close>

lemma pktbuf_frame:
  assumes "pb_inv pb" "valid pb = junk @ ch CHR ''$'' # body @ ch CHR ''#'' # [a, b]"
    "ch CHR ''$'' \<notin> set junk" "ch CHR ''#'' \<notin> set body"
  shows "\<exists>pb1 pb2. pktbuf_is_complete pb = Inr (True, pb1) \<and>
    pktbuf_pop_packet True pb1 = Inr (Some \<lparr>pkt_end_pos = length body + 3,
        pkt_data = ch CHR ''$'' # body @ [ch CHR ''#'', a, b, 0]\<rparr>, pb2) \<and>
    pb_inv pb2 \<and> valid pb2 = [] \<and> pb_end_pos pb2 = -1 \<and> pb_cap pb2 = pb_cap pb"
proof -
  let ?f = "ch CHR ''$'' # body @ ch CHR ''#'' # [a, b]"
  from assms(2,3) have dw: "dropWhile (\<lambda>x. x \<noteq> ch CHR ''$'') (valid pb) = ?f"
    by (simp add: span_chr)
  have ne: "ch CHR ''#'' \<notin> set (ch CHR ''$'' # body)"
    using assms(4) by (simp add: c_defs)
  have fb: "find_byte (ch CHR ''#'') ?f = Some (length body + 1)"
    using find_byte_append [OF ne, of "[a, b]"] by simp
  from assms(2) have "ch CHR ''$'' \<in> set (valid pb)" by simp
  from pktbuf_is_complete_spec [OF assms(1) this] dw fb obtain p where
    p: "valid p = ?f" "pb_inv p" "pb_cap p = pb_cap pb"
    and c: "pktbuf_is_complete pb = Inr (True, p\<lparr>pb_end_pos := int (length body + 3)\<rparr>)"
    by (auto simp: numeral_3_eq_3)
  let ?p = "p\<lparr>pb_end_pos := int (length body + 3)\<rparr>"
  have v: "valid ?p = ?f" "pb_inv ?p" "pb_size ?p = length body + 4"
    using p length_valid [OF p(2)] by (simp_all add: valid_def pb_inv_def)
  have "pb_end_pos ?p = int (length body + 3)" by simp
  from pktbuf_pop_spec [OF v(2) this] v(1,3) c p(3) show ?thesis by auto
qed

text \<open>A prefix of a frame that ends before the checksum is kept for the next read.\<close>

lemma pktbuf_prefix:
  assumes "pb_inv pb" "valid pb = ch CHR ''$'' # xs" "ch CHR ''#'' \<notin> set (butlast xs)"
  shows "\<exists>pb1. pktbuf_is_complete pb = Inr (False, pb1) \<and> pb_inv pb1 \<and> valid pb1 = valid pb \<and>
    pb_cap pb1 = pb_cap pb \<and> pb_end_pos pb1 = pb_end_pos pb"
proof -
  from assms(2) have d: "ch CHR ''$'' \<in> set (valid pb)"
    and dw: "dropWhile (\<lambda>x. x \<noteq> ch CHR ''$'') (valid pb) = ch CHR ''$'' # xs" by auto
  obtain p where p: "valid p = ch CHR ''$'' # xs" "pb_inv p" "pb_cap p = pb_cap pb"
    "pb_end_pos p = pb_end_pos pb"
    and c: "pktbuf_is_complete pb = (case find_byte (ch CHR ''#'') (valid p) of
         Some k \<Rightarrow> if k + 2 \<le> length (valid p) then Inr (True, p\<lparr>pb_end_pos := int (k + 2)\<rparr>)
                   else Inr (False, p)
       | None \<Rightarrow> Inr (False, p))"
    using pktbuf_is_complete_spec [OF assms(1) d] dw by auto
  have "\<not> k + 2 \<le> length (valid p)" if k: "find_byte (ch CHR ''#'') (valid p) = Some k" for k
  proof
    assume "k + 2 \<le> length (valid p)"
    then have "k < length (butlast (valid p))" by simp
    then have "valid p ! k \<in> set (butlast (valid p))" by (metis nth_butlast nth_mem)
    then have "ch CHR ''#'' \<in> set (butlast (ch CHR ''$'' # xs))"
      using find_byte_Some [OF k] p(1) by simp
    then show False using assms(3) by (auto simp: c_defs split: if_splits)
  qed
  with c p assms(2) show ?thesis by (auto split: option.splits)
qed

text \<open>Bytes behind a frame: the move starts one byte too far, so the first of them is lost and
  one byte that was never received is taken in at the end.\<close>

lemma pktbuf_trailing:
  assumes "pb_inv pb" "valid pb = ch CHR ''$'' # body @ ch CHR ''#'' # [a, b] @ r # rest"
    "ch CHR ''#'' \<notin> set body" "pb_size pb < 2 ^ pb_cap pb"
  shows "\<exists>pb1 pkt pb2. pktbuf_is_complete pb = Inr (True, pb1) \<and>
    pktbuf_pop_packet True pb1 = Inr (Some pkt, pb2) \<and>
    pkt = \<lparr>pkt_end_pos = length body + 3, pkt_data = ch CHR ''$'' # body @ [ch CHR ''#'', a, b, 0]\<rparr> \<and>
    valid pb2 = rest @ [pb_data pb ! pb_size pb] \<and> pb_inv pb2 \<and> pb_end_pos pb2 = -1 \<and>
    pb_cap pb2 = pb_cap pb"
proof -
  let ?f = "ch CHR ''$'' # body @ ch CHR ''#'' # [a, b] @ r # rest"
  have dw: "dropWhile (\<lambda>x. x \<noteq> ch CHR ''$'') (valid pb) = ?f" by (simp add: assms(2))
  have ne: "ch CHR ''#'' \<notin> set (ch CHR ''$'' # body)"
    using assms(3) by (simp add: c_defs)
  have fb: "find_byte (ch CHR ''#'') ?f = Some (length body + 1)"
    using find_byte_append [OF ne, of "[a, b] @ r # rest"] by simp
  have "ch CHR ''$'' \<in> set (valid pb)" by (simp add: assms(2))
  from pktbuf_is_complete_spec [OF assms(1) this] dw fb
  have c: "pktbuf_is_complete pb = Inr (True, pb\<lparr>pb_end_pos := int (length body + 3)\<rparr>)"
    by (auto simp: numeral_3_eq_3 assms(2))
  let ?p = "pb\<lparr>pb_end_pos := int (length body + 3)\<rparr>"
  have sz: "pb_size pb = length ?f" using length_valid [OF assms(1)] by (simp add: assms(2))
  have v: "valid ?p = ?f" "pb_inv ?p"
    using assms(1,2) by (simp_all add: valid_def pb_inv_def)
  have data: "pb_data pb = ?f @ pb_data pb ! pb_size pb # drop (Suc (pb_size pb)) (pb_data pb)"
    using assms(1,2,4) unfolding valid_def pb_inv_def by (metis append_take_drop_id Cons_nth_drop_Suc)
  have e: "pb_end_pos ?p = int (length body + 3)" by simp
  have "take (length rest + 1) (drop (length body + 5) (pb_data pb)) = rest @ [pb_data pb ! pb_size pb]"
    by (subst data) (simp add: numeral_eq_Suc)
  then show ?thesis
    using pktbuf_pop_spec [OF v(2) e] v c sz assms(4)
    by (intro exI [of _ ?p]) (auto simp: numeral_eq_Suc)
qed

lemma packet_csum_verify_spec:
  "packet_csum_verify \<lparr>pkt_end_pos = length body + 3,
      pkt_data = ch CHR ''$'' # body @ [ch CHR ''#'', a, b, 0]\<rparr> =
   Inr (sum_list body = push_bit 4 (char_to_hex a) OR char_to_hex b)"
proof -
  let ?d = "ch CHR ''$'' # body @ [ch CHR ''#'', a, b, 0]"
  have "str_to_hex ?d (length body + 2) (buf_new 1) 0 1 =
      buf_puts (buf_new 1) 0 [push_bit 4 (char_to_hex a) OR char_to_hex b]"
    using str_to_hex_puts [of "length body + 2" 1 ?d "buf_new 1" 0] by (simp add: numeral_2_eq_2)
  then show ?thesis
    by (simp add: packet_csum_verify_def CSUM_SIZE_def numeral_3_eq_3 compute_checksum_ok buf_put_def
        buf_get_def set_cell_def cell_def)
qed

lemma frame_csum: "push_bit 4 (char_to_hex (hexchars ! unat (drop_bit 4 c))) OR
    char_to_hex (hexchars ! unat (c AND 0xf)) = c" for c :: byte
  by (simp add: hex_nibbles nibbles_join)

subsection \<open>Properties\<close>

lemma frame_fill:
  assumes "pb_inv pb" "valid pb = []" "xs \<noteq> []" "length xs \<le> 2 ^ pb_cap pb"
  shows "\<exists>pb'. pktbuf_fill_from_file True pb (ReadData xs) = Inr (int (length xs), pb') \<and>
    valid pb' = xs \<and> pb_inv pb' \<and> pb_cap pb \<le> pb_cap pb'"
proof -
  from assms(1,2) have z: "pb_size pb = 0" using length_valid by fastforce
  obtain pb' got where f: "pktbuf_fill_from_file True pb (ReadData xs) = Inr (int (length got), pb')"
    "got = take (2 ^ pb_cap pb' - pb_size pb) xs" "valid pb' = valid pb @ got" "pb_inv pb'"
    "pb_cap pb \<le> pb_cap pb'"
    using pktbuf_fill_data [OF assms(1,3)] by blast
  have "length xs \<le> 2 ^ pb_cap pb'"
    using assms(4) f(5) by (meson le_trans one_le_numeral power_increasing)
  with f z assms(2) show ?thesis by auto
qed

text \<open>C29.  A frame that arrives in one read, behind any bytes without a \<open>$\<close> (such as the
  peer's acknowledgements), is handed out as exactly one packet that holds the frame and a
  terminating NUL, its checksum verifies, and the buffer is empty again.\<close>

theorem frame_received:
  assumes "pb_inv pb" "valid pb = []" "ch CHR ''$'' \<notin> set junk" "ch CHR ''#'' \<notin> set p"
    "length junk + length p + 4 \<le> 2 ^ pb_cap pb"
  shows "\<exists>n pb1 pb2 pkt pb3. pktbuf_fill_from_file True pb (ReadData (junk @ frame p)) = Inr (n, pb1) \<and>
    pktbuf_is_complete pb1 = Inr (True, pb2) \<and> pktbuf_pop_packet True pb2 = Inr (Some pkt, pb3) \<and>
    pkt_data pkt = frame p @ [0] \<and> pkt_end_pos pkt = length p + 3 \<and>
    packet_csum_verify pkt = Inr True \<and> valid pb3 = [] \<and> pb_inv pb3"
proof -
  have "length (junk @ frame p) \<le> 2 ^ pb_cap pb" using assms(5) by (simp add: frame_def)
  moreover have "junk @ frame p \<noteq> []" by (simp add: frame_def)
  ultimately obtain pb1 where pb1: "pktbuf_fill_from_file True pb (ReadData (junk @ frame p)) =
      Inr (int (length (junk @ frame p)), pb1)" "valid pb1 = junk @ frame p" "pb_inv pb1"
    using frame_fill [OF assms(1,2)] by blast
  from pb1(2) have v: "valid pb1 = junk @ ch CHR ''$'' # p @ ch CHR ''#'' #
      [hexchars ! unat (drop_bit 4 (sum_list p)), hexchars ! unat (sum_list p AND 0xf)]"
    by (simp add: frame_def hex_pair_def)
  from pktbuf_frame [OF pb1(3) v assms(3,4)] pb1(1) show ?thesis
    by (fastforce simp: packet_csum_verify_spec frame_csum frame_def hex_pair_def)
qed

theorem frame_received_witness:
  "\<exists>n pb1 pb2 pkt pb3.
     pktbuf_fill_from_file True (snd (pktbuf_init True (\<lambda>_. 0))) (ReadData (str ''+'' @ frame (str ''g''))) = Inr (n, pb1) \<and>
     pktbuf_is_complete pb1 = Inr (True, pb2) \<and> pktbuf_pop_packet True pb2 = Inr (Some pkt, pb3) \<and>
     pkt_data pkt = frame (str ''g'') @ [0] \<and> packet_csum_verify pkt = Inr True \<and> valid pb3 = []"
  using frame_received [OF pb_inv_init valid_init, of "str ''+''" "str ''g''" "\<lambda>_. 0"]
  by (fastforce simp: c_defs pktbuf_init_def pktbuf_clear_def DEFAULT_CAP_def)



text \<open>When a read ends between the two checksum digits, \<open>pktbuf_is_complete\<close> already
  reports a packet (\<open>end_pos\<close> may equal \<open>size\<close>), and taking it out moves \<open>size - old_pkt_size\<close>
  = -1 bytes: an access far outside the buffer.\<close>

lemma split_checksum_faults:
  assumes "pb_inv pb" "valid pb = ch CHR ''$'' # body @ [ch CHR ''#'', a]" "ch CHR ''#'' \<notin> set body"
  shows "\<exists>pb1. pktbuf_is_complete pb = Inr (True, pb1) \<and> pktbuf_pop_packet True pb1 = Inl OutOfBounds"
proof -
  have ne: "ch CHR ''#'' \<notin> set (ch CHR ''$'' # body)"
    using assms(3) by (simp add: c_defs)
  have fb: "find_byte (ch CHR ''#'') (valid pb) = Some (length body + 1)"
    using find_byte_append [OF ne, of "[a]"] by (simp add: assms(2))
  have "ch CHR ''$'' \<in> set (valid pb)" by (simp add: assms(2))
  from pktbuf_is_complete_spec [OF assms(1) this] fb
  have c: "pktbuf_is_complete pb = Inr (True, pb\<lparr>pb_end_pos := int (length body + 3)\<rparr>)"
    by (auto simp: assms(2) numeral_3_eq_3)
  moreover have "pb_size pb = length body + 3"
    using length_valid [OF assms(1)] by (simp add: assms(2))
  moreover have "nat (4 + int (length body)) = length body + 4" by (simp add: nat_add_distrib)
  ultimately show ?thesis by (simp add: pktbuf_pop_packet_def Let_def)
qed

text \<open>Two frames in the buffer: the first is handed out, but the bytes behind it are moved
  from one position too far.  The second frame loses its \<open>$\<close>, the rest of it is discarded,
  and it is never delivered (unless the stale byte behind the data happens to be a \<open>$\<close>).\<close>

lemma pipelined_frame_lost:
  assumes "pb_inv pb" "valid pb = frame p @ frame q" "ch CHR ''#'' \<notin> set p"
    "ch CHR ''$'' \<notin> set q" "pb_size pb < 2 ^ pb_cap pb" "pb_data pb ! pb_size pb \<noteq> ch CHR ''$''"
  shows "\<exists>pb1 pkt pb2 pb3. pktbuf_is_complete pb = Inr (True, pb1) \<and>
    pktbuf_pop_packet True pb1 = Inr (Some pkt, pb2) \<and> pkt_data pkt = frame p @ [0] \<and>
    pktbuf_is_complete pb2 = Inr (False, pb3) \<and> valid pb3 = []"
proof -
  have v: "valid pb = ch CHR ''$'' # p @ ch CHR ''#'' #
      [hexchars ! unat (drop_bit 4 (sum_list p)), hexchars ! unat (sum_list p AND 0xf)] @
      ch CHR ''$'' # q @ ch CHR ''#'' # hex_pair (sum_list q)"
    using assms(2) by (simp add: frame_def hex_pair_def)
  obtain pb1 pb2 where st: "pktbuf_is_complete pb = Inr (True, pb1)"
    "pktbuf_pop_packet True pb1 = Inr (Some \<lparr>pkt_end_pos = length p + 3, pkt_data = frame p @ [0]\<rparr>, pb2)"
    "valid pb2 = (q @ ch CHR ''#'' # hex_pair (sum_list q)) @ [pb_data pb ! pb_size pb]"
    using pktbuf_trailing [OF assms(1) v assms(3,5)] by (auto simp: frame_def hex_pair_def)
  have "ch CHR ''$'' \<notin> set (hex_pair (sum_list q))"
    using hex_pair_xdigit [of "ch CHR ''$''"] by (auto simp: is_xdigit_def is_digit_def c_defs)
  with st(3) assms(4,6) have "ch CHR ''$'' \<notin> set (valid pb2)"
    by (auto simp: c_defs)
  from pktbuf_is_complete_no_head [OF this] have "pktbuf_is_complete pb2 = Inr (False, pktbuf_clear pb2)" .
  then show ?thesis using st(1,2)
    by (intro exI [of _ pb1] exI [of _ pb2] exI [of _ "pktbuf_clear pb2"] exI)
       (auto simp: pktbuf_clear_def valid_def)
qed

end
