(* ===== verification/Conn.thy ===== *)
theory Conn
  imports Packet
begin

text \<open>
  \<^verbatim>\<open>src/src/conn.c\<close> and \<^verbatim>\<open>src/include/conn.h\<close>: the connection.  The peer and the kernel
  are a script: \<open>sock_script\<close> lists, for each round of the send loop, what \<open>poll\<close> and \<open>write\<close>
  do, and \<open>wire\<close> collects the bytes that \<open>write\<close> took.  When the script ends while the
  loop still wants to send, the call is \<open>Blocked\<close>.  \<open>send_mutex\<close> says that the other thread
  holds the mutex.  \<open>open_fds\<close> and \<open>mutex_live\<close> record the resources that the connection
  holds, for the error paths of \<open>conn_init\<close>.
\<close>

subsection \<open>Definitions\<close>

datatype sock_ev =
    NotWritable       \<comment> \<open>\<open>poll\<close> times out, fails, or reports no \<open>POLLOUT\<close>\<close>
  | Wrote nat         \<comment> \<open>\<open>write\<close> takes at most this many bytes\<close>
  | WriteErr int      \<comment> \<open>\<open>write\<close> returns \<open>-1\<close> with this \<open>errno\<close>\<close>

record conn_t =
  listen_fd :: int
  socket_fd :: int
  send_mutex :: bool
  no_ack_mode :: bool
  failure_count :: int
  sock_script :: "sock_ev list"
  wire :: "byte list"
  open_fds :: "int list"
  mutex_live :: bool

definition MAX_SEND_PACKET_SIZE :: nat where "MAX_SEND_PACKET_SIZE = 0x1000"
definition MAX_DATA_PAYLOAD :: nat where
  "MAX_DATA_PAYLOAD = MAX_SEND_PACKET_SIZE - (2 + CSUM_SIZE + 2)"

definition EINTR :: int where "EINTR = 4"
definition EFAULT :: int where "EFAULT = 14"
definition EAGAIN :: int where "EAGAIN = 11"
definition EWOULDBLOCK :: int where "EWOULDBLOCK = EAGAIN"

definition CONN_SEND_TIMEOUT_MS :: nat where "CONN_SEND_TIMEOUT_MS = 5000"
definition CONN_SEND_POLL_MS :: nat where "CONN_SEND_POLL_MS = 100"

text \<open>The system calls of \<open>conn_init\<close>, by their outcomes.\<close>

record net_env =
  mutex_init_ok :: bool
  inet_aton_ok :: bool       \<comment> \<open>the address is numeric: TCP mode\<close>
  socket_ret :: int
  reuseaddr_ok :: bool
  bind_ok :: bool
  listen_ok :: bool
  accept_ret :: int

definition close_fd :: "int \<Rightarrow> conn_t \<Rightarrow> conn_t" where
  "close_fd fd c = c\<lparr>open_fds := remove1 fd (open_fds c)\<rparr>"

definition conn_init_fail :: "conn_t \<Rightarrow> bool \<times> conn_t" where
  "conn_init_fail c = (False, (close_fd (listen_fd c) c)\<lparr>mutex_live := False\<rparr>)"

definition conn_init :: "net_env \<Rightarrow> conn_t \<Rightarrow> bool \<times> conn_t" where
  "conn_init e c0 =
     (if \<not> mutex_init_ok e then (False, c0)
      else
        let c1 = c0\<lparr>mutex_live := True, no_ack_mode := False, failure_count := 0\<rparr>;
            is_tcp_mode = inet_aton_ok e;
            c2 = c1\<lparr>listen_fd := socket_ret e\<rparr>
        in if socket_ret e < 0 then (False, c2\<lparr>mutex_live := False\<rparr>)
           else
             let c3 = c2\<lparr>open_fds := socket_ret e # open_fds c2\<rparr>
             in if is_tcp_mode \<and> \<not> reuseaddr_ok e then conn_init_fail c3
                else if \<not> bind_ok e then conn_init_fail c3
                else if \<not> listen_ok e then conn_init_fail c3
                else
                  let c4 = c3\<lparr>socket_fd := accept_ret e\<rparr>
                  in if accept_ret e < 0 then conn_init_fail c4
                     else (True, c4\<lparr>open_fds := accept_ret e # open_fds c4\<rparr>))"

text \<open>\<open>__conn_send_str\<close>: one event of the script per round.\<close>

fun conn_send_loop :: "byte list \<Rightarrow> nat \<Rightarrow> nat \<Rightarrow> sock_ev list \<Rightarrow> byte list \<Rightarrow>
    (bool \<times> sock_ev list \<times> byte list) res" where
  "conn_send_loop s timeout total_waited [] w =
     (if s = [] then Inr (True, [], w) else Inl Blocked)"
| "conn_send_loop s timeout total_waited (ev # evs) w =
     (if s = [] then Inr (True, ev # evs, w)
      else case ev of
        NotWritable \<Rightarrow>
          (if total_waited + CONN_SEND_POLL_MS \<ge> timeout then Inr (False, evs, w)
           else conn_send_loop s timeout (total_waited + CONN_SEND_POLL_MS) evs w)
      | WriteErr e \<Rightarrow>
          (if e = EINTR \<or> (timeout \<noteq> 0 \<and> (e = EAGAIN \<or> e = EWOULDBLOCK))
           then conn_send_loop s timeout total_waited evs w
           else Inr (False, evs, w))
      | Wrote n \<Rightarrow>
          (let nwrite = min n (length s)
           in conn_send_loop (drop nwrite s) timeout 0 evs (w @ take nwrite s)))"

definition conn_send_raw :: "conn_t \<Rightarrow> byte list \<Rightarrow> nat \<Rightarrow> (bool \<times> conn_t) res" where
  "conn_send_raw c s timeout =
     bindE (conn_send_loop s timeout 0 (sock_script c) (wire c)) (\<lambda>(ret, evs, w).
       Inr (ret, c\<lparr>sock_script := evs, wire := w\<rparr>))"

definition conn_try_send_str :: "conn_t \<Rightarrow> byte list \<Rightarrow> (bool \<times> conn_t) res" where
  "conn_try_send_str c s = (if send_mutex c then Inr (False, c) else conn_send_raw c s 0)"

definition conn_send_str :: "conn_t \<Rightarrow> byte list \<Rightarrow> conn_t res" where
  "conn_send_str c s =
     (if send_mutex c then Inl Blocked
      else bindE (conn_send_raw c s CONN_SEND_TIMEOUT_MS) (\<lambda>(ret, c'). Inr c'))"

definition conn_send_pktstr :: "conn_t \<Rightarrow> byte list \<Rightarrow> conn_t res" where
  "conn_send_pktstr c pktstr =
     (let len = length pktstr in
      bindE (assertE (len + 2 + CSUM_SIZE + 1 < MAX_SEND_PACKET_SIZE)) (\<lambda>_.
      bindE (buf_put (buf_new MAX_SEND_PACKET_SIZE) 0 (ch CHR ''$'')) (\<lambda>p1.
      bindE (buf_puts p1 1 pktstr) (\<lambda>p2.
      bindE (buf_put p2 (len + 1) (ch CHR ''#'')) (\<lambda>p3.
      bindE (compute_checksum pktstr len) (\<lambda>csum.
      let csum_str = fmt_02x (unat csum) in
      bindE (assertE (length csum_str = CSUM_SIZE)) (\<lambda>_.
      bindE (buf_puts p3 (len + 2) csum_str) (\<lambda>p4.
      bindE (buf_put p4 (len + 2 + length csum_str) 0) (\<lambda>p5.
      bindE (buf_cstr p5 0) (\<lambda>packet.
      conn_send_str c packet))))))))))"

definition conn_close :: "conn_t \<Rightarrow> conn_t" where
  "conn_close c = (close_fd (listen_fd c) (close_fd (socket_fd c) c))\<lparr>mutex_live := False\<rparr>"

subsection \<open>The send loop\<close>

text \<open>The wire always grows by a prefix of the text, and success means all of it.\<close>

lemma conn_send_loop_prefix:
  "conn_send_loop s t tw evs w = Inr (ok, evs', w') \<Longrightarrow>
     \<exists>n \<le> length s. w' = w @ take n s \<and> (ok \<longleftrightarrow> n = length s) \<and> (\<exists>used. evs = used @ evs')"
proof (induction s t tw evs w rule: conn_send_loop.induct)
  case (1 s t tw w)
  then show ?case by (auto split: if_splits)
next
  case (2 s t tw ev evs w)
  show ?case
  proof (cases "s = []")
    case True
    with 2 show ?thesis by auto
  next
    case False
    show ?thesis
    proof (cases ev)
      case (Wrote k)
      let ?m = "min k (length s)"
      from Wrote False "2.prems" have "conn_send_loop (drop ?m s) t 0 evs (w @ take ?m s) = Inr (ok, evs', w')"
        by (simp add: Let_def)
      from "2.IH"(2) [OF False Wrote refl this] obtain n where n: "n \<le> length (drop ?m s)"
        "w' = (w @ take ?m s) @ take n (drop ?m s)" "ok \<longleftrightarrow> n = length (drop ?m s)" "\<exists>used. evs = used @ evs'"
        by blast
      have "take ?m s @ take n (drop ?m s) = take (?m + n) s" by (simp add: take_add)
      with n have "?m + n \<le> length s \<and> w' = w @ take (?m + n) s \<and> (ok \<longleftrightarrow> ?m + n = length s)" by auto
      moreover from n(4) obtain used where "ev # evs = (ev # used) @ evs'" by auto
      ultimately show ?thesis by blast
    qed (use 2 False in \<open>fastforce split: if_splits\<close>)+
  qed
qed

lemma conn_send_loop_nil [simp]: "conn_send_loop [] t tw evs w = Inr (True, evs, w)"
  by (cases evs) auto

lemma conn_send_loop_all:
  "length s \<le> n \<Longrightarrow> conn_send_loop s t tw (Wrote n # evs) w = (if s = [] then Inr (True, Wrote n # evs, w) else Inr (True, evs, w @ s))"
  by simp

text \<open>The bytes that the script is willing to take before anything goes wrong.\<close>

fun accepts :: "sock_ev list \<Rightarrow> nat" where
  "accepts (Wrote n # evs) = n + accepts evs"
| "accepts (WriteErr e # evs) = (if e = EINTR then accepts evs else 0)"
| "accepts _ = 0"

lemma conn_send_loop_accepts:
  "length s \<le> accepts evs \<Longrightarrow> \<exists>evs'. conn_send_loop s t tw evs w = Inr (True, evs', w @ s)"
proof (induction s t tw evs w rule: conn_send_loop.induct)
  case (2 s t tw ev evs w)
  show ?case
  proof (cases "s = []")
    case False
    show ?thesis
    proof (cases ev)
      case (Wrote n)
      have "length (drop (min n (length s)) s) \<le> accepts evs"
        using "2.prems" Wrote by simp
      from "2.IH"(2) [OF False Wrote refl this] show ?thesis
        using Wrote False by (simp add: Let_def)
    next
      case (WriteErr e)
      with "2.prems" False have "e = EINTR" "length s \<le> accepts evs" by (auto split: if_splits)
      with "2.IH"(3) [OF False WriteErr] WriteErr False show ?thesis by simp
    qed (use "2.prems" False in simp)
  qed simp
qed simp

text \<open>Waiting is bounded: the timeout counts the polls since the last progress.\<close>

lemma conn_send_loop_wait:
  assumes "s \<noteq> []"
  shows "tw + k * 100 < t \<Longrightarrow>
    conn_send_loop s t tw (replicate k NotWritable @ evs) w = conn_send_loop s t (tw + k * 100) evs w"
  by (induction k arbitrary: tw) (use assms in \<open>auto simp: CONN_SEND_POLL_MS_def add.assoc\<close>)

subsection \<open>Sending packets\<close>

lemma digit_char_hexchars: "\<forall>d \<in> set [0..<16]. digit_char d = hexchars ! d"
  by code_simp

lemma fmt_02x_hex_pair: "fmt_02x (unat c) = hex_pair c" for c :: byte
proof -
  have lt: "unat c < 256" by (rule unat_byte_less)
  have hi: "unat (drop_bit 4 c) = unat c div 16" by (simp add: drop_bit_eq_div unat_div)
  have lo: "unat (c AND 0xf) = unat c mod 16" by (simp add: and_15 take_bit_eq_mod unat_mod)
  have t: "digit_char d = hexchars ! d" if "d < 16" for d
    using digit_char_hexchars that by simp
  show ?thesis
  proof (cases "unat c < 16")
    case True
    have "hexchars ! 0 = 48" by (simp add: hexchars_def c_defs)
    with True show ?thesis
      by (simp add: fmt_02x_def hex_pair_def digits_of_small t hi lo)
  next
    case False
    then have "digits_of 16 (unat c) = [digit_char (unat c div 16), digit_char (unat c mod 16)]"
      using lt by (simp add: digits_of_step digits_of_small less_mult_imp_div_less)
    with False lt show ?thesis
      by (simp add: fmt_02x_def hex_pair_def t hi lo less_mult_imp_div_less)
  qed
qed

text \<open>A text that fits is framed: \<open>$\<close>, the text, \<open>#\<close> and the checksum in two digits.\<close>

lemma conn_send_pktstr_frame:
  assumes "length s \<le> 4090" "0 \<notin> set s"
  shows "conn_send_pktstr c s = conn_send_str c (frame s)"
proof -
  let ?h = "hex_pair (sum_list s)"
  have nz: "0 \<notin> set (frame s)"
    using assms(2) hex_pair_xdigit [of 0] by (auto simp: frame_def c_defs)
  have lf: "length (frame s) = length s + 4" by (simp add: frame_def)
  obtain b where b: "buf_puts (buf_new 4096) 0 (frame s @ [0]) = Inr b"
    using buf_puts_ok [of 0 "frame s @ [0]" "buf_new 4096"] assms(1) lf by auto
  have cs: "buf_cstr b 0 = Inr (frame s)" by (rule buf_cstr_puts [OF b nz])
  have sum: "compute_checksum s (length s) = Inr (sum_list s)" by (simp add: compute_checksum_ok)
  have "buf_puts (buf_new 4096) 0 (frame s @ [0]) =
      bindE (buf_put (buf_new 4096) 0 (ch CHR ''$'')) (\<lambda>p1. bindE (buf_puts p1 1 s) (\<lambda>p2.
      bindE (buf_put p2 (length s + 1) (ch CHR ''#'')) (\<lambda>p3. bindE (buf_puts p3 (length s + 2) ?h) (\<lambda>p4.
      bindE (buf_put p4 (length s + 4) 0) (\<lambda>p5. Inr p5)))))"
    by (simp add: frame_def buf_puts_append bindE_assoc numeral_eq_Suc)
  with b have "bindE (buf_put (buf_new 4096) 0 (ch CHR ''$'')) (\<lambda>p1. bindE (buf_puts p1 1 s) (\<lambda>p2.
      bindE (buf_put p2 (length s + 1) (ch CHR ''#'')) (\<lambda>p3. bindE (buf_puts p3 (length s + 2) ?h) (\<lambda>p4.
      bindE (buf_put p4 (length s + 4) 0) (\<lambda>p5. Inr p5))))) = Inr b" by simp
  then obtain p1 p2 p3 p4 where "buf_put (buf_new 4096) 0 (ch CHR ''$'') = Inr p1" "buf_puts p1 1 s = Inr p2"
    "buf_put p2 (length s + 1) (ch CHR ''#'') = Inr p3" "buf_puts p3 (length s + 2) ?h = Inr p4"
    "buf_put p4 (length s + 4) 0 = Inr b"
    by (auto simp: bindE_Inr_iff)
  with assms(1) sum cs show ?thesis
    by (simp add: conn_send_pktstr_def MAX_SEND_PACKET_SIZE_def CSUM_SIZE_def fmt_02x_hex_pair Let_def
        numeral_eq_Suc)
qed

lemma conn_send_pktstr_too_long:
  "4090 < length s \<Longrightarrow> conn_send_pktstr c s = Inl AssertFail"
  by (simp add: conn_send_pktstr_def MAX_SEND_PACKET_SIZE_def CSUM_SIZE_def)

lemma conn_send_str_accepts:
  assumes "\<not> send_mutex c" "length s \<le> accepts (sock_script c)"
  shows "\<exists>evs. conn_send_str c s = Inr (c\<lparr>sock_script := evs, wire := wire c @ s\<rparr>)"
  using conn_send_loop_accepts [OF assms(2), of CONN_SEND_TIMEOUT_MS 0 "wire c"] assms(1)
  by (auto simp: conn_send_str_def conn_send_raw_def)

text \<open>The reader's acknowledgement cannot make it wait: if the main thread is sending, or
  the socket is not writable, \<open>conn_try_send_str\<close> gives up at once with nothing sent.\<close>

lemma conn_try_send_str_gives_up:
  assumes "send_mutex c \<or> (\<exists>evs. sock_script c = NotWritable # evs)" "s \<noteq> []"
  shows "\<exists>c'. conn_try_send_str c s = Inr (False, c') \<and> wire c' = wire c \<and>
    length (sock_script c) \<le> length (sock_script c') + 1"
  using assms by (auto simp: conn_try_send_str_def conn_send_raw_def)

text \<open>\<open>conn_init\<close> releases everything on every error path: when it fails, the descriptors
  it opened are closed and the mutex is destroyed; when it succeeds, exactly the listening and
  the accepted socket are open, and the protocol state is reset.\<close>

lemma conn_init_resources:
  assumes "conn_init e c = (ok, c')" "\<not> mutex_live c"
  shows "(ok \<longrightarrow> open_fds c' = [socket_fd c', listen_fd c'] @ open_fds c \<and> mutex_live c' \<and>
       \<not> no_ack_mode c' \<and> failure_count c' = 0 \<and> send_mutex c' = send_mutex c \<and> sock_script c' = sock_script c \<and> wire c' = wire c)
    \<and> (\<not> ok \<longrightarrow> open_fds c' = open_fds c \<and> \<not> mutex_live c')"
  using assms
  by (auto simp: conn_init_def conn_init_fail_def close_fd_def Let_def split: if_splits)

subsection \<open>Properties\<close>

text \<open>C31.  Whatever the socket does, a send that returns has put a prefix of the text on the
  wire, in order and without gaps or repetitions across partial writes and interrupted calls,
  and \<open>conn_send_raw\<close> answers true exactly when the whole text was sent.  Nothing else of the
  connection changes.\<close>

theorem conn_send_raw_prefix:
  assumes "conn_send_raw c s timeout = Inr (ok, c')"
  shows "\<exists>n \<le> length s. wire c' = wire c @ take n s \<and> (ok \<longleftrightarrow> n = length s) \<and>
    c' = c\<lparr>sock_script := sock_script c', wire := wire c'\<rparr>"
proof -
  from assms obtain evs w where l: "conn_send_loop s timeout 0 (sock_script c) (wire c) = Inr (ok, evs, w)"
    and c': "c' = c\<lparr>sock_script := evs, wire := w\<rparr>"
    by (auto simp: conn_send_raw_def bindE_Inr_iff)
  from conn_send_loop_prefix [OF l] c' show ?thesis by auto
qed

definition conn0 :: "sock_ev list \<Rightarrow> conn_t" where
  "conn0 evs = \<lparr>listen_fd = 3, socket_fd = 4, send_mutex = False, no_ack_mode = False, failure_count = 0,
     sock_script = evs, wire = [], open_fds = [4, 3], mutex_live = True\<rparr>"

theorem conn_send_raw_prefix_witness:
  "\<exists>n \<le> 3. wire (conn0 [] \<lparr>wire := [1, 2]\<rparr>) = wire (conn0 [Wrote 2, NotWritable]) @ take n [1, 2, 3] \<and>
     (False \<longleftrightarrow> n = (3::nat))"
proof -
  have "conn_send_raw (conn0 [Wrote 2, NotWritable]) [1, 2, 3] 0 = Inr (False, conn0 [] \<lparr>wire := [1, 2]\<rparr>)"
    by (simp add: conn_send_raw_def conn0_def CONN_SEND_POLL_MS_def)
  from conn_send_raw_prefix [OF this] show ?thesis by (auto simp: numeral_3_eq_3)
qed

text \<open>C32.  A blocking send does not hang on a congested peer: 49 polls without progress are
  still within the timeout, and the fiftieth (5 seconds) ends the call with nothing sent.\<close>

theorem conn_send_str_timeout:
  assumes "s \<noteq> []" "\<not> send_mutex c" "sock_script c = replicate k NotWritable @ Wrote (length s) # evs"
  shows "conn_send_str c s =
    Inr (if k < 50 then c\<lparr>sock_script := evs, wire := wire c @ s\<rparr>
         else c\<lparr>sock_script := replicate (k - 50) NotWritable @ Wrote (length s) # evs\<rparr>)"
proof (cases "k < 50")
  case True
  then show ?thesis
    using conn_send_loop_wait [OF assms(1), of 0 k 5000] assms
    by (simp add: conn_send_str_def conn_send_raw_def CONN_SEND_TIMEOUT_MS_def)
next
  case False
  let ?rest = "replicate (k - 50) NotWritable @ Wrote (length s) # evs"
  have "replicate k NotWritable = replicate 49 NotWritable @ NotWritable # replicate (k - 50) NotWritable"
    using False by (simp add: replicate_add [symmetric] replicate_app_Cons_same flip: replicate_Suc)
  then have "conn_send_loop s 5000 0 (sock_script c) (wire c) = Inr (False, ?rest, wire c)"
    using conn_send_loop_wait [OF assms(1), of 0 49 5000] assms(1,3) by (simp add: CONN_SEND_POLL_MS_def)
  with False assms(2) show ?thesis
    by (simp add: conn_send_str_def conn_send_raw_def CONN_SEND_TIMEOUT_MS_def)
qed

theorem conn_send_str_timeout_witness:
  "conn_send_str (conn0 (replicate 50 NotWritable @ [Wrote 1])) [7] = Inr (conn0 [Wrote 1])"
  using conn_send_str_timeout [of "[7]" "conn0 (replicate 50 NotWritable @ [Wrote 1])" 50 "[]"]
  by (simp add: conn0_def)

end
