(* ===== verification/Pktqueue.thy ===== *)
theory Pktqueue
  imports Packet "HOL-Library.Finite_Map"
begin

text \<open>
  \<^verbatim>\<open>src/src/pktqueue.c\<close> and \<^verbatim>\<open>src/include/pktqueue.h\<close>: the queue between the reader
  thread and the main thread, as a singly linked list in an explicit store of allocated nodes.
  \<open>malloc\<close> hands out the address \<open>q_brk\<close>, which is never handed out twice, unless the
  argument \<open>ok\<close> says that it fails; \<open>free\<close> removes the node, and following a freed address
  is \<open>OutOfBounds\<close>.  Every operation runs with the queue's mutex held, so it is one step; the
  wait for the condition variable is the value \<open>Blocked\<close>: the caller sleeps and tries again
  after another operation.

  The interface \<open>packet_queue\<close> states the queue as a list; it is interpreted by the linked
  list at the end.
\<close>

subsection \<open>Definitions\<close>

record pktqueue_node_t =
  node_pkt :: packet_t
  node_next :: "nat option"

record pktqueue_t =
  q_head :: "nat option"
  q_tail :: "nat option"
  q_mutex :: bool           \<comment> \<open>initialised and not destroyed\<close>
  q_cond :: bool            \<comment> \<open>initialised and not destroyed\<close>
  q_shutdown :: bool
  q_interrupted :: bool
  q_nodes :: "(nat, pktqueue_node_t) fmap"
  q_brk :: nat

text \<open>The arguments say whether \<open>pthread_mutex_init\<close> and \<open>pthread_cond_init\<close> succeed.\<close>

definition pktqueue_init :: "bool \<Rightarrow> bool \<Rightarrow> bool \<times> pktqueue_t" where
  "pktqueue_init mutex_ok cond_ok =
     (let q = \<lparr>q_head = None, q_tail = None, q_mutex = False, q_cond = False, q_shutdown = False,
               q_interrupted = False, q_nodes = fmempty, q_brk = 0\<rparr>
      in if \<not> mutex_ok then (False, q)
         else if \<not> cond_ok then (False, q\<lparr>q_mutex := False\<rparr>)
         else (True, q\<lparr>q_mutex := True, q_cond := True\<rparr>))"

function free_nodes :: "(nat, pktqueue_node_t) fmap \<Rightarrow> nat option \<Rightarrow> (nat, pktqueue_node_t) fmap res" where
  "free_nodes h None = Inr h"
| "free_nodes h (Some a) =
     (case fmlookup h a of
        None \<Rightarrow> Inl OutOfBounds
      | Some n \<Rightarrow> free_nodes (fmdrop a h) (node_next n))"
  by pat_completeness auto
termination
proof (relation "measure (\<lambda>(h, p). fcard (fmdom h))", goal_cases)
  case (2 h a n)
  then have "a |\<in>| fmdom h" by (rule fmdomI)
  from fcard_fminus1_less [OF this] show ?case by simp
qed simp

definition pktqueue_destroy :: "pktqueue_t \<Rightarrow> pktqueue_t res" where
  "pktqueue_destroy q =
     bindE (free_nodes (q_nodes q) (q_head q)) (\<lambda>h.
       Inr (q\<lparr>q_nodes := h, q_head := None, q_tail := None, q_cond := False, q_mutex := False\<rparr>))"

definition pktqueue_push :: "pktqueue_t \<Rightarrow> packet_t \<Rightarrow> bool \<Rightarrow> (bool \<times> pktqueue_t) res" where
  "pktqueue_push q pkt ok =
     (if \<not> ok then Inr (False, q)
      else
        let node = q_brk q;
            q1 = q\<lparr>q_brk := node + 1,
                   q_nodes := fmupd node \<lparr>node_pkt = pkt, node_next = None\<rparr> (q_nodes q)\<rparr>
        in case q_tail q1 of
             Some t \<Rightarrow>
               (case fmlookup (q_nodes q1) t of
                  None \<Rightarrow> Inl OutOfBounds
                | Some n \<Rightarrow>
                    Inr (True, q1\<lparr>q_nodes := fmupd t (n\<lparr>node_next := Some node\<rparr>) (q_nodes q1),
                                  q_tail := Some node\<rparr>))
           | None \<Rightarrow> Inr (True, q1\<lparr>q_head := Some node, q_tail := Some node\<rparr>))"

definition pktqueue_pop :: "pktqueue_t \<Rightarrow> (packet_t option \<times> pktqueue_t) res" where
  "pktqueue_pop q =
     (if q_head q = None \<and> \<not> q_shutdown q \<and> \<not> q_interrupted q then Inl Blocked
      else if q_shutdown q \<and> q_head q = None then Inr (None, q)
      else
        case q_head q of
          None \<Rightarrow> Inr (None, q)
        | Some a \<Rightarrow>
            (case fmlookup (q_nodes q) a of
               None \<Rightarrow> Inl OutOfBounds
             | Some n \<Rightarrow>
                 let q1 = q\<lparr>q_head := node_next n\<rparr>;
                     q2 = (if q_head q1 = None then q1\<lparr>q_tail := None\<rparr> else q1)
                 in Inr (Some (node_pkt n), q2\<lparr>q_nodes := fmdrop a (q_nodes q2)\<rparr>)))"

definition pktqueue_signal_shutdown :: "pktqueue_t \<Rightarrow> pktqueue_t" where
  "pktqueue_signal_shutdown q = q\<lparr>q_shutdown := True\<rparr>"

definition pktqueue_signal_interrupt :: "pktqueue_t \<Rightarrow> pktqueue_t" where
  "pktqueue_signal_interrupt q = q\<lparr>q_interrupted := True\<rparr>"

definition pktqueue_check_interrupt :: "pktqueue_t \<Rightarrow> bool \<times> pktqueue_t" where
  "pktqueue_check_interrupt q = (q_interrupted q, q\<lparr>q_interrupted := False\<rparr>)"

definition pktqueue_is_shutdown :: "pktqueue_t \<Rightarrow> bool" where
  "pktqueue_is_shutdown q = q_shutdown q"

subsection \<open>The queue as a list\<close>

text \<open>The addresses on the way from \<open>p\<close> to the end of the list.\<close>

fun chain :: "(nat, pktqueue_node_t) fmap \<Rightarrow> nat option \<Rightarrow> nat list \<Rightarrow> bool" where
  "chain h p [] \<longleftrightarrow> p = None"
| "chain h p (a # as) \<longleftrightarrow> p = Some a \<and> (\<exists>n. fmlookup h a = Some n \<and> chain h (node_next n) as)"

fun walk :: "nat \<Rightarrow> (nat, pktqueue_node_t) fmap \<Rightarrow> nat option \<Rightarrow> packet_t list" where
  "walk 0 h p = []"
| "walk (Suc k) h p =
     (case p of None \<Rightarrow> []
      | Some a \<Rightarrow> (case fmlookup h a of None \<Rightarrow> [] | Some n \<Rightarrow> node_pkt n # walk k h (node_next n)))"

definition q_contents :: "pktqueue_t \<Rightarrow> packet_t list" where
  "q_contents q = walk (fcard (fmdom (q_nodes q))) (q_nodes q) (q_head q)"

text \<open>The representation invariant: the list from \<open>head\<close> ends at \<open>tail\<close>, visits every
  allocated node exactly once (nothing leaks), and \<open>malloc\<close> will not return any of them.\<close>

definition q_rep :: "pktqueue_t \<Rightarrow> nat list \<Rightarrow> bool" where
  "q_rep q as \<longleftrightarrow> chain (q_nodes q) (q_head q) as \<and> distinct as \<and> fset (fmdom (q_nodes q)) = set as \<and>
     q_tail q = (if as = [] then None else Some (last as)) \<and> (\<forall>a \<in> set as. a < q_brk q)"

definition q_inv :: "pktqueue_t \<Rightarrow> bool" where
  "q_inv q \<longleftrightarrow> (\<exists>as. q_rep q as)"

subsection \<open>The queue interface\<close>

text \<open>Pushing a list of packets, and taking out as many as are wanted.\<close>

fun push_all :: "('q \<Rightarrow> 'p \<Rightarrow> bool \<Rightarrow> (bool \<times> 'q) res) \<Rightarrow> 'q \<Rightarrow> 'p list \<Rightarrow> 'q res" where
  "push_all push q [] = Inr q"
| "push_all push q (p # ps) = bindE (push q p True) (\<lambda>(b, q'). push_all push q' ps)"

fun pop_many :: "('q \<Rightarrow> ('p option \<times> 'q) res) \<Rightarrow> nat \<Rightarrow> 'q \<Rightarrow> ('p option list \<times> 'q) res" where
  "pop_many pop 0 q = Inr ([], q)"
| "pop_many pop (Suc n) q =
     bindE (pop q) (\<lambda>(r, q'). bindE (pop_many pop n q') (\<lambda>(rs, q''). Inr (r # rs, q'')))"

locale packet_queue =
  fixes push :: "'q \<Rightarrow> 'p \<Rightarrow> bool \<Rightarrow> (bool \<times> 'q) res"
    and pop :: "'q \<Rightarrow> ('p option \<times> 'q) res"
    and contents :: "'q \<Rightarrow> 'p list"
    and flags :: "'q \<Rightarrow> bool \<times> bool"
    and invar :: "'q \<Rightarrow> bool"
  assumes push_ok: "invar q \<Longrightarrow> \<exists>q'. push q p True = Inr (True, q') \<and> contents q' = contents q @ [p] \<and>
      flags q' = flags q \<and> invar q'"
    and push_fail: "push q p False = Inr (False, q)"
    and pop_item: "invar q \<Longrightarrow> contents q = p # ps \<Longrightarrow>
      \<exists>q'. pop q = Inr (Some p, q') \<and> contents q' = ps \<and> flags q' = flags q \<and> invar q'"
    and pop_signal: "invar q \<Longrightarrow> contents q = [] \<Longrightarrow> flags q \<noteq> (False, False) \<Longrightarrow> pop q = Inr (None, q)"
    and pop_wait: "invar q \<Longrightarrow> contents q = [] \<Longrightarrow> flags q = (False, False) \<Longrightarrow> pop q = Inl Blocked"
begin

lemma push_all_contents:
  "invar q \<Longrightarrow> \<exists>q'. push_all push q ps = Inr q' \<and> contents q' = contents q @ ps \<and>
     flags q' = flags q \<and> invar q'"
proof (induction ps arbitrary: q)
  case (Cons p ps)
  obtain q1 where q1: "push q p True = Inr (True, q1)" "contents q1 = contents q @ [p]"
    "flags q1 = flags q" "invar q1"
    using push_ok [OF Cons.prems] by blast
  with Cons.IH [OF q1(4)] show ?case by auto
qed simp

lemma pop_many_prefix:
  "invar q \<Longrightarrow> n \<le> length (contents q) \<Longrightarrow>
   \<exists>q'. pop_many pop n q = Inr (map Some (take n (contents q)), q') \<and>
     contents q' = drop n (contents q) \<and> flags q' = flags q \<and> invar q'"
proof (induction n arbitrary: q)
  case (Suc n)
  then obtain p ps where c: "contents q = p # ps" by (cases "contents q") auto
  obtain q1 where q1: "pop q = Inr (Some p, q1)" "contents q1 = ps" "flags q1 = flags q" "invar q1"
    using pop_item [OF Suc.prems(1) c] by blast
  with Suc.IH [OF q1(4)] Suc.prems(2) c show ?case by auto
qed simp

lemma push_then_pop:
  assumes "invar q" "contents q = []"
  shows "\<exists>q' q''. push_all push q ps = Inr q' \<and> pop_many pop (length ps) q' = Inr (map Some ps, q'') \<and>
    contents q'' = [] \<and> flags q'' = flags q \<and> invar q''"
proof -
  obtain q' where q': "push_all push q ps = Inr q'" "contents q' = ps" "flags q' = flags q" "invar q'"
    using push_all_contents [OF assms(1)] assms(2) by fastforce
  with pop_many_prefix [OF q'(4), of "length ps"] show ?thesis by auto
qed

text \<open>A pop never fails: it delivers the oldest packet, or reports a signal, or waits.\<close>

lemma pop_cases:
  assumes "invar q"
  shows "(\<exists>p ps q'. contents q = p # ps \<and> pop q = Inr (Some p, q') \<and> contents q' = ps \<and>
        flags q' = flags q \<and> invar q')
    \<or> contents q = [] \<and> flags q \<noteq> (False, False) \<and> pop q = Inr (None, q)
    \<or> contents q = [] \<and> flags q = (False, False) \<and> pop q = Inl Blocked"
  using pop_item [OF assms] pop_signal [OF assms] pop_wait [OF assms]
  by (cases "contents q") blast+

end

subsection \<open>Lists in the store\<close>

lemma chain_upd_other: "a \<notin> set as \<Longrightarrow> chain (fmupd a n h) p as = chain h p as"
  by (induction as arbitrary: p) auto

lemma chain_drop_other: "a \<notin> set as \<Longrightarrow> chain (fmdrop a h) p as = chain h p as"
  by (induction as arbitrary: p) auto

lemma chain_dom: "chain h p as \<Longrightarrow> set as \<subseteq> fset (fmdom h)"
  by (induction as arbitrary: p) (auto intro: fmdomI)

text \<open>Linking a fresh node behind the last one.\<close>

lemma chain_snoc:
  assumes "chain h p as" "as \<noteq> []" "distinct as" "b \<notin> set as"
    "fmlookup h (last as) = Some n" "node_next m = None"
  shows "chain (fmupd (last as) (n\<lparr>node_next := Some b\<rparr>) (fmupd b m h)) p (as @ [b])"
  using assms
proof (induction as arbitrary: p)
  case (Cons a as)
  show ?case
  proof (cases "as = []")
    case True
    with Cons.prems show ?thesis by auto
  next
    case False
    from Cons.prems obtain k where k: "p = Some a" "fmlookup h a = Some k" "chain h (node_next k) as"
      by auto
    have "chain (fmupd (last as) (n\<lparr>node_next := Some b\<rparr>) (fmupd b m h)) (node_next k) (as @ [b])"
      using False Cons.prems k by (intro Cons.IH) auto
    moreover have "last as \<noteq> a" "b \<noteq> a" using Cons.prems False last_in_set by force+
    ultimately show ?thesis using False k by simp
  qed
qed simp

lemma walk_chain: "chain h p as \<Longrightarrow> length as \<le> k \<Longrightarrow>
    walk k h p = map (\<lambda>a. node_pkt (the (fmlookup h a))) as"
proof (induction as arbitrary: p k)
  case Nil
  then show ?case by (cases k) auto
next
  case (Cons a as)
  then show ?case by (cases k) auto
qed

lemma q_contents_rep:
  assumes "q_rep q as"
  shows "q_contents q = map (\<lambda>a. node_pkt (the (fmlookup (q_nodes q) a))) as"
proof -
  from assms have "fcard (fmdom (q_nodes q)) = length as"
    by (simp add: q_rep_def fcard.rep_eq distinct_card)
  with assms walk_chain show ?thesis by (auto simp: q_contents_def q_rep_def)
qed

lemma free_nodes_chain:
  "chain h p as \<Longrightarrow> distinct as \<Longrightarrow> \<exists>h'. free_nodes h p = Inr h' \<and> fset (fmdom h') = fset (fmdom h) - set as"
proof (induction as arbitrary: h p)
  case (Cons a as)
  then obtain n where n: "p = Some a" "fmlookup h a = Some n" "chain h (node_next n) as" by auto
  with Cons.prems have "chain (fmdrop a h) (node_next n) as"
    by (simp add: chain_drop_other)
  with Cons.IH [of "fmdrop a h"] Cons.prems obtain h' where
    "free_nodes (fmdrop a h) (node_next n) = Inr h'" "fset (fmdom h') = fset (fmdom (fmdrop a h)) - set as"
    by auto
  with n show ?case by auto
qed simp

subsection \<open>The linked list implements the queue\<close>

lemma push_rep:
  assumes "q_rep q as"
  shows "\<exists>q'. pktqueue_push q p True = Inr (True, q') \<and> q_rep q' (as @ [q_brk q]) \<and>
    q_contents q' = q_contents q @ [p] \<and> q_shutdown q' = q_shutdown q \<and> q_interrupted q' = q_interrupted q"
proof (cases "as = []")
  case True
  let ?q = "q\<lparr>q_brk := q_brk q + 1, q_nodes := fmupd (q_brk q) \<lparr>node_pkt = p, node_next = None\<rparr> (q_nodes q),
      q_head := Some (q_brk q), q_tail := Some (q_brk q)\<rparr>"
  have "pktqueue_push q p True = Inr (True, ?q)"
    using assms True by (simp add: pktqueue_push_def q_rep_def Let_def)
  moreover have rep: "q_rep ?q [q_brk q]"
    using assms True by (auto simp: q_rep_def)
  ultimately show ?thesis
    using True q_contents_rep [OF rep] q_contents_rep [OF assms] by simp
next
  case False
  let ?b = "q_brk q" and ?m = "\<lparr>node_pkt = p, node_next = None\<rparr>" and ?t = "last as"
  from False have "?t \<in> set as" by simp
  with assms have t: "?t \<in> fset (fmdom (q_nodes q))" "?t \<noteq> ?b" "?b \<notin> set as"
    by (force simp: q_rep_def)+
  then obtain n where n: "fmlookup (q_nodes q) ?t = Some n" by (auto elim: fmdomE)
  let ?h = "fmupd ?t (n\<lparr>node_next := Some ?b\<rparr>) (fmupd ?b ?m (q_nodes q))"
  let ?q = "q\<lparr>q_brk := ?b + 1, q_nodes := ?h, q_tail := Some ?b\<rparr>"
  have push: "pktqueue_push q p True = Inr (True, ?q)"
    using assms False t n by (simp add: pktqueue_push_def q_rep_def Let_def)
  have "chain ?h (q_head q) (as @ [?b])"
    using assms False t n by (intro chain_snoc) (auto simp: q_rep_def)
  with assms False t have rep: "q_rep ?q (as @ [?b])"
    by (auto simp: q_rep_def)
  have "map (\<lambda>a. node_pkt (the (fmlookup ?h a))) as = map (\<lambda>a. node_pkt (the (fmlookup (q_nodes q) a))) as"
    using t n by auto
  then have "q_contents ?q = q_contents q @ [p]"
    using q_contents_rep [OF rep] q_contents_rep [OF assms] t by simp
  with push rep show ?thesis by auto
qed

lemma pop_rep:
  assumes "q_rep q (a # as)"
  shows "\<exists>q'. pktqueue_pop q = Inr (Some (hd (q_contents q)), q') \<and> q_rep q' as \<and>
    q_contents q' = tl (q_contents q) \<and> q_shutdown q' = q_shutdown q \<and> q_interrupted q' = q_interrupted q"
proof -
  from assms obtain n where n: "q_head q = Some a" "fmlookup (q_nodes q) a = Some n"
    "chain (q_nodes q) (node_next n) as" "a \<notin> set as"
    by (auto simp: q_rep_def)
  let ?q = "q\<lparr>q_head := node_next n, q_tail := (if node_next n = None then None else q_tail q),
      q_nodes := fmdrop a (q_nodes q)\<rparr>"
  have pop: "pktqueue_pop q = Inr (Some (node_pkt n), ?q)"
    using n by (simp add: pktqueue_pop_def Let_def)
  have e: "node_next n = None \<longleftrightarrow> as = []"
    using n(3) by (cases as) auto
  have rep: "q_rep ?q as"
    using assms n e by (auto simp: q_rep_def chain_drop_other)
  have "map (\<lambda>a. node_pkt (the (fmlookup (fmdrop a' (q_nodes q)) a))) as =
      map (\<lambda>a. node_pkt (the (fmlookup (q_nodes q) a))) as" if "a' \<notin> set as" for a'
    using that by auto
  with n have "q_contents ?q = tl (q_contents q) \<and> hd (q_contents q) = node_pkt n"
    using q_contents_rep [OF rep] q_contents_rep [OF assms] by simp
  with pop rep show ?thesis by auto
qed

lemma q_rep_Nil: "q_rep q as \<Longrightarrow> q_contents q = [] \<longleftrightarrow> as = []"
  by (simp add: q_contents_rep)

lemma q_rep_head: "q_rep q [] \<Longrightarrow> q_head q = None"
  by (simp add: q_rep_def)

interpretation pq: packet_queue pktqueue_push pktqueue_pop q_contents
  "\<lambda>q. (q_shutdown q, q_interrupted q)" q_inv
proof
  fix q p assume "q_inv q"
  then show "\<exists>q'. pktqueue_push q p True = Inr (True, q') \<and> q_contents q' = q_contents q @ [p] \<and>
      (q_shutdown q', q_interrupted q') = (q_shutdown q, q_interrupted q) \<and> q_inv q'"
    using push_rep by (auto simp: q_inv_def) blast
next
  fix q p show "pktqueue_push q p False = Inr (False, q)" by (simp add: pktqueue_push_def)
next
  fix q p ps assume "q_inv q" and c: "q_contents q = p # ps"
  then obtain as where as: "q_rep q as" by (auto simp: q_inv_def)
  with c q_rep_Nil [OF as] obtain a as' where "as = a # as'" by (cases as) auto
  with pop_rep as c show "\<exists>q'. pktqueue_pop q = Inr (Some p, q') \<and> q_contents q' = ps \<and>
      (q_shutdown q', q_interrupted q') = (q_shutdown q, q_interrupted q) \<and> q_inv q'"
    by (force simp: q_inv_def)
next
  fix q assume "q_inv q" "q_contents q = []"
  then have h: "q_head q = None" using q_rep_Nil q_rep_head by (auto simp: q_inv_def)
  then show "(q_shutdown q, q_interrupted q) \<noteq> (False, False) \<Longrightarrow> pktqueue_pop q = Inr (None, q)"
    "(q_shutdown q, q_interrupted q) = (False, False) \<Longrightarrow> pktqueue_pop q = Inl Blocked"
    by (auto simp: pktqueue_pop_def)
qed

subsection \<open>Runs of the two threads over the queue\<close>

text \<open>What the threads do with the queue, one locked section after the other.\<close>

datatype q_op =
    QPush packet_t bool   \<comment> \<open>reader; the flag is the outcome of \<open>malloc\<close>\<close>
  | QPop                  \<comment> \<open>main thread\<close>
  | QShutdown | QInterrupt | QCheckInterrupt

fun q_step :: "q_op \<Rightarrow> pktqueue_t \<Rightarrow> (packet_t list \<times> pktqueue_t) res" where
  "q_step (QPush p ok) q = bindE (pktqueue_push q p ok) (\<lambda>(b, q'). Inr ([], q'))"
| "q_step QPop q = bindE (pktqueue_pop q) (\<lambda>(r, q'). Inr (case r of None \<Rightarrow> [] | Some p \<Rightarrow> [p], q'))"
| "q_step QShutdown q = Inr ([], pktqueue_signal_shutdown q)"
| "q_step QInterrupt q = Inr ([], pktqueue_signal_interrupt q)"
| "q_step QCheckInterrupt q = Inr ([], snd (pktqueue_check_interrupt q))"

fun q_run :: "q_op list \<Rightarrow> pktqueue_t \<Rightarrow> (packet_t list \<times> pktqueue_t) res" where
  "q_run [] q = Inr ([], q)"
| "q_run (x # xs) q = bindE (q_step x q) (\<lambda>(out, q'). bindE (q_run xs q') (\<lambda>(outs, q''). Inr (out @ outs, q'')))"

fun pushed :: "q_op list \<Rightarrow> packet_t list" where
  "pushed [] = []"
| "pushed (QPush p ok # xs) = (if ok then p # pushed xs else pushed xs)"
| "pushed (_ # xs) = pushed xs"

lemma q_inv_flags [simp]:
  "q_inv (q\<lparr>q_shutdown := b\<rparr>) = q_inv q" "q_inv (q\<lparr>q_interrupted := b\<rparr>) = q_inv q"
  "q_contents (q\<lparr>q_shutdown := b\<rparr>) = q_contents q" "q_contents (q\<lparr>q_interrupted := b\<rparr>) = q_contents q"
  by (simp_all add: q_inv_def q_rep_def q_contents_def)

lemmas q_flag_defs = pktqueue_signal_shutdown_def pktqueue_signal_interrupt_def
  pktqueue_check_interrupt_def pktqueue_is_shutdown_def

lemma q_step_ok:
  assumes "q_inv q"
  shows "(\<exists>out q'. q_step x q = Inr (out, q') \<and> q_inv q' \<and> q_contents q @ pushed [x] = out @ q_contents q')
    \<or> x = QPop \<and> q_contents q = [] \<and> q_step x q = Inl Blocked"
proof (cases x)
  case (QPush p ok)
  then show ?thesis using pq.push_ok [OF assms, of p] pq.push_fail [of q p] assms
    by (cases ok) auto
next
  case QPop
  then show ?thesis using pq.pop_cases [OF assms] assms by auto
qed (use assms in \<open>auto simp: q_flag_defs\<close>)

lemma pushed_append: "pushed (x # xs) = pushed [x] @ pushed xs"
  by (cases x) auto

lemma q_run_ok:
  "q_inv q \<Longrightarrow> (\<exists>outs q'. q_run xs q = Inr (outs, q') \<and> q_inv q' \<and> q_contents q @ pushed xs = outs @ q_contents q')
     \<or> q_run xs q = Inl Blocked"
proof (induction xs arbitrary: q)
  case (Cons x xs)
  from q_step_ok [OF Cons.prems, of x] show ?case
  proof (elim disjE exE conjE)
    fix out q' assume s: "q_step x q = Inr (out, q')" "q_inv q'" "q_contents q @ pushed [x] = out @ q_contents q'"
    have "q_contents q @ pushed (x # xs) = out @ q_contents q' @ pushed xs"
      by (subst pushed_append) (simp add: s(3) [symmetric] del: pushed.simps)
    with Cons.IH [OF s(2)] s(1) show ?case by auto
  qed simp
qed simp

lemma q_inv_init: "fst (pktqueue_init True True) \<and> q_inv (snd (pktqueue_init True True)) \<and>
    q_contents (snd (pktqueue_init True True)) = []"
proof -
  have "q_rep (snd (pktqueue_init True True)) []" by (simp add: pktqueue_init_def q_rep_def)
  then show ?thesis using q_contents_rep by (force simp: q_inv_def pktqueue_init_def)
qed

text \<open>Destroying frees the whole list.\<close>

lemma queue_destroyed:
  assumes "q_inv q"
  shows "\<exists>q'. pktqueue_destroy q = Inr q' \<and> q_nodes q' = fmempty \<and> q_head q' = None \<and> q_tail q' = None \<and>
    \<not> q_mutex q' \<and> \<not> q_cond q'"
proof -
  from assms obtain as where as: "q_rep q as" by (auto simp: q_inv_def)
  then obtain h where h: "free_nodes (q_nodes q) (q_head q) = Inr h" "fset (fmdom h) = {}"
    using free_nodes_chain [of "q_nodes q" "q_head q" as] by (auto simp: q_rep_def)
  from h(2) have "fmdom h = {||}" by (simp add: fset_inject [symmetric])
  then have "h = fmempty" by (metis fmdom_empty fmrestrict_fset_dom fmrestrict_fset_null)
  with h(1) show ?thesis by (simp add: pktqueue_destroy_def)
qed

subsection \<open>Properties\<close>



text \<open>The linked list refines an abstract queue: packets pushed into an empty queue come
  out in the same order, and the queue is empty again with its signals untouched.\<close>

lemma queue_push_then_pop:
  assumes "q_inv q" "q_contents q = []"
  shows "\<exists>q' q''. push_all pktqueue_push q ps = Inr q' \<and>
    pop_many pktqueue_pop (length ps) q' = Inr (map Some ps, q'') \<and> q_contents q'' = [] \<and>
    q_shutdown q'' = q_shutdown q \<and> q_interrupted q'' = q_interrupted q \<and> q_inv q''"
  using pq.push_then_pop [OF assms, of ps] by auto

end
