(* ===== verification/Regbuf.thy ===== *)
theory Regbuf
  imports Prelude
begin

text \<open>
  \<^verbatim>\<open>src/src/regbuf.c\<close> and \<^verbatim>\<open>src/include/regbuf.h\<close>: the scratch buffer for register values.
  The doubling loop runs on \<open>size_t\<close>, that is modulo \<open>2 ^ 64\<close>, and need not end, so it is a
  partial function whose value \<open>None\<close> means that it does not return.
\<close>

subsection \<open>Definitions\<close>

record regbuf_t =
  rb_buf :: "cbuf option"   \<comment> \<open>\<open>None\<close> is a null pointer\<close>
  rb_sz :: size_t

definition malloc :: "bool \<Rightarrow> size_t \<Rightarrow> cbuf option" where
  "malloc ok n = (if ok then Some (buf_new (unat n)) else None)"

definition regbuf_init :: "bool \<Rightarrow> bool \<times> regbuf_t" where
  "regbuf_init ok =
     (let r = \<lparr>rb_buf = malloc ok 8, rb_sz = 8\<rparr> in (if rb_buf r = None then False else True, r))"

partial_function (option) regbuf_grow :: "size_t \<Rightarrow> size_t \<Rightarrow> size_t option" where
  "regbuf_grow reg_sz sz =
     (if reg_sz > sz then regbuf_grow reg_sz (push_bit 1 sz) else Some sz)"

text \<open>The result is the pointer the caller gets and the buffer's new state; \<open>ok\<close> is the
  outcome of \<open>malloc\<close>.\<close>

definition regbuf_get :: "regbuf_t \<Rightarrow> size_t \<Rightarrow> bool \<Rightarrow> (cbuf option \<times> regbuf_t) res" where
  "regbuf_get r reg_sz ok =
     (if reg_sz \<le> rb_sz r then Inr (rb_buf r, r)
      else case regbuf_grow reg_sz (rb_sz r) of
             None \<Rightarrow> Inl Diverges
           | Some sz \<Rightarrow> (let b = malloc ok sz in Inr (b, \<lparr>rb_buf = b, rb_sz = sz\<rparr>)))"

definition regbuf_destroy :: "regbuf_t \<Rightarrow> regbuf_t" where
  "regbuf_destroy r = r\<lparr>rb_buf := None\<rparr>"

subsection \<open>The invariant\<close>

text \<open>The size is a power of two from 8 on, and it is the size of the allocation.\<close>

definition rb_inv :: "regbuf_t \<Rightarrow> bool" where
  "rb_inv r \<longleftrightarrow> (\<exists>k. 3 \<le> k \<and> k < 64 \<and> rb_sz r = 2 ^ k) \<and>
     (\<exists>b. rb_buf r = Some b \<and> cap b = unat (rb_sz r))"

lemma unat_exp: "k < 64 \<Longrightarrow> unat (2 ^ k :: size_t) = 2 ^ k"
proof -
  assume "k < 64"
  then have "(2 ^ k :: nat) < 2 ^ 64" by (intro power_strict_increasing) auto
  moreover have "(2 ^ k :: size_t) = of_nat (2 ^ k)" by simp
  ultimately show ?thesis by (simp add: unat_of_nat del: of_nat_power of_nat_numeral)
qed

lemma shift_exp: "push_bit 1 (2 ^ k :: size_t) = 2 ^ Suc k"
  by (simp add: push_bit_eq_mult)

lemma exp_64: "(2 ^ 64 :: size_t) = 0"
  by simp

lemma rb_inv_init: "rb_inv (snd (regbuf_init True)) \<and> fst (regbuf_init True)"
  by (auto simp: rb_inv_def regbuf_init_def malloc_def intro: exI [of _ 3])

text \<open>The loop stops at the first power of two that is large enough, if there is one.\<close>

lemma regbuf_grow_returns:
  assumes "unat n \<le> 2 ^ 63" "k < 64"
  shows "\<exists>j. regbuf_grow n (2 ^ k) = Some (2 ^ j) \<and> k \<le> j \<and> j < 64 \<and> n \<le> 2 ^ j \<and>
    (k < j \<longrightarrow> unat n > 2 ^ (j - 1))"
  using assms(2)
proof (induction "63 - k" arbitrary: k)
  case 0
  then have "k = 63" by simp
  with assms(1) have "n \<le> 2 ^ k" by (simp add: word_le_nat_alt unat_exp)
  then show ?case using 0 by (subst regbuf_grow.simps) auto
next
  case (Suc m)
  show ?case
  proof (cases "n \<le> 2 ^ k")
    case True
    then show ?thesis using Suc.prems by (subst regbuf_grow.simps) auto
  next
    case False
    then have lt: "unat n > 2 ^ k"
      using Suc.prems by (simp add: word_le_nat_alt unat_exp)
    have "m = 63 - Suc k" "Suc k < 64" using Suc.hyps(2) by auto
    from Suc.hyps(1) [OF this] obtain j where
      j: "regbuf_grow n (2 ^ Suc k) = Some (2 ^ j)" "Suc k \<le> j" "j < 64" "n \<le> 2 ^ j"
        "Suc k < j \<longrightarrow> unat n > 2 ^ (j - 1)" by blast
    have "regbuf_grow n (2 ^ k) = regbuf_grow n (2 ^ Suc k)"
      using False by (subst regbuf_grow.simps) (simp add: push_bit_eq_mult mult.commute not_le)
    moreover have "unat n > 2 ^ (j - 1)"
      using j(2,5) lt by (cases "j = Suc k") auto
    ultimately show ?thesis using j by auto
  qed
qed

text \<open>Whatever the loop returns is a power of two or zero, and not below the request.\<close>

lemma regbuf_grow_result:
  assumes "regbuf_grow n sz = Some r"
  shows "n \<le> r \<and> ((\<exists>k \<le> 64. sz = 2 ^ k) \<longrightarrow> (\<exists>k \<le> 64. r = 2 ^ k))"
proof (rule regbuf_grow.raw_induct [where P = "\<lambda>n sz r. n \<le> r \<and>
    ((\<exists>k \<le> 64. sz = 2 ^ k) \<longrightarrow> (\<exists>k \<le> 64. r = (2 ^ k :: size_t)))", OF _ assms])
  fix f n sz r
  assume IH: "\<And>n sz r. f n sz = Some r \<Longrightarrow> n \<le> r \<and>
      ((\<exists>k \<le> 64. sz = 2 ^ k) \<longrightarrow> (\<exists>k \<le> 64. r = (2 ^ k :: size_t)))"
    and eq: "(if sz < n then f n (push_bit 1 sz) else Some sz) = Some r"
  show "n \<le> r \<and> ((\<exists>k \<le> 64. sz = 2 ^ k) \<longrightarrow> (\<exists>k \<le> 64. r = (2 ^ k :: size_t)))"
  proof (cases "sz < n")
    case True
    have "\<exists>j \<le> 64. push_bit 1 sz = 2 ^ j" if "k \<le> 64" "sz = 2 ^ k" for k
    proof (cases "k = 64")
      case True
      with that(2) have "sz = 2 ^ 64" by simp
      then have "push_bit 1 sz = 2 ^ 64" unfolding exp_64 by simp
      then show ?thesis by blast
    next
      case False
      with that show ?thesis using shift_exp [of k] by (intro exI [of _ "Suc k"]) simp
    qed
    with True eq IH show ?thesis by fastforce
  qed (use eq in auto)
qed

lemma regbuf_grow_diverges:
  assumes "2 ^ 63 < unat n" "k < 64"
  shows "regbuf_grow n (2 ^ k) = None"
proof (rule ccontr)
  assume "regbuf_grow n (2 ^ k) \<noteq> None"
  then obtain r where r: "regbuf_grow n (2 ^ k) = Some r" by blast
  from regbuf_grow_result [OF r] assms(2) obtain j where j: "j \<le> 64" "r = 2 ^ j" "n \<le> r"
    using less_imp_le by blast
  have "unat r \<le> 2 ^ 63"
  proof (cases "j = 64")
    case False
    with j(1,2) have "unat r = 2 ^ j" "j \<le> 63" by (auto simp: unat_exp)
    then show ?thesis using power_increasing [of j 63 "2::nat"] by simp
  qed (use j exp_64 in simp)
  with assms(1) j(3) show False by (simp add: word_le_nat_alt)
qed

lemma regbuf_get_ok:
  assumes "rb_inv r" "unat reg_sz \<le> 2 ^ 63"
  shows "\<exists>b r'. regbuf_get r reg_sz True = Inr (Some b, r') \<and> unat reg_sz \<le> cap b \<and>
    rb_buf r' = Some b \<and> rb_inv r' \<and> rb_sz r \<le> rb_sz r'"
proof (cases "reg_sz \<le> rb_sz r")
  case True
  with assms(1) show ?thesis by (auto simp: regbuf_get_def rb_inv_def word_le_nat_alt)
next
  case False
  obtain k where k: "3 \<le> k" "k < 64" "rb_sz r = 2 ^ k" using assms(1) by (auto simp: rb_inv_def)
  obtain j where j: "regbuf_grow reg_sz (2 ^ k) = Some (2 ^ j)" "k \<le> j" "j < 64" "reg_sz \<le> 2 ^ j"
    using regbuf_grow_returns [OF assms(2) k(2)] by blast
  have "rb_inv \<lparr>rb_buf = malloc True (2 ^ j), rb_sz = 2 ^ j\<rparr>"
    using j k by (auto simp: rb_inv_def malloc_def intro: exI [of _ j])
  moreover have "rb_sz r \<le> 2 ^ j"
    using False j(4) k(3) by simp
  ultimately show ?thesis
    using False j(1,4) k(3) by (auto simp: regbuf_get_def malloc_def word_le_nat_alt Let_def)
qed

lemma regbuf_get_huge_diverges:
  assumes "rb_inv r" "2 ^ 63 < unat reg_sz"
  shows "regbuf_get r reg_sz ok = Inl Diverges"
proof -
  obtain k where k: "k < 64" "rb_sz r = 2 ^ k" using assms(1) by (auto simp: rb_inv_def)
  have "2 ^ k \<le> (2 ^ 63 :: nat)" using k(1) by (intro power_increasing) auto
  with assms(2) k have "\<not> reg_sz \<le> rb_sz r" by (simp add: word_le_nat_alt unat_exp)
  with regbuf_grow_diverges [OF assms(2) k(1)] k(2) show ?thesis by (simp add: regbuf_get_def)
qed

subsection \<open>Properties\<close>

text \<open>C38.  The doubling loop.  For every size up to \<open>2 ^ 63\<close> \<open>regbuf_get\<close> returns a buffer of at least
  that size; the buffer never shrinks and its size stays a power of two.  Beyond \<open>2 ^ 63\<close> the
  doubling overflows to zero and the call never returns.\<close>

theorem regbuf_get_returns:
  assumes "rb_inv r"
  shows "if unat reg_sz \<le> 2 ^ 63
    then \<exists>b r'. regbuf_get r reg_sz True = Inr (Some b, r') \<and> unat reg_sz \<le> cap b \<and>
      rb_buf r' = Some b \<and> rb_inv r' \<and> rb_sz r \<le> rb_sz r'
    else regbuf_get r reg_sz ok = Inl Diverges"
  using regbuf_get_ok [OF assms, of reg_sz] regbuf_get_huge_diverges [OF assms, of reg_sz ok] by simp

theorem regbuf_get_returns_witness:
  "(\<exists>b r'. regbuf_get (snd (regbuf_init True)) 100 True = Inr (Some b, r') \<and> 100 \<le> cap b) \<and>
   regbuf_get (snd (regbuf_init True)) 0xFFFFFFFFFFFFFFFF True = Inl Diverges"
proof -
  have "unat (100 :: size_t) = 100" "unat (0xFFFFFFFFFFFFFFFF :: size_t) = 0xFFFFFFFFFFFFFFFF" by simp_all
  then show ?thesis
    using regbuf_get_returns [of "snd (regbuf_init True)" 100 True]
      regbuf_get_returns [of "snd (regbuf_init True)" "0xFFFFFFFFFFFFFFFF" True] rb_inv_init by auto
qed

end
