(* ===== verification/Target.thy ===== *)
theory Target
  imports Conn Pktqueue Regbuf
begin

text \<open>
  \<^verbatim>\<open>src/include/gdbstub.h\<close> and the state of \<^verbatim>\<open>src/src/gdbstub.c\<close>: the operations that
  an emulator supplies (\<open>struct target_ops\<close>, a null pointer is \<open>None\<close>), the description of
  the architecture, and the stub's own state.  The emulator's state, which the library only
  knows as \<open>void *args\<close>, is the type parameter \<open>'s\<close>.

  A callback returns its C result together with what it stored through its pointer argument or
  the new emulator state; a register is passed as the \<open>get_reg_bytes\<close> bytes that the pointer
  leads to.  Reading callbacks do not change the emulator.

  The interfaces \<open>target_regs\<close> and \<open>target_mem\<close> state what the README asks of the register and
  memory callbacks.  They are interpreted by the reference emulator.
\<close>

subsection \<open>Definitions\<close>

datatype gdb_event_t = EVENT_NONE | EVENT_CONT | EVENT_DETACH | EVENT_STEP

datatype gdb_action_t = ACT_NONE | ACT_RESUME | ACT_SHUTDOWN

type_synonym bp_type_t = "32 word"

definition BP_SOFTWARE :: bp_type_t where "BP_SOFTWARE = 0"

record 's target_ops =
  cont :: "('s \<Rightarrow> (gdb_action_t \<times> 's) res) option"
  stepi :: "('s \<Rightarrow> (gdb_action_t \<times> 's) res) option"
  get_reg_bytes :: "int \<Rightarrow> size_t"
  read_reg :: "('s \<Rightarrow> int \<Rightarrow> (int \<times> byte list) res) option"
  write_reg :: "('s \<Rightarrow> int \<Rightarrow> byte list \<Rightarrow> (int \<times> 's) res) option"
  read_mem :: "('s \<Rightarrow> size_t \<Rightarrow> size_t \<Rightarrow> (int \<times> byte list) res) option"
  write_mem :: "('s \<Rightarrow> size_t \<Rightarrow> size_t \<Rightarrow> byte list \<Rightarrow> (int \<times> 's) res) option"
  set_bp :: "('s \<Rightarrow> size_t \<Rightarrow> bp_type_t \<Rightarrow> (bool \<times> 's) res) option"
  del_bp :: "('s \<Rightarrow> size_t \<Rightarrow> bp_type_t \<Rightarrow> (bool \<times> 's) res) option"
  on_interrupt :: "('s \<Rightarrow> 's) option"
  set_cpu :: "('s \<Rightarrow> int \<Rightarrow> 's) option"
  get_cpu :: "('s \<Rightarrow> int) option"

record arch_info_t =
  target_desc :: "byte list option"
  smp :: int
  reg_num :: int

definition TARGET_RV32 :: "byte list" where
  "TARGET_RV32 = str ''<target version=\"1.0\"><architecture>riscv:rv32</architecture></target>''"

definition TARGET_RV64 :: "byte list" where
  "TARGET_RV64 = str ''<target version=\"1.0\"><architecture>riscv:rv64</architecture></target>''"

definition TARGET_X86_64 :: "byte list" where
  "TARGET_X86_64 = str ''<target version=\"1.0\"><architecture>i386:x86-64</architecture></target>''"

record gdbstub_private =
  conn :: conn_t
  regbuf :: regbuf_t
  pktqueue :: pktqueue_t
  thread_stop :: bool
  reader_running :: bool
  async_io :: bool            \<comment> \<open>\<open>async_io_enable\<close>\<close>
  total_reg_bytes :: size_t

text \<open>\<open>mallocs\<close> lists the outcomes of the coming calls of \<open>malloc\<close>; behind its end they succeed.\<close>

record 's gdbstub_t =
  ops :: "'s target_ops"
  arch :: arch_info_t
  priv :: gdbstub_private
  mallocs :: "bool list"

definition async_io_enable :: "gdbstub_private \<Rightarrow> gdbstub_private" where
  "async_io_enable p = p\<lparr>async_io := True\<rparr>"

definition async_io_disable :: "gdbstub_private \<Rightarrow> gdbstub_private" where
  "async_io_disable p = p\<lparr>async_io := False\<rparr>"

definition async_io_is_enable :: "gdbstub_private \<Rightarrow> bool" where
  "async_io_is_enable p = async_io p"

definition next_malloc :: "'s gdbstub_t \<Rightarrow> bool" where
  "next_malloc g = (case mallocs g of [] \<Rightarrow> True | ok # _ \<Rightarrow> ok)"

definition used_malloc :: "'s gdbstub_t \<Rightarrow> 's gdbstub_t" where
  "used_malloc g = g\<lparr>mallocs := tl (mallocs g)\<rparr>"

text \<open>\<open>regbuf_get(&priv->regbuf, reg_sz)\<close>; using the null pointer of a failed allocation faults.\<close>

definition stub_regbuf_get :: "'s gdbstub_t \<Rightarrow> size_t \<Rightarrow> (cbuf \<times> 's gdbstub_t) res" where
  "stub_regbuf_get g reg_sz =
     bindE (regbuf_get (regbuf (priv g)) reg_sz (next_malloc g)) (\<lambda>(b, r).
       let g1 = (if reg_sz \<le> rb_sz (regbuf (priv g)) then g else used_malloc g);
           g2 = g1\<lparr>priv := (priv g1)\<lparr>regbuf := r\<rparr>\<rparr>
       in case b of None \<Rightarrow> Inl NullDeref | Some buf \<Rightarrow> Inr (buf, g2))"

text \<open>A store into the register buffer stays in it.\<close>

definition stub_regbuf_set :: "'s gdbstub_t \<Rightarrow> cbuf \<Rightarrow> 's gdbstub_t" where
  "stub_regbuf_set g b = g\<lparr>priv := (priv g)\<lparr>regbuf := (regbuf (priv g))\<lparr>rb_buf := Some b\<rparr>\<rparr>\<rparr>"

text \<open>\<open>conn_send_pktstr(&gdbstub->priv->conn, s)\<close>.\<close>

definition send :: "'s gdbstub_t \<Rightarrow> byte list \<Rightarrow> 's gdbstub_t res" where
  "send g s = bindE (conn_send_pktstr (conn (priv g)) s) (\<lambda>c. Inr (g\<lparr>priv := (priv g)\<lparr>conn := c\<rparr>\<rparr>))"

text \<open>A callback that the code calls without a check.\<close>

definition call :: "'f option \<Rightarrow> ('f \<Rightarrow> 'r res) \<Rightarrow> 'r res" where
  "call f k = (case f of None \<Rightarrow> Inl NullDeref | Some op \<Rightarrow> k op)"

subsection \<open>What the library asks of an emulator\<close>

locale target_regs =
  fixes rd :: "'s \<Rightarrow> int \<Rightarrow> (int \<times> byte list) res"
    and wr :: "'s \<Rightarrow> int \<Rightarrow> byte list \<Rightarrow> (int \<times> 's) res"
    and width :: "int \<Rightarrow> size_t"
    and num :: nat
    and wf :: "'s \<Rightarrow> bool"
    and accepts_val :: "int \<Rightarrow> byte list \<Rightarrow> bool"
  assumes rd_ok: "wf s \<Longrightarrow> i < num \<Longrightarrow>
      \<exists>bs. rd s (int i) = Inr (0, bs) \<and> length bs = unat (width (int i)) \<and> accepts_val (int i) bs"
    and wr_yes: "wf s \<Longrightarrow> i < num \<Longrightarrow> length bs = unat (width (int i)) \<Longrightarrow> accepts_val (int i) bs \<Longrightarrow>
      \<exists>s'. wr s (int i) bs = Inr (0, s') \<and> wf s' \<and>
        (\<forall>j < num. rd s' (int j) = (if j = i then Inr (0, bs) else rd s (int j)))"
    and wr_no: "wf s \<Longrightarrow> i < num \<Longrightarrow> length bs = unat (width (int i)) \<Longrightarrow> \<not> accepts_val (int i) bs \<Longrightarrow>
      \<exists>r. r \<noteq> 0 \<and> - (2 ^ 31) \<le> r \<and> r < 2 ^ 31 \<and> wr s (int i) bs = Inr (r, s)"

locale target_mem =
  fixes rdm :: "'s \<Rightarrow> size_t \<Rightarrow> size_t \<Rightarrow> (int \<times> byte list) res"
    and wrm :: "'s \<Rightarrow> size_t \<Rightarrow> size_t \<Rightarrow> byte list \<Rightarrow> (int \<times> 's) res"
    and limit :: nat
    and wf :: "'s \<Rightarrow> bool"
  assumes rdm_ok: "wf s \<Longrightarrow> a + n \<le> limit \<Longrightarrow>
      \<exists>bs. rdm s (of_nat a) (of_nat n) = Inr (0, bs) \<and> length bs = n"
    and wrm_ok: "wf s \<Longrightarrow> a + length bs \<le> limit \<Longrightarrow>
      \<exists>s'. wrm s (of_nat a) (of_nat (length bs)) bs = Inr (0, s') \<and> wf s' \<and>
        rdm s' (of_nat a) (of_nat (length bs)) = Inr (0, bs)"
    and wrm_frame: "wf s \<Longrightarrow> a + length bs \<le> limit \<Longrightarrow> wrm s (of_nat a) (of_nat (length bs)) bs = Inr (0, s') \<Longrightarrow>
      b + n \<le> limit \<Longrightarrow> b + n \<le> a \<or> a + length bs \<le> b \<Longrightarrow>
      rdm s' (of_nat b) (of_nat n) = rdm s (of_nat b) (of_nat n)"

end
