(* ===== verification/Gdbstub.thy ===== *)
theory Gdbstub
  imports Target
begin

text \<open>
  \<^verbatim>\<open>src/src/gdbstub.c\<close>: the request handlers and their dispatcher.  A handler takes the
  stub and the emulator's state and returns both, or the way in which the C code fails.  A
  payload is the C string behind the request letter; the two memory writers, which read their
  payload as raw bytes, get the bytes of the packet from the payload on.
\<close>

subsection \<open>Replies\<close>

definition SEND_ERR :: "'s gdbstub_t \<Rightarrow> byte list \<Rightarrow> 's gdbstub_t res" where
  "SEND_ERR g err = send g err"

definition SEND_EPERM :: "'s gdbstub_t \<Rightarrow> 's gdbstub_t res" where
  "SEND_EPERM g = SEND_ERR g (str ''E01'')"

definition SEND_EINVAL :: "'s gdbstub_t \<Rightarrow> 's gdbstub_t res" where
  "SEND_EINVAL g = SEND_ERR g (str ''E22'')"

text \<open>\<open>sprintf(buf, "E%d", ret)\<close> into a buffer.\<close>

definition sprintf_E :: "cbuf \<Rightarrow> int \<Rightarrow> cbuf res" where
  "sprintf_E b ret = buf_puts b 0 (str ''E'' @ fmt_d ret @ [0])"

definition send_buf :: "'s gdbstub_t \<Rightarrow> cbuf \<Rightarrow> 's gdbstub_t res" where
  "send_buf g b = bindE (buf_cstr b 0) (\<lambda>s. send g s)"

definition send_errno :: "'s gdbstub_t \<Rightarrow> nat \<Rightarrow> int \<Rightarrow> 's gdbstub_t res" where
  "send_errno g n ret = bindE (sprintf_E (buf_new n) ret) (\<lambda>b. send_buf g b)"

subsection \<open>Running\<close>

definition process_cont :: "'s gdbstub_t \<Rightarrow> (gdb_event_t \<times> 's gdbstub_t) res" where
  "process_cont g =
     (if cont (ops g) \<noteq> None then Inr (EVENT_CONT, g)
      else bindE (SEND_EPERM g) (\<lambda>g'. Inr (EVENT_NONE, g')))"

definition process_stepi :: "'s gdbstub_t \<Rightarrow> (gdb_event_t \<times> 's gdbstub_t) res" where
  "process_stepi g =
     (if stepi (ops g) \<noteq> None then Inr (EVENT_STEP, g)
      else bindE (SEND_EPERM g) (\<lambda>g'. Inr (EVENT_NONE, g')))"

subsection \<open>Registers\<close>

text \<open>\<open>ops->read_reg(args, i, reg_value)\<close> with \<open>reg_value\<close> the register buffer.\<close>

definition fetch_reg :: "'s gdbstub_t \<Rightarrow> 's \<Rightarrow> int \<Rightarrow> (int \<times> cbuf \<times> 's gdbstub_t) res" where
  "fetch_reg g s i =
     bindE (stub_regbuf_get g (get_reg_bytes (ops g) i)) (\<lambda>(b, g1).
     call (read_reg (ops g)) (\<lambda>rd.
     bindE (rd s i) (\<lambda>(ret, bs).
     bindE (buf_puts b 0 bs) (\<lambda>b'.
     Inr (ret, b', stub_regbuf_set g1 b')))))"

text \<open>The loop of \<open>process_reg_read\<close> from register \<open>i\<close> on, with \<open>k\<close> registers to go.\<close>

fun reg_read_loop :: "'s gdbstub_t \<Rightarrow> 's \<Rightarrow> cbuf \<Rightarrow> nat \<Rightarrow> nat \<Rightarrow> (cbuf \<times> 's gdbstub_t) res" where
  "reg_read_loop g s packet_str i 0 = Inr (packet_str, g)"
| "reg_read_loop g s packet_str i (Suc k) =
     (let reg_sz = get_reg_bytes (ops g) (int i) in
      bindE (fetch_reg g s (int i)) (\<lambda>(ret, reg_value, g1).
      if ret = 0 then
        bindE (hex_to_str reg_value 0 packet_str (unat (of_nat i * reg_sz * 2)) (int_of_size reg_sz)) (\<lambda>p.
        reg_read_loop g1 s p (Suc i) k)
      else bindE (sprintf_E packet_str ret) (\<lambda>p. Inr (p, g1))))"

definition process_reg_read :: "'s gdbstub_t \<Rightarrow> 's \<Rightarrow> 's gdbstub_t res" where
  "process_reg_read g s =
     bindE (reg_read_loop g s (buf_new MAX_SEND_PACKET_SIZE) 0 (nat (reg_num (arch g)))) (\<lambda>(p, g').
     send_buf g' p)"

definition process_reg_read_one :: "'s gdbstub_t \<Rightarrow> byte list \<Rightarrow> 's \<Rightarrow> 's gdbstub_t res" where
  "process_reg_read_one g payload s =
     (case sscanf_x payload of
        None \<Rightarrow> Inl AssertFail
      | Some regno \<Rightarrow>
          let reg_sz = get_reg_bytes (ops g) regno in
          bindE (fetch_reg g s regno) (\<lambda>(ret, reg_value, g1).
          bindE (if ret = 0
                 then hex_to_str reg_value 0 (buf_new MAX_SEND_PACKET_SIZE) 0 (int_of_size reg_sz)
                 else sprintf_E (buf_new MAX_SEND_PACKET_SIZE) ret) (\<lambda>p.
          send_buf g1 p)))"

text \<open>\<open>process_reg_write\<close>, first loop: parse the new values and save the current ones.  The
  outcome is the pair of buffers, or the error number of a failed read.\<close>

fun reg_write_parse :: "'s gdbstub_t \<Rightarrow> 's \<Rightarrow> byte list \<Rightarrow> cbuf \<Rightarrow> cbuf \<Rightarrow> nat \<Rightarrow> nat \<Rightarrow> nat \<Rightarrow> nat \<Rightarrow>
    (int + cbuf \<times> cbuf) res" where
  "reg_write_parse g s payload nv bv po so i 0 = Inr (Inr (nv, bv))"
| "reg_write_parse g s payload nv bv po so i (Suc k) =
     (let reg_sz = get_reg_bytes (ops g) (int i) in
      bindE (str_to_hex payload po nv so (int_of_size reg_sz)) (\<lambda>nv'.
      call (read_reg (ops g)) (\<lambda>rd.
      bindE (rd s (int i)) (\<lambda>(ret, bs).
      bindE (buf_puts bv so bs) (\<lambda>bv'.
      if ret \<noteq> 0 then Inr (Inl ret)
      else reg_write_parse g s payload nv' bv' (po + unat reg_sz * 2) (so + unat reg_sz) (Suc i) k)))))"

text \<open>Second loop: write the new values.  The outcome is the emulator's state and, if a write
  failed, the register and the error number.\<close>

fun reg_write_commit :: "'s gdbstub_t \<Rightarrow> 's \<Rightarrow> cbuf \<Rightarrow> nat \<Rightarrow> nat \<Rightarrow> nat \<Rightarrow> (((nat \<times> int) option) \<times> 's) res" where
  "reg_write_commit g s nv so i 0 = Inr (None, s)"
| "reg_write_commit g s nv so i (Suc k) =
     (let reg_sz = get_reg_bytes (ops g) (int i) in
      bindE (buf_gets nv so (unat reg_sz)) (\<lambda>bs.
      call (write_reg (ops g)) (\<lambda>wr.
      bindE (wr s (int i) bs) (\<lambda>(ret, s').
      if ret \<noteq> 0 then Inr (Some (i, ret), s')
      else reg_write_commit g s' nv (so + unat reg_sz) (Suc i) k))))"

text \<open>Third loop: write the saved values back, whatever the callback answers.\<close>

fun reg_write_rollback :: "'s gdbstub_t \<Rightarrow> 's \<Rightarrow> cbuf \<Rightarrow> nat \<Rightarrow> nat \<Rightarrow> nat \<Rightarrow> 's res" where
  "reg_write_rollback g s bv so i 0 = Inr s"
| "reg_write_rollback g s bv so i (Suc k) =
     (let reg_sz = get_reg_bytes (ops g) (int i) in
      bindE (buf_gets bv so (unat reg_sz)) (\<lambda>bs.
      call (write_reg (ops g)) (\<lambda>wr.
      bindE (wr s (int i) bs) (\<lambda>(ret, s').
      reg_write_rollback g s' bv (so + unat reg_sz) (Suc i) k))))"

definition process_reg_write :: "'s gdbstub_t \<Rightarrow> byte list \<Rightarrow> 's \<Rightarrow> ('s gdbstub_t \<times> 's) res" where
  "process_reg_write g payload s =
     (let n = nat (reg_num (arch g));
          total = total_reg_bytes (priv g);
          expected_hex_len = total * 2
      in if total = 0 then bindE (send g (str ''OK'')) (\<lambda>g'. Inr (g', s))
         else if of_nat (length payload) \<noteq> expected_hex_len
         then bindE (send g (str ''E22'')) (\<lambda>g'. Inr (g', s))
         else
           let ok1 = next_malloc g; g1 = used_malloc g; ok2 = next_malloc g1; g2 = used_malloc g1
           in case (malloc ok1 total, malloc ok2 total) of
                (Some nv0, Some bv0) \<Rightarrow>
                  bindE (reg_write_parse g2 s payload nv0 bv0 0 0 0 n) (\<lambda>parsed.
                  case parsed of
                    Inl ret \<Rightarrow> bindE (send_errno g2 16 ret) (\<lambda>g'. Inr (g', s))
                  | Inr (nv, bv) \<Rightarrow>
                      bindE (reg_write_commit g2 s nv 0 0 n) (\<lambda>(failed, s1).
                      case failed of
                        None \<Rightarrow> bindE (send g2 (str ''OK'')) (\<lambda>g'. Inr (g', s1))
                      | Some (failed_regno, error_code) \<Rightarrow>
                          bindE (reg_write_rollback g2 s1 bv 0 0 failed_regno) (\<lambda>s2.
                          bindE (send_errno g2 16 error_code) (\<lambda>g'. Inr (g', s2)))))
              | _ \<Rightarrow> bindE (send g2 (str ''E12'')) (\<lambda>g'. Inr (g', s)))"

definition process_reg_write_one :: "'s gdbstub_t \<Rightarrow> byte list \<Rightarrow> 's \<Rightarrow> ('s gdbstub_t \<times> 's) res" where
  "process_reg_write_one g payload s =
     (let (regno_str, data_str) = split_chr (ch CHR ''='') payload in
      case sscanf_x regno_str of
        None \<Rightarrow> Inl AssertFail
      | Some regno \<Rightarrow>
          let reg_sz = get_reg_bytes (ops g) regno in
          bindE (stub_regbuf_get g reg_sz) (\<lambda>(data, g1).
          case data_str of
            None \<Rightarrow> Inl NullDeref
          | Some ds \<Rightarrow>
              bindE (assertE (of_nat (length ds) = reg_sz * 2)) (\<lambda>_.
              bindE (str_to_hex ds 0 data 0 (int_of_size reg_sz)) (\<lambda>data'.
              let g2 = stub_regbuf_set g1 data' in
              bindE (buf_gets data' 0 (unat reg_sz)) (\<lambda>bs.
              call (write_reg (ops g)) (\<lambda>wr.
              bindE (wr s regno bs) (\<lambda>(ret, s').
              bindE (if ret = 0 then send g2 (str ''OK'') else send_errno g2 MAX_SEND_PACKET_SIZE ret) (\<lambda>g'.
              Inr (g', s')))))))))"

subsection \<open>Memory\<close>

definition process_mem_read :: "'s gdbstub_t \<Rightarrow> byte list \<Rightarrow> 's \<Rightarrow> 's gdbstub_t res" where
  "process_mem_read g payload s =
     (case sscanf_hexs 2 payload of
        [maddr, mlen] \<Rightarrow>
          (case malloc (next_malloc g) mlen of
             None \<Rightarrow> Inl NullDeref
           | Some mval0 \<Rightarrow>
               let g1 = used_malloc g in
               call (read_mem (ops g)) (\<lambda>rd.
               bindE (rd s maddr mlen) (\<lambda>(ret, bs).
               bindE (buf_puts mval0 0 bs) (\<lambda>mval.
               bindE (if ret = 0
                      then hex_to_str mval 0 (buf_new MAX_SEND_PACKET_SIZE) 0 (int_of_size mlen)
                      else sprintf_E (buf_new MAX_SEND_PACKET_SIZE) ret) (\<lambda>p.
               send_buf g1 p)))))
      | _ \<Rightarrow> Inl AssertFail)"

text \<open>\<open>strchr(payload, ':')\<close> on raw bytes: the text before the colon, and the position behind it.
  The search ends at the first NUL.\<close>

definition find_content :: "byte list \<Rightarrow> (byte list \<times> nat option) res" where
  "find_content raw =
     (if 0 \<notin> set raw then Inl OutOfBounds
      else let s = takeWhile (\<lambda>x. x \<noteq> 0) raw
           in case find_byte (ch CHR '':'') s of
                None \<Rightarrow> Inr (s, None)
              | Some k \<Rightarrow> Inr (take k s, Some (k + 1)))"

definition process_mem_write :: "'s gdbstub_t \<Rightarrow> byte list \<Rightarrow> 's \<Rightarrow> ('s gdbstub_t \<times> 's) res" where
  "process_mem_write g raw s =
     bindE (find_content raw) (\<lambda>(hdr, content).
     case sscanf_hexs 2 hdr of
       [maddr, mlen] \<Rightarrow>
         (case malloc (next_malloc g) mlen of
            None \<Rightarrow> Inl NullDeref
          | Some mval0 \<Rightarrow>
              let g1 = used_malloc g in
              bindE (case content of
                       None \<Rightarrow> if int_of_size mlen > 0 then Inl NullDeref else Inr mval0
                     | Some c \<Rightarrow> str_to_hex raw c mval0 0 (int_of_size mlen)) (\<lambda>mval.
              bindE (buf_gets mval 0 (unat mlen)) (\<lambda>bs.
              call (write_mem (ops g)) (\<lambda>wr.
              bindE (wr s maddr mlen bs) (\<lambda>(ret, s').
              bindE (if ret = 0 then send g1 (str ''OK'') else send_errno g1 MAX_SEND_PACKET_SIZE ret) (\<lambda>g'.
              Inr (g', s')))))))
     | _ \<Rightarrow> Inl AssertFail)"

text \<open>\<open>packet_end\<close> is the position of the terminator that replaced \<open>#\<close>, counted from the payload.\<close>

definition process_mem_xwrite :: "'s gdbstub_t \<Rightarrow> byte list \<Rightarrow> nat \<Rightarrow> 's \<Rightarrow> ('s gdbstub_t \<times> 's) res" where
  "process_mem_xwrite g raw packet_end s =
     bindE (find_content raw) (\<lambda>(hdr, content).
     case sscanf_hexs 2 hdr of
       [maddr, mlen] \<Rightarrow>
         (case content of
            None \<Rightarrow> Inl NullDeref
          | Some c \<Rightarrow>
              bindE (unescape (raw[c - 1 := 0]) c packet_end) (\<lambda>(raw', n).
              bindE (assertE (int n = int_of_size mlen)) (\<lambda>_.
              call (write_mem (ops g)) (\<lambda>wr.
              if length raw' < c + unat mlen then Inl OutOfBounds
              else
                bindE (wr s maddr mlen (take (unat mlen) (drop c raw'))) (\<lambda>(ret, s').
                bindE (send g (str ''OK'')) (\<lambda>g'. Inr (g', s')))))))
     | _ \<Rightarrow> Inl AssertFail)"

subsection \<open>Queries\<close>

text \<open>\<open>snprintf(buf + 1, n, "%s", text)\<close> with \<open>n\<close> an \<open>int\<close> converted to \<open>size_t\<close>.\<close>

definition snprintf_s :: "cbuf \<Rightarrow> int \<Rightarrow> byte list \<Rightarrow> cbuf res" where
  "snprintf_s b n text =
     (if n = 0 then Inr b
      else if n < 0 then buf_puts b 1 (text @ [0])
      else buf_puts b 1 (take (nat n - 1) text @ [0]))"

definition process_xfer :: "'s gdbstub_t \<Rightarrow> byte list option \<Rightarrow> 's gdbstub_t res" where
  "process_xfer g arg =
     (case arg of
        None \<Rightarrow> Inl NullDeref
      | Some s \<Rightarrow>
          let (name, args) = split_chr (ch CHR '':'') s in
          case target_desc (arch g) of
            None \<Rightarrow> send g []
          | Some desc \<Rightarrow>
              if name \<noteq> str ''features'' then send g []
              else
                case args of
                  None \<Rightarrow> Inl NullDeref
                | Some a \<Rightarrow>
                    (case strtok (ch CHR '':'') a of
                       None \<Rightarrow> Inl NullDeref
                     | Some (action, r1) \<Rightarrow>
                         bindE (assertE (action = str ''read'')) (\<lambda>_.
                         case strtok (ch CHR '':'') r1 of
                           None \<Rightarrow> Inl NullDeref
                         | Some (annex, r2) \<Rightarrow>
                             bindE (assertE (annex = str ''target.xml'')) (\<lambda>_.
                             case strtok (ch CHR '':'') r2 of
                               None \<Rightarrow> Inl NullDeref
                             | Some (tok, r3) \<Rightarrow>
                                 let vals = map int_of_size (sscanf_hexs 2 tok);
                                     offset = (case vals of [] \<Rightarrow> 0 | v # _ \<Rightarrow> v);
                                     len = (case vals of [_, v] \<Rightarrow> v | _ \<Rightarrow> 0);
                                     total_len = int (length desc);
                                     payload_length =
                                       (if int MAX_DATA_PAYLOAD > len then len else int MAX_DATA_PAYLOAD)
                                 in if offset < 0 \<or> total_len < offset then Inl OutOfBounds
                                    else
                                      bindE (buf_put (buf_new MAX_SEND_PACKET_SIZE) 0
                                               (if total_len - offset < payload_length
                                                then ch CHR ''l'' else ch CHR ''m'')) (\<lambda>b.
                                      bindE (snprintf_s b payload_length (drop (nat offset) desc)) (\<lambda>b'.
                                      send_buf g b'))))))"

text \<open>The loop that lists the CPUs: \<open>sprintf(cpuid_str, "%04d,", cpuid)\<close> into six bytes, of
  which five are copied.\<close>

fun thread_info_loop :: "cbuf \<Rightarrow> nat \<Rightarrow> nat \<Rightarrow> nat \<Rightarrow> (cbuf \<times> nat) res" where
  "thread_info_loop b ptr cpuid 0 = Inr (b, ptr)"
| "thread_info_loop b ptr cpuid (Suc k) =
     bindE (buf_puts (buf_new 6) 0 (fmt_04d (int cpuid) @ str '','' @ [0])) (\<lambda>cpuid_str.
     bindE (buf_gets cpuid_str 0 5) (\<lambda>bs.
     bindE (buf_puts b ptr bs) (\<lambda>b'.
     thread_info_loop b' (ptr + 5) (Suc cpuid) k)))"

definition process_query :: "'s gdbstub_t \<Rightarrow> byte list \<Rightarrow> 's \<Rightarrow> 's gdbstub_t res" where
  "process_query g payload s =
     (let (name, qargs) = split_chr (ch CHR '':'') payload in
      if name = str ''C'' then
        (case get_cpu (ops g) of
           Some f \<Rightarrow>
             bindE (buf_puts (buf_new MAX_SEND_PACKET_SIZE) 0 (str ''QC'' @ fmt_04d (f s) @ [0])) (\<lambda>b. send_buf g b)
         | None \<Rightarrow> send g [])
      else if name = str ''Supported'' then
        (if target_desc (arch g) \<noteq> None
         then send g (str ''PacketSize=1024;qXfer:features:read+;QStartNoAckMode+'')
         else send g (str ''PacketSize=1024;QStartNoAckMode+''))
      else if name = str ''Attached'' then send g (str ''1'')
      else if name = str ''Xfer'' then process_xfer g qargs
      else if name = str ''Symbol'' then send g (str ''OK'')
      else if name = str ''fThreadInfo'' then
        (let n = (if smp (arch g) \<noteq> 0 then smp (arch g) else 1) in
         bindE (assertE (n < 10000)) (\<lambda>_.
         bindE (buf_put (buf_new MAX_SEND_PACKET_SIZE) 0 (ch CHR ''m'')) (\<lambda>b0.
         bindE (thread_info_loop b0 1 0 (nat n)) (\<lambda>(b, ptr).
         bindE (buf_put b ptr 0) (\<lambda>b'. send_buf g b')))))
      else if name = str ''sThreadInfo'' then send g (str ''l'')
      else send g [])"

definition process_general_set :: "'s gdbstub_t \<Rightarrow> byte list \<Rightarrow> 's gdbstub_t res" where
  "process_general_set g payload =
     (let (name, qargs) = split_chr (ch CHR '':'') payload in
      if name = str ''StartNoAckMode'' then
        send (g\<lparr>priv := (priv g)\<lparr>conn := (conn (priv g))\<lparr>no_ack_mode := True\<rparr>\<rparr>\<rparr>) (str ''OK'')
      else send g [])"

subsection \<open>vCont\<close>

text \<open>\<open>args[0]\<close>: the first byte, or the terminator of an empty string.\<close>

definition first_char :: "byte list \<Rightarrow> byte" where
  "first_char s = (case s of [] \<Rightarrow> 0 | c # _ \<Rightarrow> c)"

definition process_vcont :: "'s gdbstub_t \<Rightarrow> byte list option \<Rightarrow> (gdb_event_t \<times> 's gdbstub_t) res" where
  "process_vcont g args =
     (case args of
        None \<Rightarrow> Inl NullDeref
      | Some a \<Rightarrow>
          if first_char a = ch CHR ''c'' then
            (if cont (ops g) \<noteq> None then Inr (EVENT_CONT, g)
             else bindE (SEND_EPERM g) (\<lambda>g'. Inr (EVENT_NONE, g')))
          else if first_char a = ch CHR ''s'' then
            (if stepi (ops g) \<noteq> None then Inr (EVENT_STEP, g)
             else bindE (SEND_EPERM g) (\<lambda>g'. Inr (EVENT_NONE, g')))
          else bindE (SEND_EPERM g) (\<lambda>g'. Inr (EVENT_NONE, g')))"

definition process_vcont_support :: "'s gdbstub_t \<Rightarrow> 's gdbstub_t res" where
  "process_vcont_support g =
     (let str_s = (if stepi (ops g) = None then [] else str ''s;'');
          str_c = (if cont (ops g) = None then [] else str ''c;'')
      in bindE (buf_puts (buf_new MAX_SEND_PACKET_SIZE) 0 (str ''vCont;'' @ str_s @ str_c @ [0])) (\<lambda>b.
         send_buf g b))"

definition process_vpacket :: "'s gdbstub_t \<Rightarrow> byte list \<Rightarrow> (gdb_event_t \<times> 's gdbstub_t) res" where
  "process_vpacket g payload =
     (let (name, args) = split_chr (ch CHR '';'') payload in
      if name = str ''Cont'' then process_vcont g args
      else if name = str ''Cont?'' then bindE (process_vcont_support g) (\<lambda>g'. Inr (EVENT_NONE, g'))
      else bindE (send g []) (\<lambda>g'. Inr (EVENT_NONE, g')))"

subsection \<open>Breakpoints and CPUs\<close>

text \<open>The type is converted from \<open>size_t\<close> to the enumeration, which keeps the low 32 bits.\<close>

definition process_del_break_points :: "'s gdbstub_t \<Rightarrow> byte list \<Rightarrow> 's \<Rightarrow> ('s gdbstub_t \<times> 's) res" where
  "process_del_break_points g payload s =
     (case sscanf_hexs 3 payload of
        [type, addr, kind] \<Rightarrow>
          call (del_bp (ops g)) (\<lambda>f.
          bindE (f s addr (ucast type)) (\<lambda>(ret, s').
          bindE (if ret then send g (str ''OK'') else SEND_EINVAL g) (\<lambda>g'. Inr (g', s'))))
      | _ \<Rightarrow> Inl AssertFail)"

definition process_set_break_points :: "'s gdbstub_t \<Rightarrow> byte list \<Rightarrow> 's \<Rightarrow> ('s gdbstub_t \<times> 's) res" where
  "process_set_break_points g payload s =
     (case sscanf_hexs 3 payload of
        [type, addr, kind] \<Rightarrow>
          call (set_bp (ops g)) (\<lambda>f.
          bindE (f s addr (ucast type)) (\<lambda>(ret, s').
          bindE (if ret then send g (str ''OK'') else SEND_EINVAL g) (\<lambda>g'. Inr (g', s'))))
      | _ \<Rightarrow> Inl AssertFail)"

definition process_set_cpu :: "'s gdbstub_t \<Rightarrow> byte list \<Rightarrow> 's \<Rightarrow> ('s gdbstub_t \<times> 's) res" where
  "process_set_cpu g payload s =
     bindE (if first_char payload = ch CHR ''g'' then
              (case scan_dec (tl payload) of
                 None \<Rightarrow> Inl AssertFail
               | Some (cpuid, r) \<Rightarrow> call (set_cpu (ops g)) (\<lambda>f. Inr (f s cpuid)))
            else Inr s) (\<lambda>s'.
     bindE (send g (str ''OK'')) (\<lambda>g'. Inr (g', s')))"

subsection \<open>The dispatcher\<close>

text \<open>The C string at the payload.\<close>

definition cstr_of :: "byte list \<Rightarrow> byte list res" where
  "cstr_of raw = (if 0 \<in> set raw then Inr (takeWhile (\<lambda>x. x \<noteq> 0) raw) else Inl OutOfBounds)"

definition no_event :: "'s \<Rightarrow> 's gdbstub_t res \<Rightarrow> (gdb_event_t \<times> 's gdbstub_t \<times> 's) res" where
  "no_event s r = bindE r (\<lambda>g. Inr (EVENT_NONE, g, s))"

definition no_event_st :: "('s gdbstub_t \<times> 's) res \<Rightarrow> (gdb_event_t \<times> 's gdbstub_t \<times> 's) res" where
  "no_event_st r = bindE r (\<lambda>(g, s). Inr (EVENT_NONE, g, s))"

definition with_event :: "'s \<Rightarrow> (gdb_event_t \<times> 's gdbstub_t) res \<Rightarrow> (gdb_event_t \<times> 's gdbstub_t \<times> 's) res" where
  "with_event s r = bindE r (\<lambda>(e, g). Inr (e, g, s))"

text \<open>The \<open>switch\<close>: \<open>raw\<close> are the bytes from the payload on, \<open>packet_end\<close> counts from there.\<close>

definition dispatch_request ::
    "'s gdbstub_t \<Rightarrow> byte \<Rightarrow> byte list \<Rightarrow> nat \<Rightarrow> 's \<Rightarrow> (gdb_event_t \<times> 's gdbstub_t \<times> 's) res" where
  "dispatch_request g request raw packet_end s =
    (if request = ch CHR ''c'' then with_event s (process_cont g)
     else if request = ch CHR ''g'' then
       no_event s (if read_reg (ops g) \<noteq> None then process_reg_read g s else SEND_EPERM g)
     else if request = ch CHR ''m'' then
       no_event s (if read_mem (ops g) \<noteq> None
                   then bindE (cstr_of raw) (\<lambda>p. process_mem_read g p s) else SEND_EPERM g)
     else if request = ch CHR ''p'' then
       no_event s (if read_reg (ops g) \<noteq> None
                   then bindE (cstr_of raw) (\<lambda>p. process_reg_read_one g p s) else SEND_EPERM g)
     else if request = ch CHR ''q'' then
       no_event s (bindE (cstr_of raw) (\<lambda>p. process_query g p s))
     else if request = ch CHR ''Q'' then
       no_event s (bindE (cstr_of raw) (\<lambda>p. process_general_set g p))
     else if request = ch CHR ''s'' then with_event s (process_stepi g)
     else if request = ch CHR ''v'' then
       with_event s (bindE (cstr_of raw) (\<lambda>p. process_vpacket g p))
     else if request = ch CHR ''z'' then
       (if del_bp (ops g) \<noteq> None
        then no_event_st (bindE (cstr_of raw) (\<lambda>p. process_del_break_points g p s))
        else no_event s (SEND_EPERM g))
     else if request = ch CHR ''?'' then no_event s (send g (str ''S05''))
     else if request = ch CHR ''D'' then
       bindE (send g (str ''OK'')) (\<lambda>g'. Inr (EVENT_DETACH, g', s))
     else if request = ch CHR ''G'' then
       (if write_reg (ops g) \<noteq> None
        then no_event_st (bindE (cstr_of raw) (\<lambda>p. process_reg_write g p s))
        else no_event s (SEND_EPERM g))
     else if request = ch CHR ''H'' then
       (if set_cpu (ops g) \<noteq> None
        then no_event_st (bindE (cstr_of raw) (\<lambda>p. process_set_cpu g p s))
        else no_event s (SEND_EPERM g))
     else if request = ch CHR ''M'' then
       (if write_mem (ops g) \<noteq> None then no_event_st (process_mem_write g raw s)
        else no_event s (SEND_EPERM g))
     else if request = ch CHR ''P'' then
       (if write_reg (ops g) \<noteq> None
        then no_event_st (bindE (cstr_of raw) (\<lambda>p. process_reg_write_one g p s))
        else no_event s (SEND_EPERM g))
     else if request = ch CHR ''T'' then no_event s (send g (str ''OK''))
     else if request = ch CHR ''X'' then
       (if write_mem (ops g) \<noteq> None then no_event_st (process_mem_xwrite g raw packet_end s)
        else no_event s (SEND_EPERM g))
     else if request = ch CHR ''Z'' then
       (if set_bp (ops g) \<noteq> None
        then no_event_st (bindE (cstr_of raw) (\<lambda>p. process_set_break_points g p s))
        else no_event s (SEND_EPERM g))
     else no_event s (send g []))"

definition gdbstub_process_packet :: "'s gdbstub_t \<Rightarrow> packet_t \<Rightarrow> 's \<Rightarrow> (gdb_event_t \<times> 's gdbstub_t \<times> 's) res" where
  "gdbstub_process_packet g inpkt s =
     bindE (peek (pkt_data inpkt) 0) (\<lambda>c0.
     bindE (assertE (c0 = ch CHR ''$'')) (\<lambda>_.
     if pkt_end_pos inpkt < CSUM_SIZE \<or> length (pkt_data inpkt) \<le> pkt_end_pos inpkt - CSUM_SIZE
     then Inl OutOfBounds
     else
       let e = pkt_end_pos inpkt - CSUM_SIZE;
           data = (pkt_data inpkt)[e := 0];
           raw = drop 2 data
       in bindE (peek data 1) (\<lambda>request. dispatch_request g request raw (e - 2) s)))"

end
