(* ===== verification/StubRegs.thy ===== *)
theory StubRegs
  imports Gdbstub
begin

text \<open>
  The register requests \<open>g\<close>, \<open>G\<close>, \<open>p\<close> and \<open>P\<close> of \<^verbatim>\<open>src/src/gdbstub.c\<close> on a target that
  keeps the contract \<open>target_regs\<close>.  The lemmas are proved once for every such target, inside the
  interface; the properties state them over the handlers.
\<close>

subsection \<open>Replies\<close>

text \<open>Handlers change their scratch memory only.\<close>

definition scratch :: "'s gdbstub_t \<Rightarrow> 's gdbstub_t \<Rightarrow> bool" where
  "scratch g g' \<longleftrightarrow> ops g' = ops g \<and> arch g' = arch g \<and> conn (priv g') = conn (priv g) \<and>
     pktqueue (priv g') = pktqueue (priv g) \<and> thread_stop (priv g') = thread_stop (priv g) \<and>
     reader_running (priv g') = reader_running (priv g) \<and> async_io (priv g') = async_io (priv g) \<and>
     total_reg_bytes (priv g') = total_reg_bytes (priv g)"

text \<open>The scratch buffer is in order and \<open>malloc\<close> succeeds.\<close>

definition stub_ok :: "'s gdbstub_t \<Rightarrow> bool" where
  "stub_ok g \<longleftrightarrow> rb_inv (regbuf (priv g)) \<and> False \<notin> set (mallocs g)"

lemma scratch_refl [simp]: "scratch g g"
  by (simp add: scratch_def)

lemma scratch_trans: "scratch g g1 \<Longrightarrow> scratch g1 g2 \<Longrightarrow> scratch g g2"
  by (simp add: scratch_def)

lemma scratch_used_malloc [simp]: "scratch g (used_malloc g)"
  by (simp add: scratch_def used_malloc_def)

lemma stub_ok_used_malloc: "stub_ok g \<Longrightarrow> stub_ok (used_malloc g)"
  by (cases "mallocs g") (simp_all add: stub_ok_def used_malloc_def)

lemma stub_ok_next_malloc: "stub_ok g \<Longrightarrow> next_malloc g"
  by (auto simp: stub_ok_def next_malloc_def split: list.splits)

lemma send_buf_new:
  assumes "length t < n" "0 \<notin> set t"
  shows "bindE (buf_puts (buf_new n) 0 (t @ [0])) (send_buf g) = send g t"
proof -
  obtain b where b: "buf_puts (buf_new n) 0 (t @ [0]) = Inr b"
    using buf_puts_ok [of 0 "t @ [0]" "buf_new n"] assms(1) by auto
  show ?thesis
    using buf_cstr_puts [OF b assms(2)] b by (simp add: send_buf_def)
qed

definition err_reply :: "int \<Rightarrow> byte list" where
  "err_reply ret = str ''E'' @ fmt_d ret"

lemma send_errno_reply:
  assumes "- (2 ^ 31) \<le> ret" "ret < 2 ^ 31" "16 \<le> n"
  shows "send_errno g n ret = send g (err_reply ret)"
proof -
  have "length (err_reply ret) < n"
    using length_fmt_d [OF assms(1,2)] assms(3) by (simp add: err_reply_def str_def)
  moreover have "0 \<notin> set (err_reply ret)"
    using nul_free_fmt(1) by (auto simp: err_reply_def str_def)
  ultimately show ?thesis
    using send_buf_new [of "err_reply ret" n g]
    by (simp add: send_errno_def sprintf_E_def err_reply_def)
qed

subsection \<open>The scratch buffer\<close>

lemma set_regbuf_ok:
  assumes "scratch g g1" "stub_ok g1" "rb_inv r"
  shows "scratch g (g1\<lparr>priv := (priv g1)\<lparr>regbuf := r\<rparr>\<rparr>)" "stub_ok (g1\<lparr>priv := (priv g1)\<lparr>regbuf := r\<rparr>\<rparr>)"
  using assms by (simp_all add: scratch_def stub_ok_def)

lemma stub_regbuf_get_ok:
  assumes "stub_ok g" "unat n \<le> 2 ^ 63"
  shows "\<exists>b g'. stub_regbuf_get g n = Inr (b, g') \<and> unat n \<le> cap b \<and> scratch g g' \<and> stub_ok g' \<and>
    rb_buf (regbuf (priv g')) = Some b"
proof -
  have inv: "rb_inv (regbuf (priv g))" using assms(1) by (simp add: stub_ok_def)
  obtain b r' where "regbuf_get (regbuf (priv g)) n True = Inr (Some b, r')" "unat n \<le> cap b" "rb_buf r' = Some b"
    "rb_inv r'"
    using regbuf_get_ok [OF inv assms(2)] by blast
  moreover define g1 where "g1 = (if n \<le> rb_sz (regbuf (priv g)) then g else used_malloc g)"
  ultimately have "stub_regbuf_get g n = Inr (b, g1\<lparr>priv := (priv g1)\<lparr>regbuf := r'\<rparr>\<rparr>)"
    "unat n \<le> cap b" "rb_buf r' = Some b" "rb_inv r'"
    using stub_ok_next_malloc [OF assms(1)] by (simp_all add: stub_regbuf_get_def Let_def)
  moreover have "scratch g g1" "stub_ok g1"
    using assms(1) unfolding g1_def by (auto simp: stub_ok_used_malloc)
  ultimately show ?thesis using set_regbuf_ok by fastforce
qed

lemma stub_regbuf_set_ok:
  assumes "stub_ok g" "rb_buf (regbuf (priv g)) = Some b" "cap b' = cap b"
  shows "stub_ok (stub_regbuf_set g b') \<and> scratch g (stub_regbuf_set g b')"
  using assms by (simp add: stub_ok_def stub_regbuf_set_def rb_inv_def scratch_def)

lemma fetch_reg_ok:
  assumes "stub_ok g" "read_reg (ops g) = Some rd" "rd s i = Inr (ret, bs)"
    "length bs \<le> unat (get_reg_bytes (ops g) i)" "unat (get_reg_bytes (ops g) i) \<le> 2 ^ 63"
  shows "\<exists>b g'. fetch_reg g s i = Inr (ret, b, g') \<and> scratch g g' \<and> stub_ok g' \<and>
    (\<forall>k < length bs. buf_get b k = Inr (bs ! k))"
proof -
  obtain b g1 where g1: "stub_regbuf_get g (get_reg_bytes (ops g) i) = Inr (b, g1)"
    "unat (get_reg_bytes (ops g) i) \<le> cap b" "scratch g g1" "stub_ok g1" "rb_buf (regbuf (priv g1)) = Some b"
    using stub_regbuf_get_ok [OF assms(1,5)] by blast
  obtain b' where b': "buf_puts b 0 bs = Inr b'"
    using buf_puts_ok [of 0 bs b] g1(2) assms(4) by auto
  have "stub_ok (stub_regbuf_set g1 b') \<and> scratch g1 (stub_regbuf_set g1 b')"
    using stub_regbuf_set_ok [OF g1(4,5)] cap_buf_puts [OF b'] by blast
  with g1 b' assms(2,3) show ?thesis
    using buf_get_puts [OF b'] scratch_trans [OF g1(3)] by (auto simp: fetch_reg_def call_def)
qed

lemma unat_of_nat_small: "n < 2 ^ 64 \<Longrightarrow> unat (of_nat n :: size_t) = n"
  by (simp add: unat_of_nat)

lemma int_of_size_small: "unat w < 2 ^ 31 \<Longrightarrow> int_of_size w = int (unat w)"
proof -
  assume "unat w < 2 ^ 31"
  then have "int (unat w) < int (2 ^ 31)" by (simp only: of_nat_less_iff)
  then have lt: "uint w < 2 ^ 31" by simp
  have ge: "- (2 ^ 31) \<le> uint w" by (rule order_trans [of _ 0]) simp_all
  show ?thesis
    unfolding int_of_size_def int32_of_def signed_take_bit_int_eq_self [OF ge lt] by simp
qed

lemma unhex_take_drop: "unhex (take (2 * n) (drop (2 * i) s)) = take n (drop i (unhex s))"
proof (induction i arbitrary: s)
  case 0
  show ?case
  proof (induction n arbitrary: s)
    case (Suc n)
    then show ?case by (cases s rule: unhex.cases) simp_all
  qed simp
next
  case (Suc i)
  then show ?case by (cases s rule: unhex.cases) simp_all
qed

subsection \<open>Register images\<close>

text \<open>The layout of a \<open>g\<close> reply: register after register, each in its own width.\<close>

definition reg_off :: "(int \<Rightarrow> size_t) \<Rightarrow> nat \<Rightarrow> nat" where
  "reg_off width i = sum_list (map (\<lambda>j. unat (width (int j))) [0..<i])"

definition reg_slice :: "(int \<Rightarrow> size_t) \<Rightarrow> byte list \<Rightarrow> nat \<Rightarrow> byte list" where
  "reg_slice width img i = take (unat (width (int i))) (drop (reg_off width i) img)"

definition reg_val :: "('s \<Rightarrow> int \<Rightarrow> (int \<times> byte list) res) \<Rightarrow> 's \<Rightarrow> nat \<Rightarrow> byte list" where
  "reg_val rd s i = snd (projr (rd s (int i)))"

definition reg_image :: "('s \<Rightarrow> int \<Rightarrow> (int \<times> byte list) res) \<Rightarrow> 's \<Rightarrow> nat \<Rightarrow> byte list" where
  "reg_image rd s n = concat (map (reg_val rd s) [0..<n])"

lemma reg_off_simps [simp]: "reg_off width 0 = 0" "reg_off width (Suc i) = reg_off width i + unat (width (int i))"
  by (simp_all add: reg_off_def)

lemma reg_off_mono: "i \<le> j \<Longrightarrow> reg_off width i \<le> reg_off width j"
  by (induction j) (auto simp: le_Suc_eq)

lemma reg_image_simps [simp]: "reg_image rd s 0 = []" "reg_image rd s (Suc n) = reg_image rd s n @ reg_val rd s n"
  by (simp_all add: reg_image_def)

context target_regs
begin

lemma rd_val: "wf s \<Longrightarrow> i < num \<Longrightarrow> rd s (int i) = Inr (0, reg_val rd s i)"
  using rd_ok [of s i] by (auto simp: reg_val_def)

lemma fewer:
  assumes m: "m \<le> num"
  shows "target_regs rd wr width m wf accepts_val"
proof
  fix s i assume "wf s" "i < m"
  with m rd_ok [of s i]
  show "\<exists>bs. rd s (int i) = Inr (0, bs) \<and> length bs = unat (width (int i)) \<and> accepts_val (int i) bs"
    by simp
next
  fix s i bs assume "wf s" "i < m" "length bs = unat (width (int i))" "accepts_val (int i) bs"
  with m wr_yes [of s i bs] show "\<exists>s'. wr s (int i) bs = Inr (0, s') \<and> wf s' \<and>
      (\<forall>j < m. rd s' (int j) = (if j = i then Inr (0, bs) else rd s (int j)))"
    by (metis order_less_le_trans)
next
  fix s i bs assume "wf s" "i < m" "length bs = unat (width (int i))" "\<not> accepts_val (int i) bs"
  with m wr_no [of s i bs] show "\<exists>r. r \<noteq> 0 \<and> - (2 ^ 31) \<le> r \<and> r < 2 ^ 31 \<and> wr s (int i) bs = Inr (r, s)"
    by simp
qed

lemma length_val: "wf s \<Longrightarrow> i < num \<Longrightarrow> length (reg_val rd s i) = unat (width (int i))"
  using rd_ok [of s i] by (auto simp: reg_val_def)

lemma accepts_val: "wf s \<Longrightarrow> i < num \<Longrightarrow> accepts_val (int i) (reg_val rd s i)"
  using rd_ok [of s i] by (auto simp: reg_val_def)

lemma length_image: "wf s \<Longrightarrow> n \<le> num \<Longrightarrow> length (reg_image rd s n) = reg_off width n"
  by (induction n) (auto simp: length_val)

lemma image_split: "i \<le> n \<Longrightarrow> reg_image rd s n = reg_image rd s i @ concat (map (reg_val rd s) [i..<n])"
  by (induction n) (auto simp: le_Suc_eq)

lemma slice_image: "wf s \<Longrightarrow> i < num \<Longrightarrow> reg_slice width (reg_image rd s num) i = reg_val rd s i"
  using image_split [of i num s] by (simp add: reg_slice_def length_image length_val upt_rec [of i])

lemma slice_bounds: "i < num \<Longrightarrow> reg_off width i + unat (width (int i)) \<le> reg_off width num"
  using reg_off_mono [of "Suc i" num width] by simp

lemma length_slice: "i < num \<Longrightarrow> length img = reg_off width num \<Longrightarrow> length (reg_slice width img i) = unat (width (int i))"
  using slice_bounds [of i] by (simp add: reg_slice_def)

text \<open>A buffer that holds an image yields its slices.\<close>

lemma buf_gets_slice:
  assumes "i < num" "length img = reg_off width num" "\<forall>k < reg_off width num. buf_get b k = Inr (img ! k)"
  shows "buf_gets b (reg_off width i) (unat (width (int i))) = Inr (reg_slice width img i)"
proof -
  have "buf_gets b (reg_off width i) (length (reg_slice width img i)) = Inr (reg_slice width img i)"
    by (rule buf_gets_Inr) (use assms slice_bounds [of i] in \<open>auto simp: reg_slice_def\<close>)
  then show ?thesis using length_slice [OF assms(1,2)] by simp
qed

subsection \<open>Writing all registers\<close>

lemma commit_ok:
  assumes "i + k = num" "wf s" "write_reg (ops g) = Some wr" "get_reg_bytes (ops g) = width"
    and img: "length img = reg_off width num" "\<forall>k < reg_off width num. buf_get nv k = Inr (img ! k)"
    and "\<forall>j. i \<le> j \<and> j < num \<longrightarrow> accepts_val (int j) (reg_slice width img j)"
  shows "\<exists>s'. reg_write_commit g s nv (reg_off width i) i k = Inr (None, s') \<and> wf s' \<and>
    (\<forall>j < num. rd s' (int j) = (if i \<le> j then Inr (0, reg_slice width img j) else rd s (int j)))"
  using assms(1,2,7)
proof (induction k arbitrary: i s)
  case (Suc k)
  then have i: "i < num" by simp
  let ?v = "reg_slice width img i"
  obtain s1 where s1: "wr s (int i) ?v = Inr (0, s1)" "wf s1"
    "\<forall>j < num. rd s1 (int j) = (if j = i then Inr (0, ?v) else rd s (int j))"
    using wr_yes [OF Suc.prems(2) i, of ?v] length_slice [OF i img(1)] Suc.prems(3) i by auto
  from Suc.IH [of "Suc i" s1] Suc.prems s1(2) obtain s' where
    s': "reg_write_commit g s1 nv (reg_off width (Suc i)) (Suc i) k = Inr (None, s')" "wf s'"
      "\<forall>j < num. rd s' (int j) = (if Suc i \<le> j then Inr (0, reg_slice width img j) else rd s1 (int j))"
    by auto
  have "reg_write_commit g s nv (reg_off width i) i (Suc k) = Inr (None, s')"
    using s1(1) s'(1) assms(3,4) buf_gets_slice [OF i img] by (simp add: call_def Let_def)
  then show ?case using s'(2,3) s1(3) by (auto simp: le_less Suc_le_eq)
qed simp

text \<open>The first register that refuses its value ends the commit; those before it are written.\<close>

lemma commit_fails:
  assumes "i + k = num" "wf s" "write_reg (ops g) = Some wr" "get_reg_bytes (ops g) = width"
    and img: "length img = reg_off width num" "\<forall>k < reg_off width num. buf_get nv k = Inr (img ! k)"
    and "\<exists>j. i \<le> j \<and> j < num \<and> \<not> accepts_val (int j) (reg_slice width img j)"
  shows "\<exists>m r s'. reg_write_commit g s nv (reg_off width i) i k = Inr (Some (m, r), s') \<and> wf s' \<and>
    i \<le> m \<and> m < num \<and> r \<noteq> 0 \<and> - (2 ^ 31) \<le> r \<and> r < 2 ^ 31 \<and>
    (\<forall>j < num. rd s' (int j) = (if i \<le> j \<and> j < m then Inr (0, reg_slice width img j) else rd s (int j)))"
  using assms(1,2,7)
proof (induction k arbitrary: i s)
  case (Suc k)
  then have i: "i < num" by simp
  let ?v = "reg_slice width img i"
  note len = length_slice [OF i img(1)] and get = buf_gets_slice [OF i img]
  show ?case
  proof (cases "accepts_val (int i) ?v")
    case True
    obtain s1 where s1: "wr s (int i) ?v = Inr (0, s1)" "wf s1"
      "\<forall>j < num. rd s1 (int j) = (if j = i then Inr (0, ?v) else rd s (int j))"
      using wr_yes [OF Suc.prems(2) i len True] by auto
    from Suc.prems(3) True have "\<exists>j. Suc i \<le> j \<and> j < num \<and> \<not> accepts_val (int j) (reg_slice width img j)"
      by (metis Suc_leI le_neq_implies_less)
    with Suc.IH [of "Suc i" s1] Suc.prems(1) s1(2) obtain m r s' where
      s': "reg_write_commit g s1 nv (reg_off width (Suc i)) (Suc i) k = Inr (Some (m, r), s')" "wf s'"
        "Suc i \<le> m" "m < num" "r \<noteq> 0" "- (2 ^ 31) \<le> r" "r < 2 ^ 31"
        "\<forall>j < num. rd s' (int j) = (if Suc i \<le> j \<and> j < m then Inr (0, reg_slice width img j) else rd s1 (int j))"
      by auto
    have "reg_write_commit g s nv (reg_off width i) i (Suc k) = Inr (Some (m, r), s')"
      using s1(1) s'(1) assms(3,4) get by (simp add: call_def Let_def)
    moreover have "\<forall>j < num. rd s' (int j) = (if i \<le> j \<and> j < m then Inr (0, reg_slice width img j) else rd s (int j))"
      using s'(3,8) s1(3) by (auto simp: le_less Suc_le_eq)
    ultimately show ?thesis using s'(2-7) by (intro exI conjI) auto
  next
    case False
    obtain r where "r \<noteq> 0" "- (2 ^ 31) \<le> r" "r < 2 ^ 31" "wr s (int i) ?v = Inr (r, s)"
      using wr_no [OF Suc.prems(2) i len False] by blast
    then show ?thesis
      using assms(3,4) get i Suc.prems(2)
      by (intro exI [of _ i] exI [of _ r] exI [of _ s]) (auto simp: call_def Let_def)
  qed
qed auto

lemma rollback_ok:
  assumes "m \<le> num" "i + k = m" "wf s" "wf s0" "write_reg (ops g) = Some wr" "get_reg_bytes (ops g) = width"
    and img: "\<forall>k < reg_off width num. buf_get bv k = Inr (reg_image rd s0 num ! k)"
  shows "\<exists>s'. reg_write_rollback g s bv (reg_off width i) i k = Inr s' \<and> wf s' \<and>
    (\<forall>j < num. rd s' (int j) = (if i \<le> j \<and> j < m then rd s0 (int j) else rd s (int j)))"
  using assms(2,3)
proof (induction k arbitrary: i s)
  case (Suc k)
  with assms(1) have i: "i < num" by simp
  let ?v = "reg_val rd s0 i"
  have get: "buf_gets bv (reg_off width i) (unat (width (int i))) = Inr ?v"
    using buf_gets_slice [OF i length_image [OF assms(4)] img] slice_image [OF assms(4) i] by simp
  obtain s1 where s1: "wr s (int i) ?v = Inr (0, s1)" "wf s1"
    "\<forall>j < num. rd s1 (int j) = (if j = i then Inr (0, ?v) else rd s (int j))"
    using wr_yes [OF Suc.prems(2) i length_val [OF assms(4) i] accepts_val [OF assms(4) i]] by auto
  from Suc.IH [of "Suc i" s1] Suc.prems s1(2) obtain s' where
    s': "reg_write_rollback g s1 bv (reg_off width (Suc i)) (Suc i) k = Inr s'" "wf s'"
      "\<forall>j < num. rd s' (int j) = (if Suc i \<le> j \<and> j < m then rd s0 (int j) else rd s1 (int j))"
    by auto
  have "reg_write_rollback g s bv (reg_off width i) i (Suc k) = Inr s'"
    using s1(1) s'(1) assms(5,6) get by (simp add: call_def Let_def)
  moreover have "i < m" using Suc.prems(1) by simp
  ultimately show ?case
    using s'(2,3) s1(3) rd_val [OF assms(4)] by (auto simp: le_less Suc_le_eq)
qed (use assms(1) in auto)

lemma int_of_size_width:
  assumes "i < num" "reg_off width num < 2 ^ 31"
  shows "int_of_size (width (int i)) = int (unat (width (int i)))"
  using slice_bounds [OF assms(1)] assms(2) by (intro int_of_size_small) simp

text \<open>The first loop decodes the payload and saves the current image.\<close>

lemma parse_ok:
  assumes "i + k = num" "wf s" "read_reg (ops g) = Some rd" "get_reg_bytes (ops g) = width"
    and small: "reg_off width num < 2 ^ 31" and len: "length payload = 2 * reg_off width num"
    and "cap nv = reg_off width num" "cap bv = reg_off width num"
    and "\<forall>k < reg_off width i. buf_get nv k = Inr (unhex payload ! k)"
    and "\<forall>k < reg_off width i. buf_get bv k = Inr (reg_image rd s num ! k)"
  shows "\<exists>nv' bv'. reg_write_parse g s payload nv bv (2 * reg_off width i) (reg_off width i) i k =
      Inr (Inr (nv', bv')) \<and>
    (\<forall>k < reg_off width num. buf_get nv' k = Inr (unhex payload ! k)) \<and>
    (\<forall>k < reg_off width num. buf_get bv' k = Inr (reg_image rd s num ! k))"
  using assms(1,7-10)
proof (induction k arbitrary: i nv bv)
  case (Suc k)
  then have i: "i < num" by simp
  let ?o = "reg_off width i" and ?w = "unat (width (int i))" and ?img = "reg_image rd s num"
  have b: "?o + ?w \<le> reg_off width num" by (rule slice_bounds [OF i])
  have hex: "unhex (take (2 * ?w) (drop (2 * ?o) payload)) = reg_slice width (unhex payload) i"
    using b len by (simp add: reg_slice_def unhex_take_drop)
  have lD: "length (unhex payload) = reg_off width num" using len by (simp add: length_unhex)
  obtain nv' where nv': "buf_puts nv ?o (reg_slice width (unhex payload) i) = Inr nv'"
    using buf_puts_ok [of ?o "reg_slice width (unhex payload) i" nv] b Suc.prems(2) length_slice [OF i lD] by auto
  obtain bv' where bv': "buf_puts bv ?o (reg_val rd s i) = Inr bv'"
    using buf_puts_ok [of ?o "reg_val rd s i" bv] b Suc.prems(3) length_val [OF assms(2) i] by auto
  have n1: "\<forall>k < reg_off width (Suc i). buf_get nv' k = Inr (unhex payload ! k)"
    using Suc.prems(4) b lD length_slice [OF i lD] by (auto simp: buf_get_puts [OF nv'] reg_slice_def)
  have b1: "\<forall>k < reg_off width (Suc i). buf_get bv' k = Inr (?img ! k)"
    using Suc.prems(5) b length_image [OF assms(2) order_refl] length_slice [OF i length_image [OF assms(2) order_refl]]
    unfolding slice_image [OF assms(2) i, symmetric] by (auto simp: buf_get_puts [OF bv'] slice_image [OF assms(2) i, symmetric] reg_slice_def)
  have "str_to_hex payload (2 * ?o) nv ?o (int_of_size (width (int i))) = Inr nv'"
    unfolding int_of_size_width [OF i small] using b len hex nv' by (subst str_to_hex_puts) auto
  then have "reg_write_parse g s payload nv bv (2 * ?o) ?o i (Suc k) =
      reg_write_parse g s payload nv' bv' (2 * reg_off width (Suc i)) (reg_off width (Suc i)) (Suc i) k"
    using assms(3,4) bv' rd_val [OF assms(2) i] by (simp add: call_def Let_def algebra_simps)
  with Suc.IH [OF _ _ _ n1 b1] Suc.prems(1-3) cap_buf_puts [OF nv'] cap_buf_puts [OF bv'] show ?case
    by auto
qed (use assms(9,10) in auto)

text \<open>The whole request.\<close>

lemma reg_write_ok:
  assumes "stub_ok g" "wf s" "read_reg (ops g) = Some rd" "write_reg (ops g) = Some wr"
    "get_reg_bytes (ops g) = width" "reg_num (arch g) = int num"
    "total_reg_bytes (priv g) = of_nat (reg_off width num)" "0 < reg_off width num"
    and small: "reg_off width num < 2 ^ 31" and len: "length payload = 2 * reg_off width num"
  shows "\<exists>g1 s' reply. process_reg_write g payload s = bindE (send g1 reply) (\<lambda>g'. Inr (g', s')) \<and>
    scratch g g1 \<and> stub_ok g1 \<and> wf s' \<and>
    (if \<forall>j < num. accepts_val (int j) (reg_slice width (unhex payload) j)
     then reply = str ''OK'' \<and> (\<forall>j < num. rd s' (int j) = Inr (0, reg_slice width (unhex payload) j))
     else (\<exists>r. r \<noteq> 0 \<and> reply = err_reply r) \<and> (\<forall>j < num. rd s' (int j) = rd s (int j)))"
proof -
  let ?g = "used_malloc (used_malloc g)" and ?N = "reg_off width num" and ?img = "unhex payload"
  have tot: "unat (of_nat ?N :: size_t) = ?N" using small by (simp add: unat_of_nat)
  then have nz: "(of_nat ?N :: size_t) \<noteq> 0" using assms(8) by (metis unsigned_0 less_not_refl)
  have len2: "of_nat (length payload) = (of_nat ?N * 2 :: size_t)" using len by simp
  have m: "malloc (next_malloc g) (of_nat ?N) = Some (buf_new ?N)"
    "malloc (next_malloc (used_malloc g)) (of_nat ?N) = Some (buf_new ?N)"
    using stub_ok_next_malloc assms(1) stub_ok_used_malloc by (auto simp: malloc_def tot)
  have ok: "stub_ok ?g" "scratch g ?g"
    using assms(1) by (auto simp: stub_ok_used_malloc intro: scratch_trans [OF scratch_used_malloc])
  have ops: "ops ?g = ops g" by (simp add: used_malloc_def)
  obtain nv bv where p: "reg_write_parse ?g s payload (buf_new ?N) (buf_new ?N) 0 0 0 num = Inr (Inr (nv, bv))"
    "\<forall>k < ?N. buf_get nv k = Inr (?img ! k)" "\<forall>k < ?N. buf_get bv k = Inr (reg_image rd s num ! k)"
    using parse_ok [of 0 num s ?g payload "buf_new ?N" "buf_new ?N"] assms(2,3,5) small len ops by auto
  have lD: "length ?img = ?N" using len by (simp add: length_unhex)
  have run: "process_reg_write g payload s =
     bindE (reg_write_commit ?g s nv 0 0 num) (\<lambda>(failed, s1).
       case failed of
         None \<Rightarrow> bindE (send ?g (str ''OK'')) (\<lambda>g'. Inr (g', s1))
       | Some (failed_regno, error_code) \<Rightarrow>
           bindE (reg_write_rollback ?g s1 bv 0 0 failed_regno) (\<lambda>s2.
           bindE (send_errno ?g 16 error_code) (\<lambda>g'. Inr (g', s2))))"
    using assms(6,7) nz len2 m p(1) by (simp add: process_reg_write_def Let_def)
  show ?thesis
  proof (cases "\<forall>j < num. accepts_val (int j) (reg_slice width ?img j)")
    case True
    from commit_ok [of 0 num s ?g ?img nv] True assms(2,4,5) ops lD p(2) obtain s' where
      "reg_write_commit ?g s nv 0 0 num = Inr (None, s')" "wf s'"
      "\<forall>j < num. rd s' (int j) = Inr (0, reg_slice width ?img j)" by auto
    with True run ok show ?thesis by (intro exI [of _ ?g] exI [of _ s'] exI [of _ "str ''OK''"]) auto
  next
    case False
    then have "\<exists>j. 0 \<le> j \<and> j < num \<and> \<not> accepts_val (int j) (reg_slice width ?img j)" by auto
    from commit_fails [of 0 num s ?g ?img nv, OF _ _ _ _ lD p(2) this] assms(2,4,5) ops obtain m r s1 where
      c: "reg_write_commit ?g s nv 0 0 num = Inr (Some (m, r), s1)" "wf s1" "m < num" "r \<noteq> 0"
        "- (2 ^ 31) \<le> r" "r < 2 ^ 31"
        "\<forall>j < num. rd s1 (int j) = (if j < m then Inr (0, reg_slice width ?img j) else rd s (int j))" by auto
    from rollback_ok [of m 0 m s1 s ?g bv] c(2,3) assms(2,4,5) ops p(3) obtain s2 where
      "reg_write_rollback ?g s1 bv 0 0 m = Inr s2" "wf s2"
      "\<forall>j < num. rd s2 (int j) = (if j < m then rd s (int j) else rd s1 (int j))" by auto
    with c False run ok send_errno_reply [OF c(5,6), of 16 ?g] show ?thesis
      by (intro exI [of _ ?g] exI [of _ s2] exI [of _ "err_reply r"]) auto
  qed
qed

subsection \<open>Reading all registers\<close>

lemma image_at: "i < num \<Longrightarrow>
    reg_image rd s num = reg_image rd s i @ reg_val rd s i @ concat (map (reg_val rd s) [Suc i..<num])"
  using image_split [of "Suc i" num s] by simp

lemma read_loop_ok:
  assumes "i + k = num" "wf s" "stub_ok g" "read_reg (ops g) = Some rd" "get_reg_bytes (ops g) = width"
    and uni: "\<forall>j < num. width (int j) = wd" and small: "2 * (num * unat wd) \<le> 4090"
    and "cap p = 4096" "\<forall>j < 2 * (i * unat wd). buf_get p j = Inr (hexstr (reg_image rd s num) ! j)"
    and "0 < i \<longrightarrow> buf_get p (2 * (i * unat wd)) = Inr 0"
  shows "\<exists>p' g'. reg_read_loop g s p i k = Inr (p', g') \<and> scratch g g' \<and> stub_ok g' \<and>
    (\<forall>j < 2 * (num * unat wd). buf_get p' j = Inr (hexstr (reg_image rd s num) ! j)) \<and>
    (0 < num \<longrightarrow> buf_get p' (2 * (num * unat wd)) = Inr 0)"
  using assms(1,3,4,5,8-10)
proof (induction k arbitrary: i g p)
  case (Suc k)
  then have i: "i < num" by simp
  let ?W = "unat wd" and ?v = "reg_val rd s i" and ?img = "reg_image rd s num"
  have w: "width (int i) = wd" using uni i by simp
  have lv: "length ?v = ?W" using length_val [OF assms(2) i] w by simp
  have off: "j \<le> num \<Longrightarrow> reg_off width j = j * ?W" for j using uni by (induction j) auto
  have bnd: "2 * (Suc i * ?W) \<le> 4090" and W: "i = 0 \<or> ?W \<le> 4090"
  proof -
    have "Suc i * ?W \<le> num * ?W" using i by (intro mult_le_mono1) simp
    then show "2 * (Suc i * ?W) \<le> 4090" using small by linarith
    then show "i = 0 \<or> ?W \<le> 4090" by simp
  qed
  then have W: "?W \<le> 2045" by simp
  obtain b g1 where f: "fetch_reg g s (int i) = Inr (0, b, g1)" "scratch g g1" "stub_ok g1"
    "\<forall>k < length ?v. buf_get b k = Inr (?v ! k)"
    using fetch_reg_ok [OF Suc.prems(2,3) rd_val [OF assms(2) i]] Suc.prems(4) lv w W by auto
  have pos: "unat (of_nat i * wd * 2) = 2 * (i * ?W)"
  proof -
    have "of_nat i * wd * 2 = (of_nat (2 * (i * ?W)) :: size_t)" by simp
    also have "unat \<dots> = 2 * (i * ?W)" using bnd by (intro unat_of_nat_small) simp
    finally show ?thesis .
  qed
  obtain p1 where p1: "buf_puts p (2 * (i * ?W)) (hexstr ?v @ [0]) = Inr p1"
    using buf_puts_ok [of "2 * (i * ?W)" "hexstr ?v @ [0]" p] bnd Suc.prems(5) lv by (auto simp: hexc.length_enc)
  have "int_of_size wd = int (length ?v)" unfolding lv using W by (intro int_of_size_small) simp
  with hex_to_str_puts [of ?v b 0 p "2 * (i * ?W)"] f(4) p1
  have h: "hex_to_str b 0 p (2 * (i * ?W)) (int_of_size wd) = Inr p1" by simp
  have len_i: "length (reg_image rd s i) = i * ?W"
    using length_image [OF assms(2), of i] off [of i] i by simp
  have nth: "hexstr ?img ! (2 * (i * ?W) + j) = hexstr ?v ! j" if "j < 2 * ?W" for j
    using image_at [OF i, of s] that lv len_i by (simp add: hexc.enc_append nth_append hexc.length_enc)
  have "buf_get p1 j = Inr (hexstr ?img ! j)" if "j < 2 * (Suc i * ?W)" for j
    using that Suc.prems(6) lv nth [of "j - 2 * (i * ?W)"]
    by (auto simp: buf_get_puts [OF p1] hexc.length_enc nth_append)
  moreover have "buf_get p1 (2 * (Suc i * ?W)) = Inr 0"
    using lv by (simp add: buf_get_puts [OF p1] hexc.length_enc nth_append)
  moreover have "ops g1 = ops g" using f(2) by (simp add: scratch_def)
  ultimately obtain p' g' where "reg_read_loop g1 s p1 (Suc i) k = Inr (p', g')" "scratch g1 g'" "stub_ok g'"
    "\<forall>j < 2 * (num * ?W). buf_get p' j = Inr (hexstr ?img ! j)" "0 < num \<longrightarrow> buf_get p' (2 * (num * ?W)) = Inr 0"
    using Suc.IH [of "Suc i" g1 p1] Suc.prems(1,3,4,5) f(3) cap_buf_puts [OF p1] by auto
  then show ?case
    using f(1) h pos w Suc.prems(4) scratch_trans [OF f(2)] by (auto simp: Let_def)
qed auto

lemma reg_read_ok:
  assumes "wf s" "stub_ok g" "read_reg (ops g) = Some rd" "get_reg_bytes (ops g) = width"
    "reg_num (arch g) = int num" "\<forall>j < num. width (int j) = wd" "2 * (num * unat wd) \<le> 4090" "0 < num"
  shows "\<exists>g'. process_reg_read g s = send g' (hexstr (reg_image rd s num)) \<and> scratch g g' \<and> stub_ok g'"
proof -
  let ?img = "reg_image rd s num"
  obtain p' g' where p': "reg_read_loop g s (buf_new 4096) 0 num = Inr (p', g')" "scratch g g'" "stub_ok g'"
    "\<forall>j < 2 * (num * unat wd). buf_get p' j = Inr (hexstr ?img ! j)" "buf_get p' (2 * (num * unat wd)) = Inr 0"
    using read_loop_ok [of 0 num s g wd "buf_new 4096"] assms by auto
  have "reg_off width j = j * unat wd" if "j \<le> num" for j using assms(6) that by (induction j) auto
  then have "length (hexstr ?img) = 2 * (num * unat wd)"
    using length_image [OF assms(1) order_refl] by (simp add: hexc.length_enc)
  then have "buf_cstr p' 0 = Inr (hexstr ?img)"
    using p'(4,5) nul_free_hexstr by (intro buf_cstr_Inr) auto
  with p' assms(5) show ?thesis
    by (intro exI [of _ g']) (simp add: process_reg_read_def send_buf_def MAX_SEND_PACKET_SIZE_def)
qed

subsection \<open>One register\<close>

lemma reg_read_one_ok:
  assumes "wf s" "stub_ok g" "read_reg (ops g) = Some rd" "get_reg_bytes (ops g) = width"
    "i < num" "i < 2 ^ 31" "unat (width (int i)) \<le> 2045"
  shows "\<exists>g'. process_reg_read_one g (digits_of 16 i) s = send g' (hexstr (reg_val rd s i)) \<and>
    scratch g g' \<and> stub_ok g'"
proof -
  let ?v = "reg_val rd s i" and ?W = "unat (width (int i))"
  have lv: "length ?v = ?W" using length_val [OF assms(1,5)] by simp
  obtain b g1 where f: "fetch_reg g s (int i) = Inr (0, b, g1)" "scratch g g1" "stub_ok g1"
    "\<forall>k < length ?v. buf_get b k = Inr (?v ! k)"
    using fetch_reg_ok [OF assms(2,3) rd_val [OF assms(1,5)]] assms(4,7) lv by auto
  have "int_of_size (width (int i)) = int (length ?v)" unfolding lv using assms(7) by (intro int_of_size_small) simp
  with hex_to_str_puts [of ?v b 0 "buf_new 4096" 0] f(4)
  have h: "hex_to_str b 0 (buf_new 4096) 0 (int_of_size (width (int i))) = buf_puts (buf_new 4096) 0 (hexstr ?v @ [0])"
    by simp
  have "length (hexstr ?v) < 4096" using lv assms(7) by (simp add: hexc.length_enc)
  from send_buf_new [OF this nul_free_hexstr, of g1]
  have "process_reg_read_one g (digits_of 16 i) s = send g1 (hexstr ?v)"
    using f(1) h assms(4) sscanf_x_digits [OF assms(6), of "[]"]
    by (simp add: process_reg_read_one_def MAX_SEND_PACKET_SIZE_def Let_def)
  then show ?thesis using f(2,3) by blast
qed

lemma reg_write_one_ok:
  assumes "wf s" "stub_ok g" "write_reg (ops g) = Some wr" "get_reg_bytes (ops g) = width"
    "i < num" "i < 2 ^ 31" "length v = unat (width (int i))" "length v < 2 ^ 31"
  shows "\<exists>g1 s' reply. process_reg_write_one g (digits_of 16 i @ ch CHR ''='' # hexstr v) s =
      bindE (send g1 reply) (\<lambda>g'. Inr (g', s')) \<and> scratch g g1 \<and> stub_ok g1 \<and> wf s' \<and>
    (if accepts_val (int i) v
     then reply = str ''OK'' \<and> (\<forall>j < num. rd s' (int j) = (if j = i then Inr (0, v) else rd s (int j)))
     else (\<exists>r. r \<noteq> 0 \<and> reply = err_reply r) \<and> s' = s)"
proof -
  let ?W = "width (int i)"
  have eq: "ch CHR ''='' \<notin> set (digits_of 16 i)"
    using digits_of_16_xdigit [of i] not_xdigit_sep(3) by blast
  have sc: "sscanf_x (digits_of 16 i) = Some (int i)" using sscanf_x_digits [OF assms(6), of "[]"] by simp
  obtain b g1 where g1: "stub_regbuf_get g ?W = Inr (b, g1)" "unat ?W \<le> cap b" "scratch g g1" "stub_ok g1"
    "rb_buf (regbuf (priv g1)) = Some b"
    using stub_regbuf_get_ok [OF assms(2), of ?W] assms(7,8) by auto
  obtain b' where b': "buf_puts b 0 v = Inr b'" using buf_puts_ok [of 0 v b] g1(2) assms(7) by auto
  have "int_of_size ?W = int (length v)" unfolding assms(7) using assms(7,8) by (intro int_of_size_small) simp
  then have h: "str_to_hex (hexstr v) 0 b 0 (int_of_size ?W) = Inr b'"
    using str_to_hex_puts [of 0 "length v" "hexstr v" b 0] b' by (simp add: hexc.length_enc hexc.dec_enc)
  have gets: "buf_gets b' 0 (unat ?W) = Inr v" using buf_gets_puts [OF b'] assms(7) by simp
  let ?g = "stub_regbuf_set g1 b'"
  have ok: "stub_ok ?g" "scratch g ?g"
    using stub_regbuf_set_ok [OF g1(4,5) cap_buf_puts [OF b']] scratch_trans [OF g1(3)] by auto
  have len: "of_nat (length (hexstr v)) = (?W * 2 :: size_t)"
    using assms(7) by (simp add: hexc.length_enc)
  have run: "process_reg_write_one g (digits_of 16 i @ ch CHR ''='' # hexstr v) s =
      bindE (wr s (int i) v) (\<lambda>(ret, s').
        bindE (if ret = 0 then send ?g (str ''OK'') else send_errno ?g MAX_SEND_PACKET_SIZE ret) (\<lambda>g'. Inr (g', s')))"
    using split_chr_append [OF eq] sc g1(1) assms(3,4) len h gets
    by (simp add: process_reg_write_one_def call_def Let_def)
  show ?thesis
  proof (cases "accepts_val (int i) v")
    case True
    with wr_yes [OF assms(1,5,7)] run ok show ?thesis by fastforce
  next
    case False
    obtain r where r: "r \<noteq> 0" "- (2 ^ 31) \<le> r" "r < 2 ^ 31" "wr s (int i) v = Inr (r, s)"
      using wr_no [OF assms(1,5,7) False] by blast
    have "send_errno ?g MAX_SEND_PACKET_SIZE r = send ?g (err_reply r)"
      by (rule send_errno_reply [OF r(2,3)]) (simp add: MAX_SEND_PACKET_SIZE_def)
    with r run ok False assms(1) show ?thesis
      by (intro exI [of _ ?g] exI [of _ s] exI [of _ "err_reply r"]) auto
  qed
qed

end

subsection \<open>Properties\<close>

text \<open>A fresh stub, for the witnesses.\<close>

definition stub0 :: "'s target_ops \<Rightarrow> arch_info_t \<Rightarrow> size_t \<Rightarrow> sock_ev list \<Rightarrow> 's gdbstub_t" where
  "stub0 o1 a tot evs = \<lparr>ops = o1, arch = a,
     priv = \<lparr>conn = conn0 evs, regbuf = snd (regbuf_init True), pktqueue = snd (pktqueue_init True True),
       thread_stop = False, reader_running = False, async_io = False, total_reg_bytes = tot\<rparr>,
     mallocs = []\<rparr>"

lemma stub_ok_stub0: "stub_ok (stub0 o1 a tot evs)"
  using rb_inv_init by (simp add: stub_ok_def stub0_def)

text \<open>A target with a one-byte and a two-byte register; the second one refuses the value ff ff.\<close>

definition pair_read :: "byte \<times> byte list \<Rightarrow> int \<Rightarrow> (int \<times> byte list) res" where
  "pair_read s i = Inr (0, if i = 0 then [fst s] else snd s)"

definition pair_write :: "byte \<times> byte list \<Rightarrow> int \<Rightarrow> byte list \<Rightarrow> (int \<times> byte \<times> byte list) res" where
  "pair_write s i bs =
     (if i = 0 then Inr (0, hd bs, snd s) else if bs = [0xff, 0xff] then Inr (5, s) else Inr (0, fst s, bs))"

definition pair_width :: "int \<Rightarrow> size_t" where
  "pair_width i = (if i = 0 then 1 else 2)"

definition pair_ops :: "(byte \<times> byte list) target_ops" where
  "pair_ops = \<lparr>cont = None, stepi = None, get_reg_bytes = pair_width, read_reg = Some pair_read,
     write_reg = Some pair_write, read_mem = None, write_mem = None, set_bp = None, del_bp = None,
     on_interrupt = None, set_cpu = None, get_cpu = None\<rparr>"

definition pair_stub :: "int \<Rightarrow> sock_ev list \<Rightarrow> (byte \<times> byte list) gdbstub_t" where
  "pair_stub n evs = stub0 pair_ops \<lparr>target_desc = None, smp = 1, reg_num = n\<rparr> 3 evs"

lemma pair_facts:
  "length xs = 2 \<longleftrightarrow> (\<exists>a b. xs = [a, b])" "(i :: nat) < 2 \<longleftrightarrow> i = 0 \<or> i = 1"
  "unat (pair_width 0) = 1" "unat (pair_width 1) = 2"
proof -
  show "length xs = 2 \<longleftrightarrow> (\<exists>a b. xs = [a, b])" by (auto simp: numeral_2_eq_2 length_Suc_conv)
  show "i < 2 \<longleftrightarrow> i = 0 \<or> i = 1" by linarith
qed (simp_all add: pair_width_def)

lemma pair_target: "target_regs pair_read pair_write pair_width 2
    (\<lambda>s. length (snd s) = 2 \<and> snd s \<noteq> [0xff, 0xff]) (\<lambda>i bs. i = 0 \<or> bs \<noteq> [0xff, 0xff])"
proof
  fix s :: "byte \<times> byte list" and i :: nat and bs :: "byte list"
  assume s: "length (snd s) = 2 \<and> snd s \<noteq> [0xff, 0xff]" and i: "i < 2"
  then consider "i = 0" | "i = 1" by linarith
  then show "\<exists>bs. pair_read s (int i) = Inr (0, bs) \<and> length bs = unat (pair_width (int i)) \<and>
      (int i = 0 \<or> bs \<noteq> [0xff, 0xff])"
    using s by cases (simp_all add: pair_read_def pair_facts(3,4) [simplified])
next
  fix s :: "byte \<times> byte list" and i :: nat and bs :: "byte list"
  assume s: "length (snd s) = 2 \<and> snd s \<noteq> [0xff, 0xff]" and i: "i < 2"
    and l: "length bs = unat (pair_width (int i))" and ok: "int i = 0 \<or> bs \<noteq> [0xff, 0xff]"
  from i consider "i = 0" | "i = 1" by linarith
  then show "\<exists>s'. pair_write s (int i) bs = Inr (0, s') \<and> (length (snd s') = 2 \<and> snd s' \<noteq> [0xff, 0xff]) \<and>
      (\<forall>j < 2. pair_read s' (int j) = (if j = i then Inr (0, bs) else pair_read s (int j)))"
  proof cases
    case 1
    with l pair_facts(3) obtain b where "bs = [b]" by (auto simp: length_Suc_conv)
    with 1 s show ?thesis by (simp add: pair_write_def pair_read_def pair_facts(2))
  next
    case 2
    with l pair_facts(4) have "length bs = 2" by simp
    with 2 ok s show ?thesis by (simp add: pair_write_def pair_read_def pair_facts(2))
  qed
next
  fix s :: "byte \<times> byte list" and i :: nat and bs :: "byte list"
  assume "\<not> (int i = 0 \<or> bs \<noteq> [0xff, 0xff])"
  then show "\<exists>r. r \<noteq> 0 \<and> - (2 ^ 31) \<le> r \<and> r < 2 ^ 31 \<and> pair_write s (int i) bs = Inr (r, s)"
    by (intro exI [of _ 5]) (simp add: pair_write_def)
qed



text \<open>With registers of one size, the reply to \<open>g\<close> is the hexadecimal image of all registers
  in order.\<close>

lemma reg_read_image:
  assumes "target_regs rd wr width n ok_state accepts_val"
    and "ok_state s" "stub_ok g" "read_reg (ops g) = Some rd" "get_reg_bytes (ops g) = width"
    "reg_num (arch g) = int n" "\<forall>j < n. width (int j) = wd" "2 * (n * unat wd) \<le> 4090" "0 < n"
  shows "\<exists>g'. process_reg_read g s = send g' (hexstr (reg_image rd s n)) \<and> scratch g g'"
  using target_regs.reg_read_ok [OF assms] by blast

text \<open>The register offset in the reply is computed from the size of the current register, so
  registers of different sizes do not line up: with a one-byte and a two-byte register the reply
  ends after the first one.  The \<open>G\<close> request uses the running offset and expects both.\<close>

lemma reg_read_mixed_sizes:
  "map_sum id (\<lambda>g. wire (conn (priv g))) (process_reg_read (pair_stub 2 [Wrote 100]) (1, [2, 3])) =
     Inr (frame (hexstr [1])) \<and> reg_image pair_read (1, [2, 3]) 2 = [1, 2, 3]"
  by code_simp

text \<open>Without registers the handler sends a buffer that nothing was written to.\<close>

lemma reg_read_no_registers:
  "reg_num (arch g) \<le> 0 \<Longrightarrow> process_reg_read g s = Inl Uninit"
  by (simp add: process_reg_read_def send_buf_def buf_cstr.simps buf_get_def cell_def MAX_SEND_PACKET_SIZE_def)

end
