(* ===== verification/StubMem.thy ===== *)
theory StubMem
  imports StubRegs
begin

text \<open>
  The memory requests \<open>m\<close>, \<open>M\<close> and \<open>X\<close> of \<^verbatim>\<open>src/src/gdbstub.c\<close> on a target that keeps the
  contract \<open>target_mem\<close>, and what the handlers do outside it.
\<close>

subsection \<open>Requests\<close>

definition addr_len :: "nat \<Rightarrow> nat \<Rightarrow> byte list" where
  "addr_len a n = digits_of 16 a @ ch CHR '','' # digits_of 16 n"

lemma addr_len_chars: "c \<in> set (addr_len a n) \<Longrightarrow> is_xdigit c \<or> c = ch CHR '',''"
  using digits_of_16_xdigit by (auto simp: addr_len_def)

lemma addr_len_clean: "0 \<notin> set (addr_len a n)" "ch CHR '':'' \<notin> set (addr_len a n)"
  using addr_len_chars [of 0 a n] addr_len_chars [of "ch CHR '':''" a n]
  by (auto simp: c_defs is_xdigit_def is_digit_def)

lemma sscanf_addr_len: "a < 2 ^ 64 \<Longrightarrow> n < 2 ^ 64 \<Longrightarrow> sscanf_hexs 2 (addr_len a n) = [of_nat a, of_nat n]"
  unfolding addr_len_def by (rule sscanf_hexs_2)

text \<open>The content starts behind the colon, whatever bytes follow up to the terminator.\<close>

lemma find_content_addr_len:
  "find_content (addr_len a n @ ch CHR '':'' # rest @ 0 # tail) = Inr (addr_len a n, Some (length (addr_len a n) + 1))"
proof -
  let ?h = "addr_len a n" and ?raw = "addr_len a n @ ch CHR '':'' # rest @ 0 # tail"
  have "takeWhile (\<lambda>x. x \<noteq> 0) ?raw = ?h @ takeWhile (\<lambda>x. x \<noteq> 0) (ch CHR '':'' # rest @ 0 # tail)"
    using addr_len_clean(1) by (intro takeWhile_run) auto
  also have "\<dots> = ?h @ ch CHR '':'' # takeWhile (\<lambda>x. x \<noteq> 0) (rest @ 0 # tail)" by (simp add: c_defs)
  finally show ?thesis
    using addr_len_clean(2) by (simp add: find_content_def Let_def)
qed

text \<open>What the writers do once the request is parsed, whatever the target answers.\<close>

lemma mem_write_run:
  assumes "stub_ok g" "write_mem (ops g) = Some wrm" "a < 2 ^ 64" "length bs < 2 ^ 31"
    and "wrm s (of_nat a) (of_nat (length bs)) bs = Inr (ret, s')" "- (2 ^ 31) \<le> ret" "ret < 2 ^ 31"
  shows "process_mem_write g (addr_len a (length bs) @ ch CHR '':'' # hexstr bs @ 0 # tail) s =
    bindE (send (used_malloc g) (if ret = 0 then str ''OK'' else err_reply ret)) (\<lambda>g'. Inr (g', s'))"
proof -
  let ?n = "length bs" and ?h = "addr_len a (length bs)"
  let ?raw = "?h @ ch CHR '':'' # hexstr bs @ 0 # tail"
  have n: "unat (of_nat ?n :: size_t) = ?n" using assms(4) by (intro unat_of_nat_small) simp
  have i: "int_of_size (of_nat ?n) = int ?n" using int_of_size_small [of "of_nat ?n"] n assms(4) by simp
  have m: "malloc (next_malloc g) (of_nat ?n) = Some (buf_new ?n)"
    using stub_ok_next_malloc [OF assms(1)] n by (simp add: malloc_def)
  obtain b where b: "buf_puts (buf_new ?n) 0 bs = Inr b" using buf_puts_ok [of 0 bs "buf_new ?n"] by auto
  have "unhex (take (2 * ?n) (drop (length ?h + 1) ?raw)) = bs"
    by (simp add: hexc.length_enc [symmetric] hexc.dec_enc)
  then have h: "str_to_hex ?raw (length ?h + 1) (buf_new ?n) 0 (int_of_size (of_nat ?n)) = Inr b"
    using str_to_hex_puts [of "length ?h + 1" ?n ?raw "buf_new ?n" 0] b i by (simp add: hexc.length_enc)
  have sc: "sscanf_hexs 2 ?h = [of_nat a, of_nat ?n]" using sscanf_addr_len [OF assms(3), of ?n] assms(4) by simp
  have "send_errno (used_malloc g) MAX_SEND_PACKET_SIZE ret = send (used_malloc g) (err_reply ret)"
    by (rule send_errno_reply [OF assms(6,7)]) (simp add: MAX_SEND_PACKET_SIZE_def)
  then show ?thesis
    unfolding process_mem_write_def find_content_addr_len
    using sc m h n assms(2,5) buf_gets_puts [OF b] by (simp add: call_def Let_def)
qed

text \<open>The binary variant, on content that the peer escaped; \<open>#\<close> is already overwritten.\<close>

lemma mem_xwrite_run:
  assumes "write_mem (ops g) = Some wrm" "a < 2 ^ 64" "length bs < 2 ^ 31"
    and "wrm s (of_nat a) (of_nat (length bs)) bs = Inr (ret, s')"
  shows "process_mem_xwrite g (addr_len a (length bs) @ ch CHR '':'' # esc bs @ 0 # tail)
      (length (addr_len a (length bs)) + 1 + length (esc bs)) s =
    bindE (send g (str ''OK'')) (\<lambda>g'. Inr (g', s'))"
proof -
  let ?n = "length bs" and ?h = "addr_len a (length bs)"
  let ?raw = "?h @ ch CHR '':'' # esc bs @ 0 # tail"
  let ?rest = "drop (length (unesc (esc bs))) (esc bs)"
  have n: "unat (of_nat ?n :: size_t) = ?n" using assms(3) by (intro unat_of_nat_small) simp
  have i: "int_of_size (of_nat ?n) = int ?n" using int_of_size_small [of "of_nat ?n"] n assms(3) by simp
  have sc: "sscanf_hexs 2 ?h = [of_nat a, of_nat ?n]" using sscanf_addr_len [OF assms(2), of ?n] assms(3) by simp
  have raw: "?raw[length ?h := 0] = (?h @ [0]) @ esc bs @ 0 # tail" by simp
  have u: "unescape (?raw[length ?h := 0]) (length ?h + 1) (length ?h + 1 + length (esc bs)) =
      Inr ((?h @ [0]) @ bs @ ?rest @ 0 # tail, ?n)"
    unfolding raw using unescape_in_place [OF well_escaped_esc, of "?h @ [0]" bs "0 # tail"]
    by (simp add: escc.dec_enc)
  show ?thesis
    unfolding process_mem_xwrite_def find_content_addr_len
    using sc n i u assms(1,4) by (simp add: call_def Let_def)
qed

context target_mem
begin

lemma mem_read_ok:
  assumes "stub_ok g" "wf s" "read_mem (ops g) = Some rdm" "a + n \<le> limit" "a < 2 ^ 64" "n \<le> 2045"
  shows "\<exists>g' bs. rdm s (of_nat a) (of_nat n) = Inr (0, bs) \<and> length bs = n \<and>
    process_mem_read g (addr_len a n) s = send g' (hexstr bs) \<and> scratch g g' \<and> stub_ok g'"
proof -
  obtain bs where bs: "rdm s (of_nat a) (of_nat n) = Inr (0, bs)" "length bs = n"
    using rdm_ok [OF assms(2,4)] by blast
  have n: "unat (of_nat n :: size_t) = n" using assms(6) by (intro unat_of_nat_small) simp
  obtain b where b: "buf_puts (buf_new n) 0 bs = Inr b" using buf_puts_ok [of 0 bs "buf_new n"] bs(2) by auto
  have "int_of_size (of_nat n) = int (length bs)" using int_of_size_small [of "of_nat n"] n bs(2) assms(6) by simp
  then have h: "hex_to_str b 0 (buf_new 4096) 0 (int_of_size (of_nat n)) = buf_puts (buf_new 4096) 0 (hexstr bs @ [0])"
    using hex_to_str_puts [of bs b 0 "buf_new 4096" 0] buf_get_puts [OF b] by simp
  have m: "malloc (next_malloc g) (of_nat n) = Some (buf_new n)"
    using stub_ok_next_malloc [OF assms(1)] n by (simp add: malloc_def)
  have "length (hexstr bs) < 4096" using bs(2) assms(6) by (simp add: hexc.length_enc)
  from send_buf_new [OF this nul_free_hexstr, of "used_malloc g"]
  have "process_mem_read g (addr_len a n) s = send (used_malloc g) (hexstr bs)"
    using sscanf_addr_len [OF assms(5), of n] assms(3,6) m bs(1) b h
    by (simp add: process_mem_read_def call_def Let_def MAX_SEND_PACKET_SIZE_def)
  with bs show ?thesis
    using stub_ok_used_malloc [OF assms(1)] scratch_used_malloc by blast
qed

lemma mem_write_ok:
  assumes "stub_ok g" "wf s" "write_mem (ops g) = Some wrm" "a + length bs \<le> limit" "a < 2 ^ 64" "length bs < 2 ^ 31"
  shows "\<exists>g1 s'. process_mem_write g (addr_len a (length bs) @ ch CHR '':'' # hexstr bs @ 0 # tail) s =
      bindE (send g1 (str ''OK'')) (\<lambda>g'. Inr (g', s')) \<and> scratch g g1 \<and> stub_ok g1 \<and> wf s' \<and>
    wrm s (of_nat a) (of_nat (length bs)) bs = Inr (0, s')"
  using wrm_ok [OF assms(2,4)] mem_write_run [OF assms(1,3,5,6), of s 0 _ tail]
    stub_ok_used_malloc [OF assms(1)] scratch_used_malloc by fastforce

lemma mem_xwrite_ok:
  assumes "wf s" "write_mem (ops g) = Some wrm" "a + length bs \<le> limit" "a < 2 ^ 64" "length bs < 2 ^ 31"
  shows "\<exists>s'. process_mem_xwrite g (addr_len a (length bs) @ ch CHR '':'' # esc bs @ 0 # tail)
      (length (addr_len a (length bs)) + 1 + length (esc bs)) s =
      bindE (send g (str ''OK'')) (\<lambda>g'. Inr (g', s')) \<and> wf s' \<and>
    wrm s (of_nat a) (of_nat (length bs)) bs = Inr (0, s')"
  using wrm_ok [OF assms(1,3)] mem_xwrite_run [OF assms(2,4,5), of s 0 _ tail] by fastforce

end

subsection \<open>Outside the contract\<close>

text \<open>A target for the boundary cases: a memory of zeros that accepts every access.\<close>

definition zeros_ops :: "unit target_ops" where
  "zeros_ops = \<lparr>cont = None, stepi = None, get_reg_bytes = (\<lambda>_. 8), read_reg = None, write_reg = None,
     read_mem = Some (\<lambda>s a n. Inr (0, replicate (unat n) 0)), write_mem = Some (\<lambda>s a n bs. Inr (14, s)),
     set_bp = None, del_bp = None, on_interrupt = None, set_cpu = None, get_cpu = None\<rparr>"

definition zeros_stub :: "sock_ev list \<Rightarrow> unit gdbstub_t" where
  "zeros_stub evs = stub0 zeros_ops \<lparr>target_desc = None, smp = 1, reg_num = 1\<rparr> 8 evs"

text \<open>The hexadecimal reply to \<open>m\<close> is written into a buffer of \<open>MAX_SEND_PACKET_SIZE\<close> bytes
  without a check of the requested length: from 2048 bytes on it overflows the buffer.\<close>

lemma mem_read_overflow:
  assumes "stub_ok g" "read_mem (ops g) = Some rdm" "rdm s (of_nat a) (of_nat n) = Inr (0, bs)" "length bs = n"
    "a < 2 ^ 64" "2048 \<le> n" "n < 2 ^ 31"
  shows "process_mem_read g (addr_len a n) s = Inl OutOfBounds"
proof -
  have n: "unat (of_nat n :: size_t) = n" using assms(7) by (intro unat_of_nat_small) simp
  obtain b where b: "buf_puts (buf_new n) 0 bs = Inr b" using buf_puts_ok [of 0 bs "buf_new n"] assms(4) by auto
  have "int_of_size (of_nat n) = int (length bs)" using int_of_size_small [of "of_nat n"] n assms(4,7) by simp
  then have "hex_to_str b 0 (buf_new 4096) 0 (int_of_size (of_nat n)) = buf_puts (buf_new 4096) 0 (hexstr bs @ [0])"
    using hex_to_str_puts [of bs b 0 "buf_new 4096" 0] buf_get_puts [OF b] by simp
  also have "\<dots> = Inl OutOfBounds"
    by (rule buf_puts_oob) (use assms(4,6) in \<open>simp_all add: hexc.length_enc\<close>)
  finally have h: "hex_to_str b 0 (buf_new 4096) 0 (int_of_size (of_nat n)) = Inl OutOfBounds" .
  have m: "malloc (next_malloc g) (of_nat n) = Some (buf_new n)"
    using stub_ok_next_malloc [OF assms(1)] n by (simp add: malloc_def)
  show ?thesis
    using sscanf_addr_len [OF assms(5), of n] assms(2,3,7) m b h
    by (simp add: process_mem_read_def call_def Let_def MAX_SEND_PACKET_SIZE_def)
qed

text \<open>A refused \<open>X\<close> is acknowledged: \<open>process_mem_xwrite\<close> drops the result of \<open>write_mem\<close> and
  answers \<open>OK\<close>, where \<open>M\<close> answers with the error number.\<close>

lemma xwrite_ignores_error:
  assumes "stub_ok g" "write_mem (ops g) = Some wrm" "a < 2 ^ 64" "length bs < 2 ^ 31"
    and "wrm s (of_nat a) (of_nat (length bs)) bs = Inr (ret, s')" "ret \<noteq> 0" "- (2 ^ 31) \<le> ret" "ret < 2 ^ 31"
  shows "process_mem_xwrite g (addr_len a (length bs) @ ch CHR '':'' # esc bs @ 0 # tail)
      (length (addr_len a (length bs)) + 1 + length (esc bs)) s =
      bindE (send g (str ''OK'')) (\<lambda>g'. Inr (g', s')) \<and>
    process_mem_write g (addr_len a (length bs) @ ch CHR '':'' # hexstr bs @ 0 # tail) s =
      bindE (send (used_malloc g) (err_reply ret)) (\<lambda>g'. Inr (g', s'))"
  using mem_xwrite_run [OF assms(2-5)] mem_write_run [OF assms(1-5,7,8)] assms(6) by simp

text \<open>\<open>M\<close> trusts the length in the request: when the content is shorter, the decoder reads
  past the terminator and, with a short packet, past the packet.\<close>

lemma mem_write_overread:
  assumes "stub_ok g" "a < 2 ^ 64" "n < 2 ^ 31" "2 * n > length content + 1 + length tail"
  shows "process_mem_write g (addr_len a n @ ch CHR '':'' # content @ 0 # tail) s = Inl OutOfBounds"
proof -
  let ?h = "addr_len a n"
  let ?raw = "?h @ ch CHR '':'' # content @ 0 # tail"
  have n: "unat (of_nat n :: size_t) = n" using assms(3) by (intro unat_of_nat_small) simp
  have i: "int_of_size (of_nat n) = int n" using int_of_size_small [of "of_nat n"] n assms(3) by simp
  have "str_to_hex ?raw (length ?h + 1) (buf_new n) 0 (int n) = Inl OutOfBounds"
    by (rule str_to_hex_oob) (use assms(4) in simp_all)
  moreover have "malloc (next_malloc g) (of_nat n) = Some (buf_new n)"
    using stub_ok_next_malloc [OF assms(1)] n by (simp add: malloc_def)
  moreover have "sscanf_hexs 2 ?h = [of_nat a, of_nat n]" using sscanf_addr_len [OF assms(2), of n] assms(3) by simp
  ultimately show ?thesis
    unfolding process_mem_write_def find_content_addr_len using i by (simp add: Let_def)
qed

end
