(* ===== verification/Requests.thy ===== *)
theory Requests
  imports StubMem
begin

text \<open>
  The dispatcher \<open>gdbstub_process_packet\<close> of \<^verbatim>\<open>src/src/gdbstub.c\<close> on well-formed requests: the
  packets that the reassembly buffer hands out for a frame.  The lemmas connect a request letter
  with its handler and the handler's view of the payload; the properties state the table of
  requests, the events, and the answers to what the target does not support.
\<close>

subsection \<open>Packets of requests\<close>

text \<open>The packet that \<open>pktbuf_pop_packet\<close> makes of a frame with this text.\<close>

definition request :: "byte list \<Rightarrow> packet_t" where
  "request p = \<lparr>pkt_end_pos = length p + 3, pkt_data = frame p @ [0]\<rparr>"

text \<open>The bytes from the payload on, once \<open>#\<close> is overwritten.\<close>

definition behind :: "byte list \<Rightarrow> byte list \<Rightarrow> byte list" where
  "behind p whole = p @ 0 # hex_pair (sum_list whole) @ [0]"

lemma cstr_behind: "0 \<notin> set p \<Longrightarrow> cstr_of (behind p w) = Inr p"
  using span_chr(1) [of 0 p "hex_pair (sum_list w) @ [0]"] by (simp add: cstr_of_def behind_def)

lemma request_parts:
  "peek (pkt_data (request (c # p))) 0 = Inr (ch CHR ''$'')"
  "pkt_end_pos (request (c # p)) - CSUM_SIZE = length p + 2"
  "\<not> (pkt_end_pos (request (c # p)) < CSUM_SIZE \<or> length (pkt_data (request (c # p))) \<le> length p + 2)"
  "(pkt_data (request (c # p)))[length p + 2 := 0] = ch CHR ''$'' # c # behind p (c # p)"
  by (simp_all add: request_def frame_def CSUM_SIZE_def peek_def behind_def list_update_append)

lemma process_request:
  "gdbstub_process_packet g (request (c # p)) s = dispatch_request g c (behind p (c # p)) (length p) s"
proof -
  have "peek (ch CHR ''$'' # c # behind p (c # p)) 1 = Inr c" by (simp add: peek_def)
  then show ?thesis
    using request_parts [of c p] by (simp add: gdbstub_process_packet_def Let_def)
qed

lemmas dispatch_simps = process_request dispatch_request_def ch_def

subsection \<open>The request table\<close>

lemma request_run:
  "gdbstub_process_packet g (request (ch CHR ''c'' # p)) s = with_event s (process_cont g)"
  "gdbstub_process_packet g (request (ch CHR ''s'' # p)) s = with_event s (process_stepi g)"
  "gdbstub_process_packet g (request (ch CHR ''D'' # p)) s =
     bindE (send g (str ''OK'')) (\<lambda>g'. Inr (EVENT_DETACH, g', s))"
  by (simp_all add: dispatch_simps)

lemma request_regs:
  assumes "0 \<notin> set p"
  shows
  "gdbstub_process_packet g (request (ch CHR ''g'' # p)) s =
     no_event s (if read_reg (ops g) \<noteq> None then process_reg_read g s else SEND_EPERM g)"
  "gdbstub_process_packet g (request (ch CHR ''p'' # p)) s =
     no_event s (if read_reg (ops g) \<noteq> None then process_reg_read_one g p s else SEND_EPERM g)"
  "gdbstub_process_packet g (request (ch CHR ''G'' # p)) s =
     (if write_reg (ops g) \<noteq> None then no_event_st (process_reg_write g p s) else no_event s (SEND_EPERM g))"
  "gdbstub_process_packet g (request (ch CHR ''P'' # p)) s =
     (if write_reg (ops g) \<noteq> None then no_event_st (process_reg_write_one g p s) else no_event s (SEND_EPERM g))"
  using cstr_behind [OF assms] by (simp_all add: dispatch_simps)

lemma request_mem:
  "0 \<notin> set p \<Longrightarrow> gdbstub_process_packet g (request (ch CHR ''m'' # p)) s =
     no_event s (if read_mem (ops g) \<noteq> None then process_mem_read g p s else SEND_EPERM g)"
  "gdbstub_process_packet g (request (ch CHR ''M'' # p)) s =
     (if write_mem (ops g) \<noteq> None then no_event_st (process_mem_write g (behind p (ch CHR ''M'' # p)) s)
      else no_event s (SEND_EPERM g))"
  "gdbstub_process_packet g (request (ch CHR ''X'' # p)) s =
     (if write_mem (ops g) \<noteq> None
      then no_event_st (process_mem_xwrite g (behind p (ch CHR ''X'' # p)) (length p) s)
      else no_event s (SEND_EPERM g))"
  using cstr_behind [of p] by (simp_all add: dispatch_simps)

lemma request_misc:
  assumes "0 \<notin> set p"
  shows
  "gdbstub_process_packet g (request (ch CHR ''q'' # p)) s = no_event s (process_query g p s)"
  "gdbstub_process_packet g (request (ch CHR ''Q'' # p)) s = no_event s (process_general_set g p)"
  "gdbstub_process_packet g (request (ch CHR ''v'' # p)) s = with_event s (process_vpacket g p)"
  "gdbstub_process_packet g (request (ch CHR ''z'' # p)) s =
     (if del_bp (ops g) \<noteq> None then no_event_st (process_del_break_points g p s) else no_event s (SEND_EPERM g))"
  "gdbstub_process_packet g (request (ch CHR ''Z'' # p)) s =
     (if set_bp (ops g) \<noteq> None then no_event_st (process_set_break_points g p s) else no_event s (SEND_EPERM g))"
  "gdbstub_process_packet g (request (ch CHR ''H'' # p)) s =
     (if set_cpu (ops g) \<noteq> None then no_event_st (process_set_cpu g p s) else no_event s (SEND_EPERM g))"
  using cstr_behind [OF assms] by (simp_all add: dispatch_simps)

subsection \<open>What a handler may change\<close>

text \<open>Besides its scratch memory a handler only sends: the wire is extended, the acknowledgement
  mode may be left, and nothing else of the stub changes.\<close>

definition kept :: "'s gdbstub_t \<Rightarrow> 's gdbstub_t \<Rightarrow> bool" where
  "kept g g' \<longleftrightarrow> ops g' = ops g \<and> arch g' = arch g \<and>
     pktqueue (priv g') = pktqueue (priv g) \<and> thread_stop (priv g') = thread_stop (priv g) \<and>
     reader_running (priv g') = reader_running (priv g) \<and> async_io (priv g') = async_io (priv g) \<and>
     total_reg_bytes (priv g') = total_reg_bytes (priv g) \<and>
     listen_fd (conn (priv g')) = listen_fd (conn (priv g)) \<and>
     socket_fd (conn (priv g')) = socket_fd (conn (priv g)) \<and>
     send_mutex (conn (priv g')) = send_mutex (conn (priv g)) \<and>
     failure_count (conn (priv g')) = failure_count (conn (priv g)) \<and>
     (no_ack_mode (conn (priv g)) \<longrightarrow> no_ack_mode (conn (priv g'))) \<and>
     (\<exists>t. wire (conn (priv g')) = wire (conn (priv g)) @ t)"

named_theorems kept_intro

lemma kept_refl [simp]: "kept g g"
  by (simp add: kept_def)

lemma kept_trans: "kept g g1 \<Longrightarrow> kept g1 g2 \<Longrightarrow> kept g g2"
  by (auto simp: kept_def)

lemma scratch_kept: "scratch g g' \<Longrightarrow> kept g g'"
  by (simp add: kept_def scratch_def)

lemma conn_send_str_kept:
  assumes "conn_send_str c t = Inr c'"
  shows "\<exists>n. c' = c\<lparr>sock_script := sock_script c', wire := wire c @ take n t\<rparr>"
proof -
  from assms obtain ok where "conn_send_raw c t CONN_SEND_TIMEOUT_MS = Inr (ok, c')"
    by (auto simp: conn_send_str_def bindE_Inr_iff split: if_splits)
  then obtain evs w where l: "conn_send_loop t CONN_SEND_TIMEOUT_MS 0 (sock_script c) (wire c) = Inr (ok, evs, w)"
    and c': "c' = c\<lparr>sock_script := evs, wire := w\<rparr>"
    by (auto simp: conn_send_raw_def bindE_Inr_iff)
  from conn_send_loop_prefix [OF l] c' show ?thesis by auto
qed

lemma conn_send_pktstr_kept:
  assumes "conn_send_pktstr c t = Inr c'"
  shows "\<exists>u. c' = c\<lparr>sock_script := sock_script c', wire := wire c @ u\<rparr>"
proof -
  from assms obtain packet where "conn_send_str c packet = Inr c'"
    unfolding conn_send_pktstr_def bindE_Inr_iff Let_def by blast
  then show ?thesis using conn_send_str_kept by blast
qed

lemma send_kept [kept_intro]: "send g t = Inr g' \<Longrightarrow> kept g g'"
proof -
  assume "send g t = Inr g'"
  then obtain c where c: "conn_send_pktstr (conn (priv g)) t = Inr c" and g': "g' = g\<lparr>priv := (priv g)\<lparr>conn := c\<rparr>\<rparr>"
    by (auto simp: send_def bindE_Inr_iff)
  obtain u where u: "c = (conn (priv g))\<lparr>sock_script := sock_script c, wire := wire (conn (priv g)) @ u\<rparr>"
    using conn_send_pktstr_kept [OF c] by blast
  show ?thesis unfolding g' by (subst u) (simp add: kept_def)
qed

lemma send_err_kept [kept_intro]: "SEND_EPERM g = Inr g' \<Longrightarrow> kept g g'" "SEND_EINVAL g = Inr g' \<Longrightarrow> kept g g'"
  by (simp_all add: SEND_EPERM_def SEND_EINVAL_def SEND_ERR_def send_kept)

lemma send_buf_kept [kept_intro]: "send_buf g b = Inr g' \<Longrightarrow> kept g g'"
  by (auto simp: send_buf_def bindE_Inr_iff intro: send_kept)

lemma send_errno_kept [kept_intro]: "send_errno g n r = Inr g' \<Longrightarrow> kept g g'"
  by (auto simp: send_errno_def bindE_Inr_iff intro: send_buf_kept)

lemma kept_scratch [simp]: "kept (used_malloc g) g' \<longleftrightarrow> kept g g'" "kept (stub_regbuf_set g b) g' \<longleftrightarrow> kept g g'"
  by (simp_all add: kept_def used_malloc_def stub_regbuf_set_def)

lemma set_regbuf_kept: "kept g g1 \<Longrightarrow> kept g (g1\<lparr>priv := (priv g1)\<lparr>regbuf := r\<rparr>\<rparr>)"
  by (simp add: kept_def)

lemma stub_regbuf_get_kept: "stub_regbuf_get g n = Inr (b, g') \<Longrightarrow> kept g g'"
proof -
  assume "stub_regbuf_get g n = Inr (b, g')"
  then obtain r where "g' = (let g1 = (if n \<le> rb_sz (regbuf (priv g)) then g else used_malloc g)
      in g1\<lparr>priv := (priv g1)\<lparr>regbuf := r\<rparr>\<rparr>)"
    by (auto simp: stub_regbuf_get_def Let_def elim!: bindE_InrE split: option.split_asm prod.split_asm)
  then show ?thesis
    using scratch_kept [OF scratch_used_malloc [of g]] by (simp add: Let_def set_regbuf_kept)
qed

lemma stub_regbuf_set_kept: "kept g g1 \<Longrightarrow> kept g (stub_regbuf_set g1 b)"
  by (simp add: kept_def stub_regbuf_set_def)

lemma fetch_reg_kept: "fetch_reg g s i = Inr (r, b, g') \<Longrightarrow> kept g g'"
  by (auto elim!: bindE_InrE simp: fetch_reg_def call_def split: option.split_asm
      intro!: stub_regbuf_set_kept dest!: stub_regbuf_get_kept)

lemma reg_read_loop_kept: "reg_read_loop g s p i k = Inr (p', g') \<Longrightarrow> kept g g'"
proof (induction k arbitrary: g p i)
  case (Suc k)
  then show ?case
    by (auto simp: Let_def elim!: bindE_InrE split: if_split_asm dest!: fetch_reg_kept Suc.IH intro: kept_trans)
qed simp

lemma process_run_kept [kept_intro]:
  "process_cont g = Inr (ev, g') \<Longrightarrow> kept g g'" "process_stepi g = Inr (ev, g') \<Longrightarrow> kept g g'"
  by (auto elim!: bindE_InrE simp: process_cont_def process_stepi_def bindE_Inr_iff split: if_split_asm intro: kept_intro)

lemma process_reg_read_kept [kept_intro]:
  "process_reg_read g s = Inr g' \<Longrightarrow> kept g g'" "process_reg_read_one g p s = Inr g' \<Longrightarrow> kept g g'"
  by (auto elim!: bindE_InrE simp: process_reg_read_def process_reg_read_one_def Let_def split: option.split_asm
      dest!: reg_read_loop_kept fetch_reg_kept send_buf_kept intro: kept_trans)

lemma process_reg_write_kept [kept_intro]: "process_reg_write g p s = Inr (g', s') \<Longrightarrow> kept g g'"
  by (auto elim!: bindE_InrE simp: process_reg_write_def Let_def split: option.split_asm if_split_asm sum.split_asm
      dest!: send_kept send_errno_kept send_buf_kept)

lemma process_reg_write_one_kept [kept_intro]: "process_reg_write_one g p s = Inr (g', s') \<Longrightarrow> kept g g'"
  by (auto elim!: bindE_InrE simp: process_reg_write_one_def call_def Let_def
      split: option.split_asm if_split_asm prod.split_asm dest!: stub_regbuf_get_kept send_kept send_errno_kept)
    (blast intro: kept_trans)+

lemma process_mem_kept [kept_intro]:
  "process_mem_read g p s = Inr g' \<Longrightarrow> kept g g'"
  "process_mem_write g raw s = Inr (g', s') \<Longrightarrow> kept g g'"
  "process_mem_xwrite g raw n s = Inr (g', s') \<Longrightarrow> kept g g'"
  by (auto elim!: bindE_InrE simp: process_mem_read_def process_mem_write_def process_mem_xwrite_def call_def Let_def
      split: option.split_asm if_split_asm list.split_asm dest!: send_kept send_errno_kept send_buf_kept)

lemma process_query_kept [kept_intro]: "process_query g p s = Inr g' \<Longrightarrow> kept g g'"
  by (auto elim!: bindE_InrE simp: process_query_def process_xfer_def Let_def
      split: option.split_asm if_split_asm prod.split_asm intro: kept_intro)

lemma process_general_set_kept [kept_intro]: "process_general_set g p = Inr g' \<Longrightarrow> kept g g'"
proof -
  assume "process_general_set g p = Inr g'"
  moreover have "kept g (g\<lparr>priv := (priv g)\<lparr>conn := (conn (priv g))\<lparr>no_ack_mode := True\<rparr>\<rparr>\<rparr>)"
    by (simp add: kept_def)
  ultimately show ?thesis
    by (auto elim!: bindE_InrE simp: process_general_set_def Let_def split: if_split_asm prod.split_asm intro: kept_trans send_kept)
qed

lemma process_vpacket_kept [kept_intro]: "process_vpacket g p = Inr (ev, g') \<Longrightarrow> kept g g'"
  by (auto elim!: bindE_InrE simp: process_vpacket_def process_vcont_def process_vcont_support_def Let_def
      split: option.split_asm if_split_asm prod.split_asm intro: kept_intro)

lemma process_bp_kept [kept_intro]:
  "process_del_break_points g p s = Inr (g', s') \<Longrightarrow> kept g g'"
  "process_set_break_points g p s = Inr (g', s') \<Longrightarrow> kept g g'"
  "process_set_cpu g p s = Inr (g', s') \<Longrightarrow> kept g g'"
  by (auto elim!: bindE_InrE simp: process_del_break_points_def process_set_break_points_def process_set_cpu_def
      call_def split: option.split_asm if_split_asm list.split_asm intro: kept_intro)

lemma dispatch_kept: "dispatch_request g c raw n s = Inr (ev, g', s') \<Longrightarrow> kept g g'"
  unfolding dispatch_request_def no_event_def no_event_st_def with_event_def
  by (auto elim!: bindE_InrE split: if_split_asm intro: kept_intro)

subsection \<open>Events\<close>

lemma process_vpacket_event:
  "process_vpacket g p = Inr (ev, g') \<Longrightarrow> ev \<noteq> EVENT_DETACH \<and>
    (ev = EVENT_CONT \<longrightarrow> cont (ops g) \<noteq> None) \<and> (ev = EVENT_STEP \<longrightarrow> stepi (ops g) \<noteq> None)"
  by (auto elim!: bindE_InrE simp: process_vpacket_def process_vcont_def Let_def
      split: option.split_asm if_split_asm prod.split_asm)

lemma dispatch_event:
  "dispatch_request g c raw n s = Inr (ev, g', s') \<Longrightarrow>
    (ev = EVENT_CONT \<longrightarrow> cont (ops g) \<noteq> None \<and> s' = s) \<and> (ev = EVENT_STEP \<longrightarrow> stepi (ops g) \<noteq> None \<and> s' = s) \<and>
    (ev = EVENT_DETACH \<longrightarrow> c = ch CHR ''D'' \<and> s' = s)"
  unfolding dispatch_request_def no_event_def no_event_st_def with_event_def process_cont_def process_stepi_def
  by (auto elim!: bindE_InrE split: if_split_asm dest: process_vpacket_event)

lemma process_packet_dispatch:
  "gdbstub_process_packet g pkt s = Inr r \<Longrightarrow> \<exists>c raw n. dispatch_request g c raw n s = Inr r"
  by (auto elim!: bindE_InrE simp: gdbstub_process_packet_def Let_def split: if_split_asm)

subsection \<open>Properties\<close>

text \<open>The callback that a request letter depends on.\<close>

definition supported :: "'s target_ops \<Rightarrow> byte \<Rightarrow> bool" where
  "supported o1 c =
     (if c = ch CHR ''g'' \<or> c = ch CHR ''p'' then read_reg o1 \<noteq> None
      else if c = ch CHR ''G'' \<or> c = ch CHR ''P'' then write_reg o1 \<noteq> None
      else if c = ch CHR ''m'' then read_mem o1 \<noteq> None
      else if c = ch CHR ''M'' \<or> c = ch CHR ''X'' then write_mem o1 \<noteq> None
      else if c = ch CHR ''z'' then del_bp o1 \<noteq> None
      else if c = ch CHR ''Z'' then set_bp o1 \<noteq> None
      else if c = ch CHR ''H'' then set_cpu o1 \<noteq> None
      else if c = ch CHR ''c'' then cont o1 \<noteq> None
      else if c = ch CHR ''s'' then stepi o1 \<noteq> None
      else True)"



text \<open>A request letter outside the table is answered with the empty packet, as the protocol
  asks, and changes nothing.\<close>

lemma unknown_request:
  assumes "c \<notin> set (str ''cgmpqQsvz?DGHMPTXZ'')"
  shows "gdbstub_process_packet g (request (c # p)) s = bindE (send g []) (\<lambda>g'. Inr (EVENT_NONE, g', s))"
  using assms by (simp add: process_request dispatch_request_def no_event_def c_defs)

text \<open>C22.  Whatever packet arrives, a handled request yields an event only if the emulator can serve
  it, so that \<open>gdbstub_handle_event\<close>, which calls \<open>cont\<close> and \<open>stepi\<close> unchecked, never calls a null
  pointer; a request with an event leaves the emulator to it; and every request keeps the stub's
  configuration, its queue and its thread state, and only adds to what was sent.\<close>

theorem process_packet_safe:
  assumes "gdbstub_process_packet g pkt s = Inr (ev, g', s')"
  shows "(ev = EVENT_CONT \<longrightarrow> cont (ops g') \<noteq> None) \<and> (ev = EVENT_STEP \<longrightarrow> stepi (ops g') \<noteq> None) \<and>
    (ev \<noteq> EVENT_NONE \<longrightarrow> s' = s) \<and> kept g g'"
proof -
  obtain c raw n where d: "dispatch_request g c raw n s = Inr (ev, g', s')"
    using process_packet_dispatch [OF assms] by blast
  from dispatch_kept [OF d] dispatch_event [OF d] show ?thesis
    by (cases ev) (auto simp: kept_def)
qed

theorem process_packet_safe_witness:
  "\<exists>g'. gdbstub_process_packet (zeros_stub [Wrote 100]) (request (str ''?'')) () = Inr (EVENT_NONE, g', ()) \<and>
    kept (zeros_stub [Wrote 100]) g'"
proof -
  have "\<exists>g'. send (zeros_stub [Wrote 100]) (str ''S05'') = Inr g'"
    using conn_send_str_accepts [of "conn0 [Wrote 100]" "frame (str ''S05'')"]
    by (auto simp: send_def zeros_stub_def stub0_def conn_send_pktstr_frame c_defs conn0_def frame_def)
  then obtain g' where "gdbstub_process_packet (zeros_stub [Wrote 100]) (request (str ''?'')) () = Inr (EVENT_NONE, g', ())"
    by (auto simp: process_request dispatch_request_def no_event_def c_defs)
  with process_packet_safe [OF this] show ?thesis by blast
qed

text \<open>C36.  The \<open>vCont\<close> packet: \<open>c\<close> continues and \<open>s\<close> steps, on a target that can; every other
  action is refused; and what \<open>vCont?\<close> advertises is what the target can do.\<close>

theorem vcont_actions:
  "process_vpacket g (str ''Cont;'' @ a # rest) =
     (if a = ch CHR ''c'' \<and> cont (ops g) \<noteq> None then Inr (EVENT_CONT, g)
      else if a = ch CHR ''s'' \<and> stepi (ops g) \<noteq> None then Inr (EVENT_STEP, g)
      else bindE (send g (str ''E01'')) (\<lambda>g'. Inr (EVENT_NONE, g'))) \<and>
   process_vpacket g (str ''Cont?'') =
     bindE (send g (str ''vCont;'' @ (if stepi (ops g) = None then [] else str ''s;'') @
       (if cont (ops g) = None then [] else str ''c;''))) (\<lambda>g'. Inr (EVENT_NONE, g'))"
proof
  have "split_chr (ch CHR '';'') (str ''Cont'' @ ch CHR '';'' # a # rest) = (str ''Cont'', Some (a # rest))"
    by (rule split_chr_append) (simp add: c_defs)
  then have "split_chr (ch CHR '';'') (str ''Cont;'' @ a # rest) = (str ''Cont'', Some (a # rest))"
    by (simp add: c_defs)
  then show "process_vpacket g (str ''Cont;'' @ a # rest) =
     (if a = ch CHR ''c'' \<and> cont (ops g) \<noteq> None then Inr (EVENT_CONT, g)
      else if a = ch CHR ''s'' \<and> stepi (ops g) \<noteq> None then Inr (EVENT_STEP, g)
      else bindE (send g (str ''E01'')) (\<lambda>g'. Inr (EVENT_NONE, g')))"
    by (simp add: process_vpacket_def process_vcont_def SEND_EPERM_def SEND_ERR_def first_char_def c_defs)
next
  let ?t = "str ''vCont;'' @ (if stepi (ops g) = None then [] else str ''s;'') @
       (if cont (ops g) = None then [] else str ''c;'')"
  have "split_chr (ch CHR '';'') (str ''Cont?'') = (str ''Cont?'', None)"
    by (rule split_chr_none) (simp add: c_defs)
  moreover have "length ?t < MAX_SEND_PACKET_SIZE" "0 \<notin> set ?t"
    by (auto simp: c_defs MAX_SEND_PACKET_SIZE_def)
  from send_buf_new [OF this, of g]
  have "process_vcont_support g = send g ?t" by (simp add: process_vcont_support_def Let_def)
  ultimately show "process_vpacket g (str ''Cont?'') = bindE (send g ?t) (\<lambda>g'. Inr (EVENT_NONE, g'))"
    by (simp add: process_vpacket_def c_defs)
qed

text \<open>\<open>vCont\<close> without an action makes the handler read through a null pointer.\<close>

lemma vcont_without_action:
  "gdbstub_process_packet g (request (str ''vCont'')) s = Inl NullDeref"
proof -
  have "split_chr (ch CHR '';'') (str ''Cont'') = (str ''Cont'', None)"
    by (rule split_chr_none) (simp add: c_defs)
  then have "process_vpacket g (str ''Cont'') = Inl NullDeref"
    by (simp add: process_vpacket_def process_vcont_def)
  then show ?thesis
    using request_misc(3) [of "str ''Cont''" g s] by (simp add: with_event_def c_defs)
qed

text \<open>\<open>G\<close> checks for \<open>write_reg\<close> only, but also calls \<open>read_reg\<close>: on a target that can only
  write registers it calls a null pointer.\<close>

lemma reg_write_needs_read:
  "map_sum id (\<lambda>_. ()) (process_reg_write
     (stub0 (pair_ops\<lparr>read_reg := None\<rparr>) \<lparr>target_desc = None, smp = 1, reg_num = 1\<rparr> 1 []) (str ''00'') (1, [2, 3])) =
   Inl NullDeref"
  by code_simp

end
