(* ===== verification/Reader.thy ===== *)
theory Reader
  imports Requests "HOL-Library.Sublist"
begin

text \<open>
  \<open>socket_reader\<close> of \<^verbatim>\<open>src/src/gdbstub.c\<close>: the thread that owns all reading.  What \<open>poll\<close> and
  \<open>read\<close> do is a script with one \<open>poll_ev\<close> per round of its loop.  A round fills the reassembly
  buffer, looks for the interrupt character in the new bytes, and moves every complete packet to
  the queue, with an acknowledgement for each one accepted.  The emulator's state is touched only
  by \<open>on_interrupt\<close>.
\<close>

subsection \<open>Definitions\<close>

datatype poll_ev =
    PollErr int           \<comment> \<open>\<open>poll\<close> returns \<open>-1\<close> with this \<open>errno\<close>\<close>
  | PollTimeout           \<comment> \<open>no event within \<open>READER_POLL_TIMEOUT_MS\<close>\<close>
  | PollOther             \<comment> \<open>an event without \<open>POLLIN\<close>\<close>
  | PollIn read_ev        \<comment> \<open>readable; \<open>read\<close> then does this\<close>

definition set_conn :: "'s gdbstub_t \<Rightarrow> conn_t \<Rightarrow> 's gdbstub_t" where
  "set_conn g c = g\<lparr>priv := (priv g)\<lparr>conn := c\<rparr>\<rparr>"

definition set_queue :: "'s gdbstub_t \<Rightarrow> pktqueue_t \<Rightarrow> 's gdbstub_t" where
  "set_queue g q = g\<lparr>priv := (priv g)\<lparr>pktqueue := q\<rparr>\<rparr>"

text \<open>The scan for \<open>INTR_CHAR\<close> over the bytes just read.\<close>

fun reader_scan :: "byte list \<Rightarrow> 's gdbstub_t \<Rightarrow> 's \<Rightarrow> 's gdbstub_t \<times> 's" where
  "reader_scan [] g s = (g, s)"
| "reader_scan (b # bs) g s =
     (if b = INTR_CHAR then
        let s' = (if async_io_is_enable (priv g)
                  then (case on_interrupt (ops g) of None \<Rightarrow> s | Some f \<Rightarrow> f s) else s)
        in reader_scan bs (set_queue g (pktqueue_signal_interrupt (pktqueue (priv g)))) s'
      else reader_scan bs g s)"

lemma pktbuf_is_complete_size:
  "pktbuf_is_complete pb = Inr (True, pb1) \<Longrightarrow> pb_size pb1 \<le> pb_size pb \<and> 0 \<le> pb_end_pos pb1"
  by (auto simp: pktbuf_is_complete_def Let_def elim!: bindE_InrE split: option.split_asm if_split_asm)

lemma pktbuf_pop_size:
  "pktbuf_pop_packet ok pb = Inr (p, pb') \<Longrightarrow> 0 \<le> pb_end_pos pb \<Longrightarrow> pb_size pb' < pb_size pb"
  by (auto simp: pktbuf_pop_packet_def Let_def elim!: bindE_InrE split: if_split_asm)

text \<open>\<open>while (pktbuf_is_complete(..)) { .. }\<close>: every round takes bytes out of the buffer.\<close>

function reader_packets :: "pktbuf_t \<Rightarrow> 's gdbstub_t \<Rightarrow> (pktbuf_t \<times> 's gdbstub_t) res" where
  "reader_packets pb g =
     bindE (pktbuf_is_complete pb) (\<lambda>cp.
     if \<not> fst cp then Inr (snd cp, g)
     else
       bindE (pktbuf_pop_packet (next_malloc g) (snd cp)) (\<lambda>pp.
       case fst pp of
         None \<Rightarrow> reader_packets (snd pp) g
       | Some pkt \<Rightarrow>
           let g0 = used_malloc g in
           bindE (pktqueue_push (pktqueue (priv g0)) pkt (next_malloc g0)) (\<lambda>pq.
           let g1 = set_queue (used_malloc g0) (snd pq) in
           if fst pq then
             bindE (conn_try_send_str (conn (priv g1)) STR_ACK) (\<lambda>rc.
             reader_packets (snd pp) (set_conn g1 (snd rc)))
           else reader_packets (snd pp) g1)))"
  by pat_completeness auto
termination
proof (relation "measure (\<lambda>(pb, g). pb_size pb)", goal_cases)
  case (2 pb g cp pp)
  then have "pb_size (snd cp) \<le> pb_size pb" "0 \<le> pb_end_pos (snd cp)" "pb_size (snd pp) < pb_size (snd cp)"
    using pktbuf_is_complete_size [of pb "snd cp"] pktbuf_pop_size [of "next_malloc g" "snd cp" "fst pp" "snd pp"]
    by (cases cp; cases pp; auto)+
  then show ?case by simp
next
  case (3 pb g cp pp pkt g0 pq g1 rc)
  then have "pb_size (snd cp) \<le> pb_size pb" "0 \<le> pb_end_pos (snd cp)" "pb_size (snd pp) < pb_size (snd cp)"
    using pktbuf_is_complete_size [of pb "snd cp"] pktbuf_pop_size [of "next_malloc g" "snd cp" "fst pp" "snd pp"]
    by (cases cp; cases pp; auto)+
  then show ?case by simp
next
  case (4 pb g cp pp pkt g0 pq g1)
  then have "pb_size (snd cp) \<le> pb_size pb" "0 \<le> pb_end_pos (snd cp)" "pb_size (snd pp) < pb_size (snd cp)"
    using pktbuf_is_complete_size [of pb "snd cp"] pktbuf_pop_size [of "next_malloc g" "snd cp" "fst pp" "snd pp"]
    by (cases cp; cases pp; auto)+
  then show ?case by simp
qed simp

declare reader_packets.simps [simp del]

text \<open>One round of the loop; the first component says whether the loop goes on.\<close>

definition reader_round ::
    "pktbuf_t \<Rightarrow> 's gdbstub_t \<Rightarrow> 's \<Rightarrow> poll_ev \<Rightarrow> (bool \<times> pktbuf_t \<times> 's gdbstub_t \<times> 's) res" where
  "reader_round pb g s ev =
     (case ev of
        PollErr e \<Rightarrow> Inr (e = EINTR, pb, g, s)
      | PollTimeout \<Rightarrow> Inr (True, pb, g, s)
      | PollOther \<Rightarrow> Inr (True, pb, g, s)
      | PollIn r \<Rightarrow>
          bindE (pktbuf_fill_from_file (next_malloc g) pb r) (\<lambda>(nread, pb1).
          let g0 = (if pktbuf_full pb then used_malloc g else g) in
          if nread = 0 then Inr (False, pb1, g0, s)
          else if nread < 0 then
            (let errno = (case r of ReadErr e \<Rightarrow> e | _ \<Rightarrow> EFAULT)
             in Inr (errno = EINTR \<or> errno = EAGAIN \<or> errno = EWOULDBLOCK, pb1, g0, s))
          else
            let buf_start = take (nat nread) (drop (pb_size pb1 - nat nread) (pb_data pb1));
                (g1, s1) = reader_scan buf_start g0 s
            in bindE (reader_packets pb1 g1) (\<lambda>(pb2, g2). Inr (True, pb2, g2, s1))))"

text \<open>The whole thread on a script; \<open>True\<close> when it has ended, with the shutdown signalled.\<close>

definition reader_end :: "'s gdbstub_t \<Rightarrow> 's gdbstub_t" where
  "reader_end g = set_queue g (pktqueue_signal_shutdown (pktqueue (priv g)))"

fun reader_loop :: "poll_ev list \<Rightarrow> pktbuf_t \<Rightarrow> 's gdbstub_t \<Rightarrow> 's \<Rightarrow> (bool \<times> pktbuf_t \<times> 's gdbstub_t \<times> 's) res" where
  "reader_loop [] pb g s =
     (if thread_stop (priv g) then Inr (True, pktbuf_destroy pb, reader_end g, s) else Inr (False, pb, g, s))"
| "reader_loop (ev # evs) pb g s =
     (if thread_stop (priv g) then Inr (True, pktbuf_destroy pb, reader_end g, s)
      else bindE (reader_round pb g s ev) (\<lambda>(go_on, pb1, g1, s1).
           if go_on then reader_loop evs pb1 g1 s1 else Inr (True, pktbuf_destroy pb1, reader_end g1, s1)))"

definition socket_reader ::
    "(nat \<Rightarrow> byte) \<Rightarrow> poll_ev list \<Rightarrow> 's gdbstub_t \<Rightarrow> 's \<Rightarrow> (bool \<times> pktbuf_t \<times> 's gdbstub_t \<times> 's) res" where
  "socket_reader fresh evs g s =
     (let (ok, pktbuf) = pktbuf_init (next_malloc g) fresh;
          g0 = used_malloc g
      in if \<not> ok then Inr (True, pktbuf, reader_end g0, s) else reader_loop evs pktbuf g0 s)"

subsection \<open>Interrupts\<close>

lemma set_simps [simp]:
  "priv (set_queue g q) = (priv g)\<lparr>pktqueue := q\<rparr>" "priv (set_conn g c) = (priv g)\<lparr>conn := c\<rparr>"
  "ops (set_queue g q) = ops g" "ops (set_conn g c) = ops g"
  "mallocs (set_queue g q) = mallocs g" "mallocs (set_conn g c) = mallocs g"
  "arch (set_queue g q) = arch g" "arch (set_conn g c) = arch g"
  by (simp_all add: set_queue_def set_conn_def)

lemma reader_scan_clean: "INTR_CHAR \<notin> set bs \<Longrightarrow> reader_scan bs g s = (g, s)"
  by (induction bs) auto

text \<open>How often the emulator is interrupted.\<close>

lemma reader_scan_effect:
  "reader_scan bs g s =
     (if INTR_CHAR \<in> set bs then set_queue g (pktqueue_signal_interrupt (pktqueue (priv g))) else g,
      if async_io (priv g)
      then ((case on_interrupt (ops g) of None \<Rightarrow> id | Some f \<Rightarrow> f) ^^ count_list bs INTR_CHAR) s else s)"
proof (induction bs arbitrary: g s)
  case (Cons b bs)
  have idem: "set_queue (set_queue g (pktqueue_signal_interrupt (pktqueue (priv g))))
      (pktqueue_signal_interrupt ((pktqueue_signal_interrupt (pktqueue (priv g))))) =
      set_queue g (pktqueue_signal_interrupt (pktqueue (priv g)))"
    by (simp add: set_queue_def pktqueue_signal_interrupt_def)
  show ?case
    using Cons by (auto simp: Let_def async_io_is_enable_def idem funpow_swap1 funpow_Suc_right
      simp del: funpow.simps split: option.split)
qed simp

subsection \<open>One packet\<close>

text \<open>No allocation fails; a packet takes two of them, its own and the queue's node.\<close>

abbreviation plenty :: "'s gdbstub_t \<Rightarrow> bool" where
  "plenty g \<equiv> False \<notin> set (mallocs g)"

abbreviation two_mallocs :: "'s gdbstub_t \<Rightarrow> 's gdbstub_t" where
  "two_mallocs g \<equiv> used_malloc (used_malloc g)"

lemma used_malloc_simps [simp]: "priv (used_malloc g) = priv g" "ops (used_malloc g) = ops g" "arch (used_malloc g) = arch g"
  by (simp_all add: used_malloc_def)

lemma plenty_next: "plenty g \<Longrightarrow> next_malloc g" "plenty g \<Longrightarrow> plenty (used_malloc g)"
  by (cases "mallocs g"; simp add: next_malloc_def used_malloc_def)+

lemma reader_packets_none:
  "pktbuf_is_complete pb = Inr (False, pb1) \<Longrightarrow> reader_packets pb g = Inr (pb1, g)"
  by (subst reader_packets.simps) simp

lemma valid_clear [simp]: "valid (pktbuf_clear pb) = []"
  by (simp add: valid_def pktbuf_clear_def)

lemma pb_inv_clear: "pb_inv pb \<Longrightarrow> pb_inv (pktbuf_clear pb)"
  by (simp add: pb_inv_def pktbuf_clear_def)

lemma reader_packets_frame:
  assumes "pb_inv pb" "valid pb = junk @ frame p" "ch CHR ''$'' \<notin> set junk" "ch CHR ''#'' \<notin> set p"
    and "q_inv (pktqueue (priv g))" "plenty g"
  shows "\<exists>pb' q'. reader_packets pb g =
      bindE (conn_try_send_str (conn (priv g)) STR_ACK) (\<lambda>(ok, c). Inr (pb', set_conn (set_queue (two_mallocs g) q') c)) \<and>
    pb_inv pb' \<and> valid pb' = [] \<and> pb_cap pb' = pb_cap pb \<and> q_inv q' \<and>
    q_contents q' = q_contents (pktqueue (priv g)) @ [request p] \<and>
    q_shutdown q' = q_shutdown (pktqueue (priv g)) \<and> q_interrupted q' = q_interrupted (pktqueue (priv g))"
proof -
  obtain pb1 pb2 where p: "pktbuf_is_complete pb = Inr (True, pb1)"
    "pktbuf_pop_packet True pb1 = Inr (Some (request p), pb2)" "pb_inv pb2" "valid pb2 = []" "pb_cap pb2 = pb_cap pb"
    using pktbuf_frame [OF assms(1), of junk p] assms(2-4)
    by (fastforce simp: frame_def hex_pair_def request_def)
  obtain q' where q': "pktqueue_push (pktqueue (priv g)) (request p) True = Inr (True, q')" "q_inv q'"
    "q_contents q' = q_contents (pktqueue (priv g)) @ [request p]"
    "q_shutdown q' = q_shutdown (pktqueue (priv g))" "q_interrupted q' = q_interrupted (pktqueue (priv g))"
    using pq.push_ok [OF assms(5), of "request p"] by auto
  have c2: "pktbuf_is_complete pb2 = Inr (False, pktbuf_clear pb2)"
    by (rule pktbuf_is_complete_no_head) (simp add: p(4))
  have "reader_packets pb g =
      bindE (conn_try_send_str (conn (priv g)) STR_ACK) (\<lambda>(ok, c).
        Inr (pktbuf_clear pb2, set_conn (set_queue (two_mallocs g) q') c))"
    using p(1,2) q'(1) plenty_next [OF assms(6)] plenty_next(1) [OF plenty_next(2) [OF assms(6)]]
    by (subst reader_packets.simps, cases "conn_try_send_str (conn (priv g)) STR_ACK")
      (simp_all add: reader_packets_none [OF c2] Let_def case_prod_beta)
  moreover have "pb_cap (pktbuf_clear pb2) = pb_cap pb" using p(5) by (simp add: pktbuf_clear_def)
  ultimately show ?thesis using q'(2-5) pb_inv_clear [OF p(3)] valid_clear by blast
qed

text \<open>The bytes a fill delivers, when all of them fit.\<close>

lemma valid_tail:
  assumes "valid pb' = valid pb @ got" "pb_size pb' = pb_size pb + length got" "pb_inv pb"
  shows "take (length got) (drop (pb_size pb' - length got) (pb_data pb')) = got"
proof -
  have "take (pb_size pb + length got) (pb_data pb') = valid pb @ got" using assms(1,2) by (simp add: valid_def)
  then have "drop (pb_size pb) (take (pb_size pb + length got) (pb_data pb')) = got"
    using length_valid [OF assms(3)] by simp
  then show ?thesis using assms(2) by (simp add: take_drop add.commute)
qed

lemma fill_not_full: "\<not> pktbuf_full pb \<Longrightarrow> pktbuf_fill_from_file ok pb ev = pktbuf_fill_from_file True pb ev"
  by (simp add: pktbuf_fill_from_file_def pktbuf_grow_def)

lemma fill_all:
  assumes "pb_inv pb" "bs \<noteq> []" "length (valid pb) + length bs \<le> 2 ^ pb_cap pb"
  shows "\<exists>pb'. \<not> pktbuf_full pb \<and> pktbuf_fill_from_file ok pb (ReadData bs) = Inr (int (length bs), pb') \<and> valid pb' = valid pb @ bs \<and>
    pb_inv pb' \<and> pb_cap pb \<le> pb_cap pb' \<and>
    take (length bs) (drop (pb_size pb' - length bs) (pb_data pb')) = bs"
proof -
  have nf: "\<not> pktbuf_full pb"
    using assms(2,3) unfolding length_valid [OF assms(1)] by (cases bs) (auto simp: pktbuf_full_def)
  obtain pb' got where f: "pktbuf_fill_from_file ok pb (ReadData bs) = Inr (int (length got), pb')"
    "got = take (2 ^ pb_cap pb' - pb_size pb) bs" "valid pb' = valid pb @ got" "pb_inv pb'"
    "pb_size pb' = pb_size pb + length got" "pb_cap pb \<le> pb_cap pb'"
    using pktbuf_fill_data [OF assms(1,2)] fill_not_full [OF nf] by metis
  have "(2::nat) ^ pb_cap pb \<le> 2 ^ pb_cap pb'" using f(6) by (intro power_increasing) simp_all
  then have "length bs \<le> 2 ^ pb_cap pb' - pb_size pb"
    using assms(3) unfolding length_valid [OF assms(1)] by linarith
  then have got: "got = bs" using f(2) by simp
  have "take (length bs) (drop (pb_size pb' - length bs) (pb_data pb')) = bs"
    using valid_tail [OF f(3,5) assms(1)] unfolding got .
  then show ?thesis using f(1,3-6) nf unfolding got by auto
qed

text \<open>A round on bytes that all fit and hold no interrupt.\<close>

lemma reader_round_data:
  assumes "\<not> pktbuf_full pb" "pktbuf_fill_from_file (next_malloc g) pb (ReadData bs) = Inr (int (length bs), pb1)"
    "take (length bs) (drop (pb_size pb1 - length bs) (pb_data pb1)) = bs" "bs \<noteq> []" "INTR_CHAR \<notin> set bs"
  shows "reader_round pb g s (PollIn (ReadData bs)) =
    bindE (reader_packets pb1 g) (\<lambda>(pb2, g2). Inr (True, pb2, g2, s))"
  using assms by (simp add: reader_round_def reader_scan_clean Let_def)

subsection \<open>Reassembly\<close>

lemma frame_prefix_incomplete:
  assumes "pb_inv pb" "valid pb = take k (frame p)" "0 < k" "k < length p + 3" "ch CHR ''#'' \<notin> set p"
  shows "\<exists>pb1. pktbuf_is_complete pb = Inr (False, pb1) \<and> pb_inv pb1 \<and> valid pb1 = valid pb \<and> pb_cap pb1 = pb_cap pb"
proof -
  obtain j where j: "k = Suc j" using assms(3) by (cases k) auto
  have v: "valid pb = ch CHR ''$'' # take j (p @ ch CHR ''#'' # hex_pair (sum_list p))"
    using assms(2) j by (simp add: frame_def)
  have "set (butlast (take j (p @ ch CHR ''#'' # hex_pair (sum_list p)))) \<subseteq> set p"
  proof -
    let ?w = "p @ ch CHR ''#'' # hex_pair (sum_list p)"
    have "j \<le> length ?w" using assms(4) j by simp
    then have "butlast (take j ?w) = take (j - 1) ?w" by (rule butlast_take)
    also have "\<dots> = take (j - 1) p" using assms(4) j by simp
    finally show ?thesis by (simp add: set_take_subset)
  qed
  with assms(5) pktbuf_prefix [OF assms(1) v] show ?thesis by blast
qed

text \<open>Where a read may end: not between the two digits of the checksum.\<close>

definition good_cuts :: "byte list \<Rightarrow> nat \<Rightarrow> byte list list \<Rightarrow> bool" where
  "good_cuts p n segs \<longleftrightarrow> (\<forall>k < length segs. n + length (concat (take k segs)) \<noteq> length p + 3)"

lemma good_cuts_Cons: "good_cuts p n (x # xs) \<Longrightarrow> good_cuts p (n + length x) xs"
  unfolding good_cuts_def
proof (intro allI impI)
  fix k assume a: "\<forall>k < length (x # xs). n + length (concat (take k (x # xs))) \<noteq> length p + 3" "k < length xs"
  from a(1) [rule_format, of "Suc k"] a(2) show "n + length x + length (concat (take k xs)) \<noteq> length p + 3" by simp
qed

text \<open>A read in the middle of a frame, and the read that completes it.\<close>

lemma round_part:
  assumes "pb_inv pb" "valid pb @ seg = take k (frame p)" "seg \<noteq> []" "0 < k" "k < length p + 3"
    and "length (frame p) \<le> 2 ^ pb_cap pb" "ch CHR ''#'' \<notin> set p" "INTR_CHAR \<notin> set (frame p)"
  shows "\<exists>pb'. reader_round pb g s (PollIn (ReadData seg)) = Inr (True, pb', g, s) \<and> pb_inv pb' \<and>
    valid pb' = valid pb @ seg \<and> pb_cap pb \<le> pb_cap pb'"
proof -
  have fit: "length (valid pb) + length seg \<le> 2 ^ pb_cap pb"
    using arg_cong [OF assms(2), of length] assms(6) by simp
  obtain pb1 where pb1: "pktbuf_fill_from_file (next_malloc g) pb (ReadData seg) = Inr (int (length seg), pb1)"
    "valid pb1 = valid pb @ seg" "pb_inv pb1" "pb_cap pb \<le> pb_cap pb1"
    "take (length seg) (drop (pb_size pb1 - length seg) (pb_data pb1)) = seg"
    and nf: "\<not> pktbuf_full pb"
    using fill_all [OF assms(1,3) fit] by blast
  have clean: "INTR_CHAR \<notin> set seg"
    using arg_cong [OF assms(2), of set] set_take_subset [of k "frame p"] assms(8) by auto
  from frame_prefix_incomplete [OF pb1(3) _ assms(4,5,7)] assms(2) pb1(2) obtain pb2 where
    pb2: "pktbuf_is_complete pb1 = Inr (False, pb2)" "pb_inv pb2" "valid pb2 = valid pb1" "pb_cap pb2 = pb_cap pb1"
    by auto
  have "reader_round pb g s (PollIn (ReadData seg)) = Inr (True, pb2, g, s)"
    by (simp add: reader_round_data [OF nf pb1(1,5) assms(3) clean] reader_packets_none [OF pb2(1)])
  with pb1(2,4) pb2 show ?thesis by auto
qed

lemma round_last:
  assumes "pb_inv pb" "valid pb @ seg = frame p" "seg \<noteq> []"
    and "length (frame p) \<le> 2 ^ pb_cap pb" "ch CHR ''#'' \<notin> set p" "INTR_CHAR \<notin> set (frame p)"
    and "q_inv (pktqueue (priv g))" "plenty g" "conn_try_send_str (conn (priv g)) STR_ACK = Inr (ok, c)"
  shows "\<exists>pb' q'. reader_round pb g s (PollIn (ReadData seg)) = Inr (True, pb', set_conn (set_queue (two_mallocs g) q') c, s) \<and>
    pb_inv pb' \<and> valid pb' = [] \<and> q_inv q' \<and> q_contents q' = q_contents (pktqueue (priv g)) @ [request p] \<and>
    q_shutdown q' = q_shutdown (pktqueue (priv g)) \<and> q_interrupted q' = q_interrupted (pktqueue (priv g))"
proof -
  have fit: "length (valid pb) + length seg \<le> 2 ^ pb_cap pb"
    using arg_cong [OF assms(2), of length] assms(4) by simp
  obtain pb1 where pb1: "pktbuf_fill_from_file (next_malloc g) pb (ReadData seg) = Inr (int (length seg), pb1)"
    "valid pb1 = [] @ frame p" "pb_inv pb1"
    "take (length seg) (drop (pb_size pb1 - length seg) (pb_data pb1)) = seg"
    and nf: "\<not> pktbuf_full pb"
    using fill_all [OF assms(1,3) fit] assms(2) by auto
  have clean: "INTR_CHAR \<notin> set seg" using arg_cong [OF assms(2), of set] assms(6) by auto
  from reader_packets_frame [OF pb1(3,2) _ assms(5,7,8)] show ?thesis
    using assms(9) by (auto simp: reader_round_data [OF nf pb1(1,4) assms(3) clean])
qed

lemma reader_reassembly:
  assumes "pb_inv pb" "valid pb @ concat segs = frame p" "segs \<noteq> []" "[] \<notin> set segs" "good_cuts p (length (valid pb)) segs"
    and "length (frame p) \<le> 2 ^ pb_cap pb" "ch CHR ''#'' \<notin> set p" "INTR_CHAR \<notin> set (frame p)"
    and "q_inv (pktqueue (priv g))" "plenty g" "\<not> thread_stop (priv g)"
    and ack: "conn_try_send_str (conn (priv g)) STR_ACK = Inr (ok, c)"
  shows "\<exists>pb' q'. reader_loop (map (\<lambda>bs. PollIn (ReadData bs)) segs) pb g s =
      Inr (False, pb', set_conn (set_queue (two_mallocs g) q') c, s) \<and>
    pb_inv pb' \<and> valid pb' = [] \<and> q_inv q' \<and> q_contents q' = q_contents (pktqueue (priv g)) @ [request p] \<and>
    q_shutdown q' = q_shutdown (pktqueue (priv g)) \<and> q_interrupted q' = q_interrupted (pktqueue (priv g))"
  using assms(1-6)
proof (induction segs arbitrary: pb)
  case (Cons seg segs)
  have ne: "seg \<noteq> []" using Cons.prems(4) by auto
  show ?case
  proof (cases "segs = []")
    case True
    then have "valid pb @ seg = frame p" using Cons.prems(2) by simp
    from round_last [where s = s, OF Cons.prems(1) this ne Cons.prems(6) assms(7-10) ack] obtain pb' q' where
      r: "reader_round pb g s (PollIn (ReadData seg)) = Inr (True, pb', set_conn (set_queue (two_mallocs g) q') c, s)"
      and q: "pb_inv pb'" "valid pb' = []" "q_inv q'" "q_contents q' = q_contents (pktqueue (priv g)) @ [request p]"
        "q_shutdown q' = q_shutdown (pktqueue (priv g))" "q_interrupted q' = q_interrupted (pktqueue (priv g))"
      by blast
    have "reader_loop (map (\<lambda>bs. PollIn (ReadData bs)) (seg # segs)) pb g s =
        Inr (False, pb', set_conn (set_queue (two_mallocs g) q') c, s)"
      using True assms(11) r by (simp)
    with q show ?thesis by blast
  next
    case False
    let ?k = "length (valid pb @ seg)"
    have "0 < length (concat segs)" using False Cons.prems(4) by (cases segs) auto
    moreover have "?k + length (concat segs) = length p + 4"
      using arg_cong [OF Cons.prems(2), of length] by (simp add: frame_def)
    moreover have "?k \<noteq> length p + 3"
      using Cons.prems(5) False unfolding good_cuts_def by (elim allE [of _ 1]) simp
    ultimately have k: "?k < length p + 3" "0 < ?k" using ne by (linarith, simp)
    have "valid pb @ seg = take ?k (frame p)" unfolding Cons.prems(2) [symmetric] by simp
    from round_part [where g = g and s = s, OF Cons.prems(1) this ne k(2,1) Cons.prems(6) assms(7,8)] obtain pb2 where
      pb2: "reader_round pb g s (PollIn (ReadData seg)) = Inr (True, pb2, g, s)" "pb_inv pb2"
        "valid pb2 = valid pb @ seg" "pb_cap pb \<le> pb_cap pb2" by blast
    have "(2::nat) ^ pb_cap pb \<le> 2 ^ pb_cap pb2" using pb2(4) by (intro power_increasing) simp_all
    then have cap: "length (frame p) \<le> 2 ^ pb_cap pb2" using Cons.prems(6) by linarith
    have cuts: "good_cuts p (length (valid pb2)) segs" using good_cuts_Cons [OF Cons.prems(5)] pb2(3) by simp
    have rest: "valid pb2 @ concat segs = frame p" "[] \<notin> set segs" using Cons.prems(2,4) pb2(3) by auto
    from Cons.IH [OF pb2(2) rest(1) False rest(2) cuts cap] pb2(1) assms(11) show ?thesis by simp
  qed
qed simp

subsection \<open>What the reader may change\<close>

text \<open>The queue stays in order and only grows at its end; all that is sent are acknowledgements;
  besides the wire and the signals nothing of the stub changes.\<close>

definition rconfig :: "'s gdbstub_t \<Rightarrow> _" where
  "rconfig g = (ops g, arch g, regbuf (priv g), (thread_stop (priv g), reader_running (priv g), async_io (priv g)),
     total_reg_bytes (priv g), (listen_fd (conn (priv g)), socket_fd (conn (priv g)), send_mutex (conn (priv g)),
     failure_count (conn (priv g)), no_ack_mode (conn (priv g))))"

definition rkept :: "'s gdbstub_t \<Rightarrow> 's gdbstub_t \<Rightarrow> bool" where
  "rkept g g' \<longleftrightarrow> rconfig g' = rconfig g \<and>
     (False \<notin> set (mallocs g) \<longrightarrow> False \<notin> set (mallocs g')) \<and>
     (\<exists>n. wire (conn (priv g')) = wire (conn (priv g)) @ concat (replicate n STR_ACK)) \<and>
     suffix (sock_script (conn (priv g'))) (sock_script (conn (priv g))) \<and>
     (q_inv (pktqueue (priv g)) \<longrightarrow> q_inv (pktqueue (priv g')) \<and>
        prefix (q_contents (pktqueue (priv g))) (q_contents (pktqueue (priv g')))) \<and>
     (q_shutdown (pktqueue (priv g)) \<longrightarrow> q_shutdown (pktqueue (priv g')))"

lemma rkept_refl [simp]: "rkept g g"
  by (simp add: rkept_def)

lemma rkept_trans: "rkept g g1 \<Longrightarrow> rkept g1 g2 \<Longrightarrow> rkept g g2"
proof -
  assume r: "rkept g g1" "rkept g1 g2"
  from r obtain n m where "wire (conn (priv g1)) = wire (conn (priv g)) @ concat (replicate n STR_ACK)"
    "wire (conn (priv g2)) = wire (conn (priv g1)) @ concat (replicate m STR_ACK)"
    unfolding rkept_def by blast
  then have "wire (conn (priv g2)) = wire (conn (priv g)) @ concat (replicate (n + m) STR_ACK)"
    by (simp add: replicate_add)
  with r show ?thesis unfolding rkept_def
    by (elim conjE, intro conjI) (simp | blast intro: prefix_order.trans suffix_order.trans)+
qed

lemma rkept_interrupt: "rkept g (set_queue g (pktqueue_signal_interrupt (pktqueue (priv g))))"
  by (simp add: rkept_def rconfig_def pktqueue_signal_interrupt_def exI [of _ 0])

lemma rkept_malloc: "rkept g (used_malloc g)"
  using plenty_next(2) [of g] by (simp add: rkept_def rconfig_def exI [of _ 0])

lemma reader_scan_rkept: "reader_scan bs g s = (g', s') \<Longrightarrow> rkept g g'"
  using rkept_interrupt [of g] by (auto simp: reader_scan_effect split: if_split_asm)

text \<open>An acknowledgement is sent as a whole or not at all.\<close>

lemma conn_try_ack:
  assumes "conn_try_send_str c STR_ACK = Inr (ok, c')"
  shows "c' = c\<lparr>sock_script := sock_script c', wire := wire c @ (if ok then STR_ACK else [])\<rparr> \<and>
    suffix (sock_script c') (sock_script c)"
proof (cases "send_mutex c")
  case True
  with assms show ?thesis by (simp add: conn_try_send_str_def)
next
  case False
  with assms have "conn_send_raw c STR_ACK 0 = Inr (ok, c')" by (simp add: conn_try_send_str_def)
  then obtain evs w where l: "conn_send_loop STR_ACK 0 0 (sock_script c) (wire c) = Inr (ok, evs, w)"
    and c': "c' = c\<lparr>sock_script := evs, wire := w\<rparr>"
    by (auto simp: conn_send_raw_def bindE_Inr_iff)
  from conn_send_loop_prefix [OF l] obtain n used where "n \<le> length STR_ACK" "w = wire c @ take n STR_ACK"
    "ok \<longleftrightarrow> n = length STR_ACK" "sock_script c = used @ evs" by blast
  then show ?thesis unfolding c' by (auto simp: STR_ACK_def str_def suffix_def le_Suc_eq)
qed

lemma push_interrupted: "pktqueue_push q p ok = Inr (b, q') \<Longrightarrow> q_interrupted q' = q_interrupted q"
  by (auto simp: pktqueue_push_def Let_def split: if_split_asm option.split_asm)

lemma rkept_push:
  assumes "pktqueue_push (pktqueue (priv g)) p ok = Inr (b, q)"
  shows "rkept g (set_queue (used_malloc g) q)"
proof -
  have "q_inv (pktqueue (priv g)) \<longrightarrow> q_inv q \<and> prefix (q_contents (pktqueue (priv g))) (q_contents q)"
    using pq.push_ok [of "pktqueue (priv g)" p] pq.push_fail [of "pktqueue (priv g)" p] assms
    by (cases ok) (auto simp: prefix_def)
  moreover have "q_shutdown q = q_shutdown (pktqueue (priv g))"
    using assms by (auto simp: pktqueue_push_def Let_def split: if_split_asm option.split_asm)
  ultimately show ?thesis using plenty_next(2) [of g] by (simp add: rkept_def rconfig_def exI [of _ 0])
qed

lemma rkept_conn: "conn_try_send_str (conn (priv g)) STR_ACK = Inr (ok, c) \<Longrightarrow> rkept g (set_conn g c)"
proof -
  assume "conn_try_send_str (conn (priv g)) STR_ACK = Inr (ok, c)"
  from conn_try_ack [OF this] have
    u: "c = (conn (priv g))\<lparr>sock_script := sock_script c, wire := wire (conn (priv g)) @ (if ok then STR_ACK else [])\<rparr>"
    and x: "suffix (sock_script c) (sock_script (conn (priv g)))" by simp_all
  have "\<exists>n. (if ok then STR_ACK else []) = concat (replicate n STR_ACK)"
    by (rule exI [of _ "if ok then 1 else 0"]) simp
  with x show ?thesis by (subst u) (simp add: rkept_def rconfig_def)
qed

text \<open>Moving packets raises no signal.\<close>

definition rquiet :: "'s gdbstub_t \<Rightarrow> 's gdbstub_t \<Rightarrow> bool" where
  "rquiet g g' \<longleftrightarrow> rkept g g' \<and> q_interrupted (pktqueue (priv g')) = q_interrupted (pktqueue (priv g))"

lemma rquiet_refl [simp]: "rquiet g g"
  by (simp add: rquiet_def)

lemma rquiet_trans: "rquiet g g1 \<Longrightarrow> rquiet g1 g2 \<Longrightarrow> rquiet g g2"
  using rkept_trans [of g g1 g2] by (simp add: rquiet_def)

lemma rquiet_push:
  "pktqueue_push (pktqueue (priv g)) p ok = Inr (b, q) \<Longrightarrow> rquiet g (set_queue (used_malloc g) q)"
  using rkept_push [of g p ok b q] push_interrupted [of "pktqueue (priv g)" p ok b q]
  by (simp add: rquiet_def)

lemma rquiet_malloc: "rquiet g (used_malloc g)"
  by (simp add: rquiet_def rkept_malloc)

lemma rquiet_conn: "conn_try_send_str (conn (priv g)) STR_ACK = Inr (ok, c) \<Longrightarrow> rquiet g (set_conn g c)"
  using rkept_conn [of g ok c] by (simp add: rquiet_def)

lemma pb_inv_complete: "pktbuf_is_complete pb = Inr (b, pb1) \<Longrightarrow> pb_inv pb \<Longrightarrow> pb_inv pb1"
proof (cases "ch CHR ''$'' \<in> set (valid pb)")
  case True
  assume a: "pktbuf_is_complete pb = Inr (b, pb1)" "pb_inv pb"
  from pktbuf_is_complete_spec [OF a(2) True] a(1) show ?thesis
    by (auto simp: pb_inv_def split: option.split_asm if_split_asm)
next
  case False
  assume "pktbuf_is_complete pb = Inr (b, pb1)" "pb_inv pb"
  with pktbuf_is_complete_no_head [OF False] pb_inv_clear show ?thesis by auto
qed

lemma length_memmove: "memmove m d s n = Inr m' \<Longrightarrow> length m' = length m"
  by (auto simp: memmove_def split: if_split_asm)

lemma pb_inv_pop: "pktbuf_pop_packet ok pb = Inr (p, pb') \<Longrightarrow> pb_inv pb \<Longrightarrow> pb_inv pb'"
  by (auto simp: pktbuf_pop_packet_def pb_inv_def Let_def elim!: bindE_InrE split: if_split_asm
      dest: length_memmove)

text \<open>A buffer in use, or one whose allocation has failed: that one never receives data.\<close>

definition pb_ok :: "pktbuf_t \<Rightarrow> bool" where
  "pb_ok pb \<longleftrightarrow> pb_inv pb \<or> pb_null pb"

lemma pb_null_fill:
  assumes "pktbuf_fill_from_file ok pb r = Inr (n, pb')" "pb_null (pktbuf_grow ok pb)"
  shows "n \<le> 0 \<and> pb_null pb'"
  using assms by (auto simp: pktbuf_fill_from_file_def pb_null_def Let_def elim!: bindE_InrE split: read_ev.split_asm)

lemma pb_ok_grow: "pb_ok pb \<Longrightarrow> pb_inv (pktbuf_grow ok pb) \<and> (ok \<or> \<not> pktbuf_full pb) \<and> pb_inv pb \<or> pb_null (pktbuf_grow ok pb)"
  by (auto simp: pb_ok_def pb_inv_def pb_null_def pktbuf_grow_def pktbuf_full_def)

lemma pb_inv_fill: "pktbuf_fill_from_file True pb r = Inr (n, pb') \<Longrightarrow> pb_inv pb \<Longrightarrow> pb_inv pb'"
proof (cases r)
  case (ReadData bs)
  assume a: "pktbuf_fill_from_file True pb r = Inr (n, pb')" "pb_inv pb"
  show ?thesis
  proof (cases "bs = []")
    case True
    with a ReadData pktbuf_grow_props(1,3) [OF a(2)] show ?thesis
      by (auto simp: pktbuf_fill_from_file_def Let_def assertE_def pb_inv_def split: if_split_asm)
  next
    case False
    from pktbuf_fill_data [OF a(2) False] a(1) ReadData show ?thesis by auto
  qed
qed (auto simp: pktbuf_fill_from_file_def Let_def assertE_def pktbuf_grow_props(1) split: if_split_asm)

lemma pb_ok_fill:
  assumes "pktbuf_fill_from_file ok pb r = Inr (n, pb')" "pb_ok pb"
  shows "pb_inv pb' \<or> n \<le> 0 \<and> pb_null pb'"
  using pb_ok_grow [OF assms(2), of ok]
proof (elim disjE conjE)
  assume g: "ok" "pb_inv pb"
  with assms(1) pb_inv_fill [of pb r n pb'] show ?thesis by simp
next
  assume g: "\<not> pktbuf_full pb" "pb_inv pb"
  with assms(1) fill_not_full [OF g(1), of ok r] pb_inv_fill [of pb r n pb'] show ?thesis by simp
qed (use pb_null_fill [OF assms(1)] in blast)

text \<open>One pass of the loop over the packets: it ends, or it goes on with fewer bytes.\<close>

lemma reader_packets_step:
  assumes "reader_packets pb g = Inr (pb', g')" "pb_inv pb"
  shows "pktbuf_is_complete pb = Inr (False, pb') \<and> g' = g \<or>
    (\<exists>pb2 g2. reader_packets pb2 g2 = Inr (pb', g') \<and> pb_size pb2 < pb_size pb \<and> pb_inv pb2 \<and> rquiet g g2)"
proof -
  from assms(1) obtain more pb1 where c: "pktbuf_is_complete pb = Inr (more, pb1)"
    by (subst (asm) reader_packets.simps) (auto elim!: bindE_InrE)
  show ?thesis
  proof (cases more)
    case False
    with assms(1) c show ?thesis by (subst (asm) reader_packets.simps) simp
  next
    case True
    define g0 where "g0 = used_malloc g"
    from assms(1) [unfolded reader_packets.simps [of pb g] Let_def, folded g0_def] c True have "bindE (pktbuf_pop_packet (next_malloc g) pb1) (\<lambda>pp.
       case fst pp of
         None \<Rightarrow> reader_packets (snd pp) g
       | Some pkt \<Rightarrow>
           bindE (pktqueue_push (pktqueue (priv g0)) pkt (next_malloc g0)) (\<lambda>pq.
           if fst pq then
             bindE (conn_try_send_str (conn (priv (set_queue (used_malloc g0) (snd pq)))) STR_ACK) (\<lambda>rc.
             reader_packets (snd pp) (set_conn (set_queue (used_malloc g0) (snd pq)) (snd rc)))
           else reader_packets (snd pp) (set_queue (used_malloc g0) (snd pq)))) = Inr (pb', g')"
      by simp
    then obtain po pb2 where p: "pktbuf_pop_packet (next_malloc g) pb1 = Inr (po, pb2)"
      and rest: "case po of None \<Rightarrow> reader_packets pb2 g = Inr (pb', g')
       | Some pkt \<Rightarrow> \<exists>ok q. pktqueue_push (pktqueue (priv g0)) pkt (next_malloc g0) = Inr (ok, q) \<and>
           (if ok then \<exists>b cn. conn_try_send_str (conn (priv (set_queue (used_malloc g0) q))) STR_ACK = Inr (b, cn) \<and>
              reader_packets pb2 (set_conn (set_queue (used_malloc g0) q) cn) = Inr (pb', g')
            else reader_packets pb2 (set_queue (used_malloc g0) q) = Inr (pb', g'))"
      by (force simp: Let_def elim!: bindE_InrE split: option.splits if_splits)
    have size: "pb_size pb2 < pb_size pb" and inv: "pb_inv pb2"
      using pktbuf_is_complete_size [of pb pb1] pktbuf_pop_size [OF p] pb_inv_pop [OF p] pb_inv_complete [OF c assms(2)]
        c True by auto
    have "\<exists>g2. reader_packets pb2 g2 = Inr (pb', g') \<and> rquiet g g2"
    proof (cases po)
      case (Some pkt)
      with rest obtain ok q where q: "pktqueue_push (pktqueue (priv g0)) pkt (next_malloc g0) = Inr (ok, q)"
        and r: "if ok then \<exists>b cn. conn_try_send_str (conn (priv (set_queue (used_malloc g0) q))) STR_ACK = Inr (b, cn) \<and>
              reader_packets pb2 (set_conn (set_queue (used_malloc g0) q) cn) = Inr (pb', g')
            else reader_packets pb2 (set_queue (used_malloc g0) q) = Inr (pb', g')" by auto
      have push: "rquiet g (set_queue (used_malloc g0) q)"
        using rquiet_trans [OF rquiet_malloc rquiet_push] q by (simp add: g0_def)
      have "rquiet g (set_conn (set_queue (used_malloc g0) q) cn)"
        if "conn_try_send_str (conn (priv g0)) STR_ACK = Inr (b, cn)" for b cn
        using rquiet_trans [OF push rquiet_conn [of "set_queue (used_malloc g0) q" b cn]] that by simp
      with r push show ?thesis by (cases ok) auto
    qed (use rest in auto)
    with size inv show ?thesis by blast
  qed
qed

lemma reader_packets_kept:
  "reader_packets pb g = Inr (pb', g') \<Longrightarrow> pb_inv pb \<Longrightarrow> pb_inv pb' \<and> rquiet g g'"
proof (induction "pb_size pb" arbitrary: pb g rule: less_induct)
  case less
  from reader_packets_step [OF less.prems] show ?case
  proof (elim disjE conjE exE)
    fix pb2 g2
    assume "reader_packets pb2 g2 = Inr (pb', g')" "pb_size pb2 < pb_size pb" "pb_inv pb2" "rquiet g g2"
    with less.hyps [of pb2 g2] show ?thesis using rquiet_trans by blast
  qed (use pb_inv_complete less.prems(2) in auto)
qed

lemma reader_round_kept:
  assumes "reader_round pb g s ev = Inr (go_on, pb', g', s')" "pb_ok pb"
  shows "pb_ok pb' \<and> rkept g g' \<and> (\<not> async_io (priv g) \<longrightarrow> s' = s)"
proof (cases ev)
  case (PollIn r)
  define g0 where "g0 = (if pktbuf_full pb then used_malloc g else g)"
  have g0: "rkept g g0" "async_io (priv g0) = async_io (priv g)" using rkept_malloc [of g] by (simp_all add: g0_def)
  from assms(1) PollIn obtain n pb1 where f: "pktbuf_fill_from_file (next_malloc g) pb r = Inr (n, pb1)"
    and rest: "(if n = 0 then Inr (False, pb1, g0, s)
          else if n < 0 then
            (let errno = (case r of ReadErr e \<Rightarrow> e | _ \<Rightarrow> EFAULT)
             in Inr (errno = EINTR \<or> errno = EAGAIN \<or> errno = EWOULDBLOCK, pb1, g0, s))
          else
            let buf_start = take (nat n) (drop (pb_size pb1 - nat n) (pb_data pb1));
                (g1, s1) = reader_scan buf_start g0 s
            in bindE (reader_packets pb1 g1) (\<lambda>(pb2, g2). Inr (True, pb2, g2, s1))) = Inr (go_on, pb', g', s')"
    unfolding g0_def by (auto simp: reader_round_def Let_def elim!: bindE_InrE)
  note inv1 = pb_ok_fill [OF f assms(2)]
  show ?thesis
  proof (cases "n \<le> 0")
    case True
    with rest inv1 g0 show ?thesis by (auto simp: Let_def pb_ok_def split: if_split_asm)
  next
    case False
    then have inv1: "pb_inv pb1" using inv1 by simp
    obtain g1 s1 where sc: "reader_scan (take (nat n) (drop (pb_size pb1 - nat n) (pb_data pb1))) g0 s = (g1, s1)"
      by fastforce
    with rest False have r: "reader_packets pb1 g1 = Inr (pb', g')" "s' = s1"
      by (auto simp: Let_def elim!: bindE_InrE)
    have "\<not> async_io (priv g) \<longrightarrow> s1 = s" using sc g0(2) by (auto simp: reader_scan_effect)
    with reader_packets_kept [OF r(1) inv1] r(2) rkept_trans [OF g0(1) rkept_trans [OF reader_scan_rkept [OF sc]]]
    show ?thesis unfolding rquiet_def pb_ok_def by blast
  qed
qed (use assms in \<open>auto simp: reader_round_def\<close>)

lemma rkept_end: "rkept g (reader_end g)"
  by (simp add: rkept_def rconfig_def reader_end_def pktqueue_signal_shutdown_def exI [of _ 0])

lemma reader_end_shutdown: "q_shutdown (pktqueue (priv (reader_end g)))"
  by (simp add: reader_end_def pktqueue_signal_shutdown_def)

lemma reader_loop_kept:
  "reader_loop evs pb g s = Inr (ended, pb', g', s') \<Longrightarrow> pb_ok pb \<Longrightarrow>
    (\<not> ended \<longrightarrow> pb_ok pb') \<and> rkept g g' \<and> (\<not> async_io (priv g) \<longrightarrow> s' = s) \<and> (ended \<longrightarrow> q_shutdown (pktqueue (priv g')))"
proof (induction evs pb g s arbitrary: pb' g' s' rule: reader_loop.induct)
  case (1 pb g s)
  then show ?case using rkept_end [of g] by (auto simp: reader_end_shutdown split: if_split_asm)
next
  case (2 ev evs pb g s)
  show ?case
  proof (cases "thread_stop (priv g)")
    case True
    with 2 show ?thesis using rkept_end [of g] by (auto simp: reader_end_shutdown)
  next
    case False
    with "2.prems"(1) obtain go_on pb1 g1 s1 where r: "reader_round pb g s ev = Inr (go_on, pb1, g1, s1)"
      and rest: "(if go_on then reader_loop evs pb1 g1 s1 else Inr (True, pktbuf_destroy pb1, reader_end g1, s1)) = Inr (ended, pb', g', s')"
      by (auto elim!: bindE_InrE)
    from reader_round_kept [OF r "2.prems"(2)] have k: "pb_ok pb1" "rkept g g1" "\<not> async_io (priv g) \<longrightarrow> s1 = s" by auto
    have a: "async_io (priv g1) = async_io (priv g)" using k(2) by (simp add: rkept_def rconfig_def)
    show ?thesis
    proof (cases go_on)
      case True
      with "2.IH" [OF False r refl refl refl True] rest k(1) have
        "(\<not> ended \<longrightarrow> pb_ok pb') \<and> rkept g1 g' \<and> (\<not> async_io (priv g1) \<longrightarrow> s' = s1) \<and> (ended \<longrightarrow> q_shutdown (pktqueue (priv g')))"
        by simp
      then show ?thesis using k a rkept_trans by metis
    next
      case False
      with rest k show ?thesis using rkept_trans [OF k(2) rkept_end] by (auto simp: reader_end_shutdown)
    qed
  qed
qed

text \<open>What a round does with interrupts.\<close>

lemma reader_round_intr:
  assumes "reader_round pb g s (PollIn (ReadData bs)) = Inr (go_on, pb', g', s')" "pb_inv pb" "bs \<noteq> []" "next_malloc g"
  shows "\<exists>n. 0 < n \<and> n \<le> length bs \<and>
    s' = (if async_io (priv g)
          then ((case on_interrupt (ops g) of None \<Rightarrow> id | Some f \<Rightarrow> f) ^^ count_list (take n bs) INTR_CHAR) s else s) \<and>
    q_interrupted (pktqueue (priv g')) = (q_interrupted (pktqueue (priv g)) \<or> INTR_CHAR \<in> set (take n bs))"
proof -
  define g0 where "g0 = (if pktbuf_full pb then used_malloc g else g)"
  have g0: "pktqueue (priv g0) = pktqueue (priv g)" "async_io (priv g0) = async_io (priv g)" "ops g0 = ops g"
    by (simp_all add: g0_def)
  obtain pb1 got where f: "pktbuf_fill_from_file True pb (ReadData bs) = Inr (int (length got), pb1)"
    "got = take (2 ^ pb_cap pb1 - pb_size pb) bs" "got \<noteq> []" "valid pb1 = valid pb @ got"
    "pb_size pb1 = pb_size pb + length got"
    using pktbuf_fill_data [OF assms(2,3)] by blast
  have start: "take (length got) (drop (pb_size pb1 - length got) (pb_data pb1)) = got"
    by (rule valid_tail [OF f(4,5) assms(2)])
  obtain g1 s1 where sc: "reader_scan got g0 s = (g1, s1)" by fastforce
  from assms(1,4) f(1,3) start sc have r: "reader_packets pb1 g1 = Inr (pb', g')" "s' = s1"
    by (auto simp: reader_round_def Let_def g0_def [symmetric] elim!: bindE_InrE)
  have "pb_inv pb1" using pb_inv_fill [OF f(1) assms(2)] .
  from reader_packets_kept [OF r(1) this]
  have "q_interrupted (pktqueue (priv g')) = q_interrupted (pktqueue (priv g1))" by (simp add: rquiet_def)
  moreover have "take (length got) bs = got" "length got \<le> length bs" using f(2) by (simp_all add: min_def)
  moreover have "0 < length got" using f(3) by simp
  ultimately show ?thesis using sc r(2) g0
    by (intro exI [of _ "length got"])
      (auto simp: reader_scan_effect pktqueue_signal_interrupt_def split: if_split_asm)
qed

subsection \<open>Properties\<close>

text \<open>The buffer with which \<open>socket_reader\<close> starts.\<close>

definition fresh_buf :: pktbuf_t where
  "fresh_buf = snd (pktbuf_init True (\<lambda>_. 0))"

lemma fresh_buf: "pb_inv fresh_buf" "valid fresh_buf = []" "pb_cap fresh_buf = 10"
  by (simp_all add: fresh_buf_def pb_inv_init) (simp add: pktbuf_init_def pktbuf_clear_def DEFAULT_CAP_def)

lemma intr_frame: "INTR_CHAR \<notin> set p \<Longrightarrow> INTR_CHAR \<notin> set (frame p)"
  using hex_pair_xdigit [of INTR_CHAR "sum_list p"]
  by (auto simp: frame_def INTR_CHAR_def is_xdigit_def is_digit_def ch_def word_le_nat_alt)

text \<open>C8.  Reassembly.  However the peer's bytes are cut into reads, as long as no read ends
  between the two digits of the checksum, the reader makes of a frame exactly one packet, puts it
  at the end of the queue, acknowledges it with one \<open>+\<close>, and is ready for the next one; no
  interrupt is signalled.\<close>

theorem reader_reassembles:
  assumes "pb_inv pb" "valid pb = []" "concat segs = frame p" "[] \<notin> set segs"
    and "\<forall>k < length segs. length (concat (take k segs)) \<noteq> length p + 3"
    and "length p + 4 \<le> 2 ^ pb_cap pb" "ch CHR ''#'' \<notin> set p" "INTR_CHAR \<notin> set p"
    and "q_inv (pktqueue (priv g))" "plenty g" "\<not> thread_stop (priv g)"
    and "\<not> send_mutex (conn (priv g))" "0 < accepts (sock_script (conn (priv g)))"
  shows "\<exists>pb' g'. reader_loop (map (\<lambda>bs. PollIn (ReadData bs)) segs) pb g s = Inr (False, pb', g', s) \<and>
    pb_inv pb' \<and> valid pb' = [] \<and> wire (conn (priv g')) = wire (conn (priv g)) @ STR_ACK \<and>
    q_inv (pktqueue (priv g')) \<and>
    q_contents (pktqueue (priv g')) = q_contents (pktqueue (priv g)) @ [request p] \<and>
    q_interrupted (pktqueue (priv g')) = q_interrupted (pktqueue (priv g))"
proof -
  have "segs \<noteq> []" using assms(3) by (auto simp: frame_def)
  moreover have "good_cuts p (length (valid pb)) segs" using assms(2,5) by (simp add: good_cuts_def)
  moreover have "length (frame p) \<le> 2 ^ pb_cap pb" using assms(6) by (simp add: frame_def)
  moreover obtain evs where "conn_try_send_str (conn (priv g)) STR_ACK =
      Inr (True, (conn (priv g))\<lparr>sock_script := evs, wire := wire (conn (priv g)) @ STR_ACK\<rparr>)"
    using conn_send_loop_accepts [of STR_ACK "sock_script (conn (priv g))" 0 0 "wire (conn (priv g))"] assms(12,13)
    by (auto simp: conn_try_send_str_def conn_send_raw_def STR_ACK_def str_def Suc_le_eq)
  ultimately show ?thesis
    using reader_reassembly [OF assms(1) _ _ assms(4) _ _ assms(7) intr_frame [OF assms(8)] assms(9-11)] assms(2,3)
    by fastforce
qed

theorem reader_reassembles_witness:
  "\<exists>pb' g'. reader_loop [PollIn (ReadData (str ''$'')), PollIn (ReadData (str ''g#'')), PollIn (ReadData (str ''67''))]
      fresh_buf (stub0 pair_ops \<lparr>target_desc = None, smp = 1, reg_num = 2\<rparr> 3 [Wrote 1]) (1, [2, 3]) =
    Inr (False, pb', g', (1, [2, 3])) \<and> wire (conn (priv g')) = STR_ACK \<and>
    q_contents (pktqueue (priv g')) = [request (str ''g'')]"
proof -
  let ?g = "stub0 pair_ops \<lparr>target_desc = None, smp = 1, reg_num = 2\<rparr> 3 [Wrote 1]"
  have f: "concat [str ''$'', str ''g#'', str ''67''] = frame (str ''g'')" by code_simp
  have c: "\<forall>k < length [str ''$'', str ''g#'', str ''67'']. length (concat (take k [str ''$'', str ''g#'', str ''67''])) \<noteq>
      length (str ''g'') + 3"
    by (auto simp: less_Suc_eq numeral_3_eq_3 str_def)
  show ?thesis
    using reader_reassembles [OF fresh_buf(1,2) f _ c, of ?g "(1, [2, 3])"] q_inv_init
    by (auto simp: fresh_buf(3) str_def ch_def INTR_CHAR_def stub0_def next_malloc_def conn0_def)
qed



end
