(* ===== verification/Run.thy ===== *)
theory Run
  imports Requests
begin

text \<open>
  The main thread of \<^verbatim>\<open>src/src/gdbstub.c\<close>: \<open>gdbstub_handle_event\<close>, \<open>gdbstub_act_resume\<close> and
  \<open>gdbstub_run\<close>.  One pass of the loop is \<open>main_round\<close>; it is put together from \<open>main_fetch\<close>
  (everything up to the event), the event, and \<open>main_act\<close>, which are the steps that \<open>System\<close>
  interleaves with the reader.  Waiting in \<open>pktqueue_pop\<close> is the value \<open>Blocked\<close>.  The loop has
  fuel; the outcome \<open>None\<close> says that it ran out of it.
\<close>

subsection \<open>Definitions\<close>

definition GDB_SIGNAL_TRAP :: nat where "GDB_SIGNAL_TRAP = 5"
definition CONN_MAX_FAILURES :: int where "CONN_MAX_FAILURES = 50"

text \<open>\<open>gdbstub_handle_event\<close>, in three parts: the flag for the reader is raised, the callback runs,
  the flag is lowered.\<close>

definition event_start :: "'s gdbstub_t \<Rightarrow> gdb_event_t \<Rightarrow> 's gdbstub_t" where
  "event_start g event =
     (case event of EVENT_CONT \<Rightarrow> g\<lparr>priv := async_io_enable (priv g)\<rparr> | _ \<Rightarrow> g)"

definition event_call :: "'s gdbstub_t \<Rightarrow> gdb_event_t \<Rightarrow> 's \<Rightarrow> (gdb_action_t \<times> 's) res" where
  "event_call g event s =
     (case event of
        EVENT_CONT \<Rightarrow> call (cont (ops g)) (\<lambda>f. f s)
      | EVENT_STEP \<Rightarrow> call (stepi (ops g)) (\<lambda>f. f s)
      | EVENT_DETACH \<Rightarrow> Inr (ACT_SHUTDOWN, s)
      | EVENT_NONE \<Rightarrow> Inr (ACT_NONE, s))"

definition event_stop :: "'s gdbstub_t \<Rightarrow> gdb_event_t \<Rightarrow> 's gdbstub_t" where
  "event_stop g event =
     (case event of EVENT_CONT \<Rightarrow> g\<lparr>priv := async_io_disable (priv g)\<rparr> | _ \<Rightarrow> g)"

definition gdbstub_handle_event ::
    "'s gdbstub_t \<Rightarrow> gdb_event_t \<Rightarrow> 's \<Rightarrow> (gdb_action_t \<times> 's gdbstub_t \<times> 's) res" where
  "gdbstub_handle_event g event s =
     (let g1 = event_start g event in
      bindE (event_call g1 event s) (\<lambda>(act, s'). Inr (act, event_stop g1 event, s')))"

definition gdbstub_act_resume :: "'s gdbstub_t \<Rightarrow> 's gdbstub_t res" where
  "gdbstub_act_resume g =
     bindE (buf_puts (buf_new 32) 0 (str ''S'' @ fmt_02x GDB_SIGNAL_TRAP @ [0])) (\<lambda>b. send_buf g b)"

text \<open>Where the loop stands.\<close>

datatype main_pc =
    AtPop                    \<comment> \<open>about to take a packet\<close>
  | AtEvent gdb_event_t      \<comment> \<open>about to handle an event\<close>
  | AtCall gdb_event_t       \<comment> \<open>the flag is raised, the callback not yet called\<close>
  | Returned bool

definition set_failures :: "'s gdbstub_t \<Rightarrow> int \<Rightarrow> 's gdbstub_t" where
  "set_failures g n = g\<lparr>priv := (priv g)\<lparr>conn := (conn (priv g))\<lparr>failure_count := n\<rparr>\<rparr>\<rparr>"

definition main_ack :: "'s gdbstub_t \<Rightarrow> bool \<Rightarrow> 's gdbstub_t res" where
  "main_ack g csum_ok =
     (if \<not> no_ack_mode (conn (priv g)) then
        bindE (conn_send_str (conn (priv g)) (if csum_ok then STR_ACK else STR_NACK)) (\<lambda>c.
        Inr (g\<lparr>priv := (priv g)\<lparr>conn := c\<rparr>\<rparr>))
      else Inr g)"

definition main_packet :: "'s gdbstub_t \<Rightarrow> packet_t \<Rightarrow> 's \<Rightarrow> (main_pc \<times> 's gdbstub_t \<times> 's) res" where
  "main_packet g pkt s =
     bindE (packet_csum_verify pkt) (\<lambda>csum_ok.
     bindE (main_ack g csum_ok) (\<lambda>g1.
     if \<not> csum_ok then
       (let g2 = set_failures g1 (failure_count (conn (priv g1)) + 1) in
        Inr (if failure_count (conn (priv g2)) \<ge> CONN_MAX_FAILURES then Returned False else AtPop, g2, s))
     else
       bindE (gdbstub_process_packet (set_failures g1 0) pkt s) (\<lambda>(event, g2, s').
       Inr (AtEvent event, g2, s'))))"

definition main_fetch :: "'s gdbstub_t \<Rightarrow> 's \<Rightarrow> (main_pc \<times> 's gdbstub_t \<times> 's) res" where
  "main_fetch g s =
     bindE (pktqueue_pop (pktqueue (priv g))) (\<lambda>(pkt, q).
     let g1 = g\<lparr>priv := (priv g)\<lparr>pktqueue := q\<rparr>\<rparr> in
     case pkt of
       None \<Rightarrow>
         if pktqueue_is_shutdown q then Inr (Returned True, g1, s)
         else Inr (AtPop, g1\<lparr>priv := (priv g1)\<lparr>pktqueue := snd (pktqueue_check_interrupt q)\<rparr>\<rparr>, s)
     | Some p \<Rightarrow> main_packet g1 p s)"

definition main_act :: "'s gdbstub_t \<Rightarrow> gdb_action_t \<Rightarrow> (main_pc \<times> 's gdbstub_t) res" where
  "main_act g act =
     (case act of
        ACT_RESUME \<Rightarrow> bindE (gdbstub_act_resume g) (\<lambda>g'. Inr (AtPop, g'))
      | ACT_SHUTDOWN \<Rightarrow> Inr (Returned True, g)
      | ACT_NONE \<Rightarrow> Inr (AtPop, g))"

definition main_round :: "'s gdbstub_t \<Rightarrow> 's \<Rightarrow> (main_pc \<times> 's gdbstub_t \<times> 's) res" where
  "main_round g s =
     bindE (main_fetch g s) (\<lambda>(at, g1, s1).
     case at of
       AtEvent event \<Rightarrow>
         bindE (gdbstub_handle_event g1 event s1) (\<lambda>(act, g2, s2).
         bindE (main_act g2 act) (\<lambda>(at', g3). Inr (at', g3, s2)))
     | _ \<Rightarrow> Inr (at, g1, s1))"

fun main_loop :: "nat \<Rightarrow> 's gdbstub_t \<Rightarrow> 's \<Rightarrow> (bool option \<times> 's gdbstub_t \<times> 's) res" where
  "main_loop 0 g s = Inr (None, g, s)"
| "main_loop (Suc n) g s =
     bindE (main_round g s) (\<lambda>(at, g', s').
     case at of Returned b \<Rightarrow> Inr (Some b, g', s') | _ \<Rightarrow> main_loop n g' s')"

text \<open>\<open>create_ok\<close> is the outcome of \<open>pthread_create\<close>.\<close>

definition gdbstub_run ::
    "bool \<Rightarrow> nat \<Rightarrow> 's gdbstub_t \<Rightarrow> 's \<Rightarrow> (bool option \<times> 's gdbstub_t \<times> 's) res" where
  "gdbstub_run create_ok fuel g s =
     (if \<not> reader_running (priv g) then
        let g1 = g\<lparr>priv := async_io_disable ((priv g)\<lparr>thread_stop := False\<rparr>)\<rparr>
        in if \<not> create_ok then Inr (Some False, g1, s)
           else main_loop fuel (g1\<lparr>priv := (priv g1)\<lparr>reader_running := True\<rparr>\<rparr>) s
      else main_loop fuel g s)"

subsection \<open>Replies of the loop\<close>

lemma act_resume_sends: "gdbstub_act_resume g = send g (str ''S05'')"
proof -
  have f: "str ''S'' @ fmt_02x GDB_SIGNAL_TRAP @ [0] = str ''S05'' @ [0]" by code_simp
  have "bindE (buf_puts (buf_new 32) 0 (str ''S05'' @ [0])) (send_buf g) = send g (str ''S05'')"
    by (rule send_buf_new) (simp_all add: str_def ch_def)
  then show ?thesis by (simp only: gdbstub_act_resume_def f)
qed

lemma main_ack_kept: "main_ack g ok = Inr g' \<Longrightarrow> kept g g'"
proof -
  assume a: "main_ack g ok = Inr g'"
  show ?thesis
  proof (cases "no_ack_mode (conn (priv g))")
    case False
    with a obtain c where c: "conn_send_str (conn (priv g)) (if ok then STR_ACK else STR_NACK) = Inr c"
      and g': "g' = g\<lparr>priv := (priv g)\<lparr>conn := c\<rparr>\<rparr>"
      by (auto simp: main_ack_def elim!: bindE_InrE)
    from conn_send_str_kept [OF c] obtain n where
      "c = (conn (priv g))\<lparr>sock_script := sock_script c,
         wire := wire (conn (priv g)) @ take n (if ok then STR_ACK else STR_NACK)\<rparr>" by blast
    then show ?thesis unfolding g' by (rule ssubst) (simp add: kept_def)
  qed (use a in \<open>simp add: main_ack_def\<close>)
qed

lemma main_act_kept: "main_act g act = Inr (at, g') \<Longrightarrow> kept g g'"
  by (auto simp: main_act_def act_resume_sends split: gdb_action_t.split_asm elim!: bindE_InrE intro: send_kept)

lemma main_act_at: "main_act g act = Inr (at, g') \<Longrightarrow> at = AtPop \<or> at = Returned True"
  by (auto simp: main_act_def split: gdb_action_t.split_asm elim!: bindE_InrE)

subsection \<open>What the loop may change\<close>

text \<open>The parts of the stub that survive a round of the loop.\<close>

definition mkept :: "'s gdbstub_t \<Rightarrow> 's gdbstub_t \<Rightarrow> bool" where
  "mkept g g' \<longleftrightarrow> ops g' = ops g \<and> arch g' = arch g \<and>
     thread_stop (priv g') = thread_stop (priv g) \<and> reader_running (priv g') = reader_running (priv g) \<and>
     q_shutdown (pktqueue (priv g')) = q_shutdown (pktqueue (priv g)) \<and>
     send_mutex (conn (priv g')) = send_mutex (conn (priv g)) \<and>
     (\<exists>t. wire (conn (priv g')) = wire (conn (priv g)) @ t)"

lemma mkept_refl [simp]: "mkept g g"
  by (simp add: mkept_def)

lemma mkept_trans: "mkept g g1 \<Longrightarrow> mkept g1 g2 \<Longrightarrow> mkept g g2"
  by (auto simp: mkept_def)

lemma kept_mkept: "kept g g' \<Longrightarrow> mkept g g'"
  by (simp add: kept_def mkept_def)

lemma set_failures_simps [simp]:
  "mkept (set_failures g n) g' \<longleftrightarrow> mkept g g'" "mkept g (set_failures g' n) \<longleftrightarrow> mkept g g'"
  "pktqueue (priv (set_failures g n)) = pktqueue (priv g)" "async_io (priv (set_failures g n)) = async_io (priv g)"
  "failure_count (conn (priv (set_failures g n))) = n" "ops (set_failures g n) = ops g"
  by (simp_all add: set_failures_def mkept_def)

text \<open>The outcome of taking one packet, by its parts: the queue does not change, and the failure
  count stays below the limit unless the loop is left.\<close>

lemma main_packet_ok:
  assumes "main_packet g p s = Inr (at, g', s')" "0 \<le> failure_count (conn (priv g))"
    "failure_count (conn (priv g)) < CONN_MAX_FAILURES"
  shows "mkept g g'" "pktqueue (priv g') = pktqueue (priv g)" "async_io (priv g') = async_io (priv g)"
    "0 \<le> failure_count (conn (priv g'))"
    "failure_count (conn (priv g')) < CONN_MAX_FAILURES \<or> at = Returned False"
    "case at of AtPop \<Rightarrow> True | AtEvent ev \<Rightarrow> (ev = EVENT_CONT \<longrightarrow> cont (ops g') \<noteq> None) \<and>
       (ev = EVENT_STEP \<longrightarrow> stepi (ops g') \<noteq> None) | AtCall ev \<Rightarrow> False | Returned b \<Rightarrow> \<not> b"
proof -
  from assms(1) obtain ok g1 where v: "packet_csum_verify p = Inr ok" and a: "main_ack g ok = Inr g1"
    and rest: "(if \<not> ok then
       (let g2 = set_failures g1 (failure_count (conn (priv g1)) + 1) in
        Inr (if failure_count (conn (priv g2)) \<ge> CONN_MAX_FAILURES then Returned False else AtPop, g2, s))
     else
       bindE (gdbstub_process_packet (set_failures g1 0) p s) (\<lambda>(event, g2, s').
       Inr (AtEvent event, g2, s'))) = Inr (at, g', s')"
    unfolding main_packet_def by (elim bindE_InrE) blast
  note k = main_ack_kept [OF a]
  have same: "pktqueue (priv g1) = pktqueue (priv g)" "async_io (priv g1) = async_io (priv g)"
    "failure_count (conn (priv g1)) = failure_count (conn (priv g))"
    using k by (simp_all add: kept_def)
  have "mkept g g' \<and> pktqueue (priv g') = pktqueue (priv g) \<and> async_io (priv g') = async_io (priv g) \<and>
    0 \<le> failure_count (conn (priv g')) \<and>
    (failure_count (conn (priv g')) < CONN_MAX_FAILURES \<or> at = Returned False) \<and>
    (case at of AtPop \<Rightarrow> True | AtEvent ev \<Rightarrow> (ev = EVENT_CONT \<longrightarrow> cont (ops g') \<noteq> None) \<and>
       (ev = EVENT_STEP \<longrightarrow> stepi (ops g') \<noteq> None) | AtCall ev \<Rightarrow> False | Returned b \<Rightarrow> \<not> b)"
  proof (cases ok)
    case False
    with rest kept_mkept [OF k] same assms(2,3) show ?thesis by (auto simp: Let_def split: if_split_asm)
  next
    case True
    with rest obtain ev where p: "gdbstub_process_packet (set_failures g1 0) p s = Inr (ev, g', s')"
      and at: "at = AtEvent ev"
      by (auto elim!: bindE_InrE)
    from process_packet_dispatch [OF p] obtain c raw n where
      d: "dispatch_request (set_failures g1 0) c raw n s = Inr (ev, g', s')" by blast
    note k2 = dispatch_kept [OF d] and e = dispatch_event [OF d]
    have "mkept g g'" using kept_mkept [OF k] kept_mkept [OF k2] mkept_trans by auto
    then show ?thesis using k2 same e at by (auto simp: kept_def CONN_MAX_FAILURES_def)
  qed
  then show "mkept g g'" "pktqueue (priv g') = pktqueue (priv g)" "async_io (priv g') = async_io (priv g)"
    "0 \<le> failure_count (conn (priv g'))"
    "failure_count (conn (priv g')) < CONN_MAX_FAILURES \<or> at = Returned False"
    "case at of AtPop \<Rightarrow> True | AtEvent ev \<Rightarrow> (ev = EVENT_CONT \<longrightarrow> cont (ops g') \<noteq> None) \<and>
       (ev = EVENT_STEP \<longrightarrow> stepi (ops g') \<noteq> None) | AtCall ev \<Rightarrow> False | Returned b \<Rightarrow> \<not> b"
    by auto
qed

subsection \<open>Rounds of the loop\<close>

text \<open>What keeps the loop going: the packets in the queue and a pending signal.\<close>

definition work :: "'s gdbstub_t \<Rightarrow> nat" where
  "work g = length (q_contents (pktqueue (priv g))) + (if q_interrupted (pktqueue (priv g)) then 1 else 0)"

definition counting :: "'s gdbstub_t \<Rightarrow> bool" where
  "counting g \<longleftrightarrow> 0 \<le> failure_count (conn (priv g)) \<and> failure_count (conn (priv g)) < CONN_MAX_FAILURES"

lemma main_fetch_ok:
  assumes "main_fetch g s = Inr (at, g', s')" "q_inv (pktqueue (priv g))" "counting g"
  shows "mkept g g' \<and> q_inv (pktqueue (priv g')) \<and> async_io (priv g') = async_io (priv g) \<and>
    (counting g' \<or> at = Returned False) \<and> (work g' < work g \<or> at = Returned True) \<and>
    (case at of AtPop \<Rightarrow> True | AtEvent ev \<Rightarrow> (ev = EVENT_CONT \<longrightarrow> cont (ops g') \<noteq> None) \<and>
       (ev = EVENT_STEP \<longrightarrow> stepi (ops g') \<noteq> None) | AtCall ev \<Rightarrow> False
     | Returned b \<Rightarrow> b \<longrightarrow> q_shutdown (pktqueue (priv g')) \<and> q_contents (pktqueue (priv g')) = [])"
proof -
  let ?q = "pktqueue (priv g)"
  from pq.pop_cases [OF assms(2)] show ?thesis
  proof (elim disjE exE conjE)
    fix p ps q
    assume c: "q_contents ?q = p # ps" "pktqueue_pop ?q = Inr (Some p, q)" "q_contents q = ps"
      "(q_shutdown q, q_interrupted q) = (q_shutdown ?q, q_interrupted ?q)" "q_inv q"
    let ?g1 = "g\<lparr>priv := (priv g)\<lparr>pktqueue := q\<rparr>\<rparr>"
    from assms(1) c(2) have m: "main_packet ?g1 p s = Inr (at, g', s')" by (simp add: main_fetch_def Let_def)
    have cnt: "0 \<le> failure_count (conn (priv ?g1))" "failure_count (conn (priv ?g1)) < CONN_MAX_FAILURES"
      using assms(3) by (simp_all add: counting_def)
    note ok = main_packet_ok [OF m cnt]
    have "mkept g g'" using ok(1) c(4) by (simp add: mkept_def)
    moreover have "work g' < work g" using ok(2) c(1,3,4) by (simp add: work_def)
    moreover have "counting g' \<or> at = Returned False" using ok(4,5) by (auto simp: counting_def)
    ultimately show ?thesis using ok(2,3,6) c(5) by (auto split: main_pc.splits)
  next
    assume c: "q_contents ?q = []" "(q_shutdown ?q, q_interrupted ?q) \<noteq> (False, False)" "pktqueue_pop ?q = Inr (None, ?q)"
    show ?thesis
    proof (cases "q_shutdown ?q")
      case True
      with assms c show ?thesis
        by (auto simp: main_fetch_def Let_def pktqueue_is_shutdown_def mkept_def counting_def)
    next
      case False
      with c(2) have "q_interrupted ?q" by simp
      with False assms c show ?thesis
        by (auto simp: main_fetch_def Let_def pktqueue_is_shutdown_def mkept_def counting_def work_def q_flag_defs)
    qed
  qed (use assms(1) in \<open>simp add: main_fetch_def\<close>)
qed

lemma handle_event_stub:
  "gdbstub_handle_event g ev s = Inr (act, g', s') \<Longrightarrow> g' = event_stop (event_start g ev) ev"
  by (auto simp: gdbstub_handle_event_def Let_def elim!: bindE_InrE)

lemma event_flag_simps [simp]:
  "mkept g (event_start g ev)" "mkept (event_start g ev) g' \<longleftrightarrow> mkept g g'"
  "mkept g (event_stop g' ev) \<longleftrightarrow> mkept g g'"
  "pktqueue (priv (event_start g ev)) = pktqueue (priv g)" "pktqueue (priv (event_stop g ev)) = pktqueue (priv g)"
  "conn (priv (event_start g ev)) = conn (priv g)" "conn (priv (event_stop g ev)) = conn (priv g)"
  "ops (event_start g ev) = ops g" "ops (event_stop g ev) = ops g"
  by (auto simp: event_start_def event_stop_def async_io_enable_def async_io_disable_def mkept_def
      split: gdb_event_t.split)

lemma event_flag:
  "async_io (priv (event_start g ev)) = (ev = EVENT_CONT \<or> async_io (priv g))"
  "async_io (priv (event_stop g ev)) = (ev \<noteq> EVENT_CONT \<and> async_io (priv g))"
  by (auto simp: event_start_def event_stop_def async_io_enable_def async_io_disable_def
      split: gdb_event_t.split)

lemma main_act_ok:
  assumes "main_act g act = Inr (at, g')"
  shows "mkept g g'" "pktqueue (priv g') = pktqueue (priv g)" "counting g' = counting g"
    "async_io (priv g') = async_io (priv g)"
  using main_act_kept [OF assms] by (simp_all add: kept_mkept kept_def counting_def)

lemma main_round_ok:
  assumes "main_round g s = Inr (at, g', s')" "q_inv (pktqueue (priv g))" "counting g"
  shows "q_inv (pktqueue (priv g')) \<and> (counting g' \<or> at = Returned False) \<and>
    (work g' < work g \<or> at = Returned True)"
proof -
  from assms(1) obtain at1 g1 s1 where f: "main_fetch g s = Inr (at1, g1, s1)"
    and rest: "(case at1 of
       AtEvent event \<Rightarrow>
         bindE (gdbstub_handle_event g1 event s1) (\<lambda>(act, g2, s2).
         bindE (main_act g2 act) (\<lambda>(at', g3). Inr (at', g3, s2)))
     | _ \<Rightarrow> Inr (at1, g1, s1)) = Inr (at, g', s')"
    unfolding main_round_def by (auto elim!: bindE_InrE)
  note ok = main_fetch_ok [OF f assms(2,3)]
  show ?thesis
  proof (cases at1)
    case (AtEvent ev)
    with rest obtain act g2 s2 where h: "gdbstub_handle_event g1 ev s1 = Inr (act, g2, s2)"
      and a: "main_act g2 act = Inr (at, g')"
      by (auto elim!: bindE_InrE)
    have "pktqueue (priv g') = pktqueue (priv g1)" "counting g' = counting g1"
      using main_act_ok [OF a] unfolding handle_event_stub [OF h] by (simp_all add: counting_def)
    then show ?thesis using ok AtEvent by (simp add: work_def)
  qed (use ok rest in auto)
qed

lemma main_loop_fuel:
  "work g < n \<Longrightarrow> q_inv (pktqueue (priv g)) \<Longrightarrow> counting g \<Longrightarrow> main_loop n g s \<noteq> Inr (None, g', s')"
proof (induction n arbitrary: g s)
  case (Suc n)
  show ?case
  proof
    assume "main_loop (Suc n) g s = Inr (None, g', s')"
    then obtain at g1 s1 where r: "main_round g s = Inr (at, g1, s1)"
      and rest: "(case at of Returned b \<Rightarrow> Inr (Some b, g1, s1) | _ \<Rightarrow> main_loop n g1 s1) = Inr (None, g', s')"
      by (auto elim!: bindE_InrE)
    from main_round_ok [OF r Suc.prems(2,3)] Suc.prems(1) Suc.IH [of g1 s1] rest
    show False by (cases at) auto
  qed
qed simp

subsection \<open>Bad and good packets\<close>

definition with_queue :: "'s gdbstub_t \<Rightarrow> pktqueue_t \<Rightarrow> 's gdbstub_t" where
  "with_queue g q = g\<lparr>priv := (priv g)\<lparr>pktqueue := q\<rparr>\<rparr>"

definition sent :: "'s gdbstub_t \<Rightarrow> sock_ev list \<Rightarrow> byte list \<Rightarrow> 's gdbstub_t" where
  "sent g evs t = g\<lparr>priv := (priv g)\<lparr>conn := (conn (priv g))\<lparr>sock_script := evs, wire := wire (conn (priv g)) @ t\<rparr>\<rparr>\<rparr>"

lemma sent_simps [simp]:
  "pktqueue (priv (sent g evs t)) = pktqueue (priv g)" "sock_script (conn (priv (sent g evs t))) = evs"
  "wire (conn (priv (sent g evs t))) = wire (conn (priv g)) @ t" "ops (sent g evs t) = ops g"
  "send_mutex (conn (priv (sent g evs t))) = send_mutex (conn (priv g))"
  "no_ack_mode (conn (priv (sent g evs t))) = no_ack_mode (conn (priv g))"
  "failure_count (conn (priv (sent g evs t))) = failure_count (conn (priv g))"
  "async_io (priv (sent g evs t)) = async_io (priv g)"
  by (simp_all add: sent_def)

lemma with_queue_simps [simp]:
  "pktqueue (priv (with_queue g q)) = q" "conn (priv (with_queue g q)) = conn (priv g)"
  "ops (with_queue g q) = ops g" "async_io (priv (with_queue g q)) = async_io (priv g)"
  by (simp_all add: with_queue_def)

lemma set_failures_conn [simp]:
  "sock_script (conn (priv (set_failures g n))) = sock_script (conn (priv g))"
  "wire (conn (priv (set_failures g n))) = wire (conn (priv g))"
  "send_mutex (conn (priv (set_failures g n))) = send_mutex (conn (priv g))"
  "no_ack_mode (conn (priv (set_failures g n))) = no_ack_mode (conn (priv g))"
  by (simp_all add: set_failures_def)

lemma length_ack [simp]: "length STR_ACK = 1" "length STR_NACK = 1"
  by (simp_all add: STR_ACK_def STR_NACK_def str_def)

text \<open>The socket takes the answer at once.\<close>

lemma main_ack_sent:
  assumes "\<not> send_mutex (conn (priv g))" "\<not> no_ack_mode (conn (priv g))" "sock_script (conn (priv g)) = Wrote n # evs" "0 < n"
  shows "main_ack g ok = Inr (sent g evs (if ok then STR_ACK else STR_NACK))"
proof -
  have "STR_ACK \<noteq> []" "STR_NACK \<noteq> []" by (simp_all add: STR_ACK_def STR_NACK_def str_def)
  with assms show ?thesis
    by (cases ok) (simp_all add: main_ack_def conn_send_str_def conn_send_raw_def sent_def)
qed

lemma main_fetch_packet:
  assumes "q_inv (pktqueue (priv g))" "q_contents (pktqueue (priv g)) = p # ps"
  shows "\<exists>q. main_fetch g s = main_packet (with_queue g q) p s \<and> q_inv q \<and> q_contents q = ps \<and>
    q_shutdown q = q_shutdown (pktqueue (priv g)) \<and> q_interrupted q = q_interrupted (pktqueue (priv g))"
  using pq.pop_item [OF assms] by (auto simp: main_fetch_def Let_def with_queue_def)

lemma bad_packet_round:
  assumes "q_inv (pktqueue (priv g))" "q_contents (pktqueue (priv g)) = p # ps" "packet_csum_verify p = Inr False"
    and "\<not> send_mutex (conn (priv g))" "\<not> no_ack_mode (conn (priv g))" "sock_script (conn (priv g)) = Wrote n # evs" "0 < n"
  shows "\<exists>q. q_inv q \<and> q_contents q = ps \<and> main_round g s =
    Inr (if failure_count (conn (priv g)) + 1 \<ge> CONN_MAX_FAILURES then Returned False else AtPop,
      set_failures (sent (with_queue g q) evs STR_NACK) (failure_count (conn (priv g)) + 1), s)"
proof -
  obtain q where q: "main_fetch g s = main_packet (with_queue g q) p s" "q_inv q" "q_contents q = ps"
    using main_fetch_packet [OF assms(1,2)] by blast
  have "main_ack (with_queue g q) False = Inr (sent (with_queue g q) evs STR_NACK)"
    using main_ack_sent [of "with_queue g q"] assms(4-7) by simp
  with q assms(3) show ?thesis
    by (intro exI [of _ q]) (simp add: main_round_def main_packet_def Let_def)
qed

lemma good_packet_round:
  assumes "q_inv (pktqueue (priv g))" "q_contents (pktqueue (priv g)) = request p # ps"
    and "\<not> send_mutex (conn (priv g))" "\<not> no_ack_mode (conn (priv g))" "sock_script (conn (priv g)) = Wrote n # evs" "0 < n"
  shows "\<exists>q. q_inv q \<and> q_contents q = ps \<and> main_fetch g s =
    bindE (gdbstub_process_packet (set_failures (sent (with_queue g q) evs STR_ACK) 0) (request p) s)
      (\<lambda>(event, g2, s'). Inr (AtEvent event, g2, s')) \<and>
    q_shutdown q = q_shutdown (pktqueue (priv g)) \<and> q_interrupted q = q_interrupted (pktqueue (priv g))"
proof -
  obtain q where q: "main_fetch g s = main_packet (with_queue g q) (request p) s" "q_inv q" "q_contents q = ps"
    "q_shutdown q = q_shutdown (pktqueue (priv g))" "q_interrupted q = q_interrupted (pktqueue (priv g))"
    using main_fetch_packet [OF assms(1,2)] by blast
  have "main_ack (with_queue g q) True = Inr (sent (with_queue g q) evs STR_ACK)"
    using main_ack_sent [of "with_queue g q"] assms(3-6) by simp
  moreover have "packet_csum_verify (request p) = Inr True"
    using packet_csum_verify_spec [of p] by (simp add: request_def frame_def hex_pair_def frame_csum)
  ultimately show ?thesis using q
    by (intro exI [of _ q]) (simp add: main_packet_def)
qed

text \<open>The bad packets at the front of the queue, while the limit is not reached.\<close>

lemma bad_packets_run:
  assumes "q_inv (pktqueue (priv g))" "q_contents (pktqueue (priv g)) = bad @ rest"
    and "\<forall>p \<in> set bad. packet_csum_verify p = Inr False" "\<not> send_mutex (conn (priv g))"
    and "\<not> no_ack_mode (conn (priv g))" "sock_script (conn (priv g)) = map Wrote ns @ evs" "0 \<notin> set ns" "length ns = length bad"
    and "failure_count (conn (priv g)) + int (length bad) < CONN_MAX_FAILURES"
  shows "\<exists>g'. main_loop (length bad + n) g s = main_loop n g' s \<and> q_inv (pktqueue (priv g')) \<and>
    q_contents (pktqueue (priv g')) = rest \<and> \<not> send_mutex (conn (priv g')) \<and> \<not> no_ack_mode (conn (priv g')) \<and>
    sock_script (conn (priv g')) = evs \<and> failure_count (conn (priv g')) = failure_count (conn (priv g)) + int (length bad) \<and>
    wire (conn (priv g')) = wire (conn (priv g)) @ concat (replicate (length bad) STR_NACK)"
  using assms
proof (induction bad arbitrary: g ns)
  case Nil
  then show ?case by (intro exI [of _ g]) simp
next
  case (Cons p bad)
  obtain k ns' where ns: "ns = k # ns'" using Cons.prems(8) by (cases ns) auto
  have bad: "packet_csum_verify p = Inr False" and k: "0 < k" using Cons.prems(3,7) ns by auto
  obtain q where q: "q_inv q" "q_contents q = bad @ rest" "main_round g s =
    Inr (AtPop, set_failures (sent (with_queue g q) (map Wrote ns' @ evs) STR_NACK) (failure_count (conn (priv g)) + 1), s)"
    using bad_packet_round [OF Cons.prems(1) _ bad Cons.prems(4,5) _ k, of "bad @ rest" "map Wrote ns' @ evs" s]
      Cons.prems(2,6,9) ns by auto
  define g1 where "g1 = set_failures (sent (with_queue g q) (map Wrote ns' @ evs) STR_NACK) (failure_count (conn (priv g)) + 1)"
  have "main_loop (length (p # bad) + n) g s = main_loop (length bad + n) g1 s"
    using q(3) by (simp add: g1_def)
  moreover have "\<exists>g'. main_loop (length bad + n) g1 s = main_loop n g' s \<and> q_inv (pktqueue (priv g')) \<and>
    q_contents (pktqueue (priv g')) = rest \<and> \<not> send_mutex (conn (priv g')) \<and> \<not> no_ack_mode (conn (priv g')) \<and>
    sock_script (conn (priv g')) = evs \<and> failure_count (conn (priv g')) = failure_count (conn (priv g1)) + int (length bad) \<and>
    wire (conn (priv g')) = wire (conn (priv g1)) @ concat (replicate (length bad) STR_NACK)"
    by (rule Cons.IH [of g1 ns']) (use q(1,2) Cons.prems ns in \<open>auto simp: g1_def\<close>)
  ultimately show ?case by (auto simp: g1_def)
qed

lemma send_now:
  assumes "\<not> send_mutex (conn (priv g))" "sock_script (conn (priv g)) = Wrote n # evs" "length t + 4 \<le> n"
    "length t \<le> 4090" "0 \<notin> set t"
  shows "send g t = Inr (sent g evs (frame t))"
proof -
  have "length (frame t) \<le> n" "frame t \<noteq> []" using assms(3) by (simp_all add: frame_def)
  then have "conn_send_str (conn (priv g)) (frame t) =
      Inr ((conn (priv g))\<lparr>sock_script := evs, wire := wire (conn (priv g)) @ frame t\<rparr>)"
    using assms(1,2) by (simp add: conn_send_str_def conn_send_raw_def)
  then show ?thesis using conn_send_pktstr_frame [OF assms(4,5)] by (simp add: send_def sent_def)
qed

subsection \<open>Running and detaching\<close>

lemma resume_fetch:
  assumes "q_inv (pktqueue (priv g))" "q_contents (pktqueue (priv g)) = request (c # p) # ps"
    and "\<not> send_mutex (conn (priv g))" "\<not> no_ack_mode (conn (priv g))"
    and "sock_script (conn (priv g)) = Wrote a # evs" "0 < a"
    and "c = ch CHR ''c'' \<and> cont (ops g) = Some f \<or> c = ch CHR ''s'' \<and> stepi (ops g) = Some f"
  shows "\<exists>g1 ev. main_fetch g s = Inr (AtEvent ev, g1, s) \<and> (\<forall>s. event_call (event_start g1 ev) ev s = f s) \<and>
    sock_script (conn (priv g1)) = evs \<and> wire (conn (priv g1)) = wire (conn (priv g)) @ STR_ACK \<and>
    q_contents (pktqueue (priv g1)) = ps \<and> \<not> send_mutex (conn (priv g1)) \<and> async_io (priv g1) = async_io (priv g)"
proof -
  define ev where "ev = (if c = ch CHR ''c'' then EVENT_CONT else EVENT_STEP)"
  obtain q where q: "q_contents q = ps" "main_fetch g s =
    bindE (gdbstub_process_packet (set_failures (sent (with_queue g q) evs STR_ACK) 0) (request (c # p)) s)
      (\<lambda>(event, g2, s'). Inr (AtEvent event, g2, s'))"
    using good_packet_round [OF assms(1-6)] by blast
  define g1 where "g1 = set_failures (sent (with_queue g q) evs STR_ACK) 0"
  have "gdbstub_process_packet g1 (request (c # p)) s = Inr (ev, g1, s)"
    using assms(7) by (auto simp: request_run process_cont_def process_stepi_def with_event_def g1_def ev_def)
  then have "main_fetch g s = Inr (AtEvent ev, g1, s)" using q(2) by (simp add: g1_def)
  moreover have "\<forall>s. event_call (event_start g1 ev) ev s = f s"
    using assms(7) by (auto simp: event_call_def call_def g1_def ev_def)
  ultimately show ?thesis using assms(3) q(1) by (intro exI [of _ g1] exI [of _ ev]) (simp add: g1_def)
qed

lemma resume_round:
  assumes "q_inv (pktqueue (priv g))" "q_contents (pktqueue (priv g)) = request (c # p) # ps"
    and "\<not> send_mutex (conn (priv g))" "\<not> no_ack_mode (conn (priv g))" "\<not> async_io (priv g)"
    and "sock_script (conn (priv g)) = Wrote a # Wrote b # evs" "0 < a" "7 \<le> b"
    and "c = ch CHR ''c'' \<and> cont (ops g) = Some f \<or> c = ch CHR ''s'' \<and> stepi (ops g) = Some f"
    and "f s = Inr (act, s')"
  shows "\<exists>g'. main_round g s = Inr (if act = ACT_SHUTDOWN then Returned True else AtPop, g', s') \<and>
    wire (conn (priv g')) = wire (conn (priv g)) @ STR_ACK @ (if act = ACT_RESUME then frame (str ''S05'') else []) \<and>
    q_contents (pktqueue (priv g')) = ps \<and> \<not> async_io (priv g')"
proof -
  obtain g1 ev where g1: "main_fetch g s = Inr (AtEvent ev, g1, s)" "\<forall>s. event_call (event_start g1 ev) ev s = f s"
    "sock_script (conn (priv g1)) = Wrote b # evs" "wire (conn (priv g1)) = wire (conn (priv g)) @ STR_ACK"
    "q_contents (pktqueue (priv g1)) = ps" "\<not> send_mutex (conn (priv g1))" "\<not> async_io (priv g1)"
    using resume_fetch [OF assms(1-4,6,7,9), of s] assms(5) by blast
  define g2 where "g2 = event_stop (event_start g1 ev) ev"
  have handle: "gdbstub_handle_event g1 ev s = Inr (act, g2, s')"
    using g1(2) assms(10) by (simp add: gdbstub_handle_event_def Let_def g2_def)
  have g2: "wire (conn (priv g2)) = wire (conn (priv g)) @ STR_ACK" "q_contents (pktqueue (priv g2)) = ps"
    "\<not> async_io (priv g2)" "\<not> send_mutex (conn (priv g2))" "sock_script (conn (priv g2)) = Wrote b # evs"
    using g1 by (simp_all add: g2_def event_flag)
  have "main_act g2 ACT_RESUME = Inr (AtPop, sent g2 evs (frame (str ''S05'')))"
    using send_now [OF g2(4,5), of "str ''S05''"] assms(8)
    by (simp add: main_act_def act_resume_sends str_def ch_def)
  then show ?thesis
    using g1(1) handle g2 by (cases act) (simp_all add: main_round_def main_act_def)
qed

lemma resume_fault:
  assumes "q_inv (pktqueue (priv g))" "q_contents (pktqueue (priv g)) = request (c # p) # ps"
    and "\<not> send_mutex (conn (priv g))" "\<not> no_ack_mode (conn (priv g))"
    and "sock_script (conn (priv g)) = Wrote a # evs" "0 < a"
    and "c = ch CHR ''c'' \<and> cont (ops g) = Some f \<or> c = ch CHR ''s'' \<and> stepi (ops g) = Some f" "f s = Inl err"
  shows "main_round g s = Inl err"
proof -
  obtain g1 ev where "main_fetch g s = Inr (AtEvent ev, g1, s)" "\<forall>s. event_call (event_start g1 ev) ev s = f s"
    using resume_fetch [OF assms(1-7), of s] by blast
  with assms(8) show ?thesis by (simp add: main_round_def gdbstub_handle_event_def Let_def)
qed

text \<open>Detaching.  \<open>D\<close> is acknowledged and answered with \<open>OK\<close> before the session ends with
  success; the target is left as it is.\<close>

lemma detach_ends_session:
  assumes "q_inv (pktqueue (priv g))" "q_contents (pktqueue (priv g)) = request (ch CHR ''D'' # p) # ps"
    and "\<not> send_mutex (conn (priv g))" "\<not> no_ack_mode (conn (priv g))"
    and "sock_script (conn (priv g)) = Wrote a # Wrote b # evs" "0 < a" "6 \<le> b"
  shows "\<exists>g'. main_loop (Suc n) g s = Inr (Some True, g', s) \<and>
    wire (conn (priv g')) = wire (conn (priv g)) @ STR_ACK @ frame (str ''OK'')"
proof -
  obtain q where q: "main_fetch g s =
    bindE (gdbstub_process_packet (set_failures (sent (with_queue g q) (Wrote b # evs) STR_ACK) 0) (request (ch CHR ''D'' # p)) s)
      (\<lambda>(event, g2, s'). Inr (AtEvent event, g2, s'))"
    using good_packet_round [OF assms(1-6)] by blast
  define g1 where "g1 = set_failures (sent (with_queue g q) (Wrote b # evs) STR_ACK) 0"
  have "send g1 (str ''OK'') = Inr (sent g1 evs (frame (str ''OK'')))"
    by (rule send_now) (use assms in \<open>simp_all add: g1_def str_def ch_def\<close>)
  then have "main_fetch g s = Inr (AtEvent EVENT_DETACH, sent g1 evs (frame (str ''OK'')), s)"
    using q by (simp add: g1_def request_run)
  then show ?thesis
    by (simp add: main_round_def gdbstub_handle_event_def event_call_def event_start_def event_stop_def main_act_def g1_def)
qed

subsection \<open>Properties\<close>

text \<open>C12.  A peer that sends garbage is cut off: each packet with a wrong checksum is discarded and
  answered with \<open>-\<close>, and the fiftieth in a row ends \<open>gdbstub_run\<close> with failure.  Nothing is
  dispatched and the target is untouched.\<close>

theorem fifty_bad_packets_disconnect:
  assumes "q_inv (pktqueue (priv g))" "q_contents (pktqueue (priv g)) = bad @ rest" "length bad = 50"
    and "\<forall>p \<in> set bad. packet_csum_verify p = Inr False" "failure_count (conn (priv g)) = 0"
    and "\<not> send_mutex (conn (priv g))" "\<not> no_ack_mode (conn (priv g))"
    and "sock_script (conn (priv g)) = map Wrote ns @ evs" "0 \<notin> set ns" "length ns = 50"
  shows "(\<exists>g'. main_loop (50 + n) g s = Inr (Some False, g', s) \<and> q_contents (pktqueue (priv g')) = rest \<and>
      wire (conn (priv g')) = wire (conn (priv g)) @ concat (replicate 50 STR_NACK)) \<and>
    (\<exists>g'. main_loop 49 g s = Inr (None, g', s) \<and> failure_count (conn (priv g')) = 49)"
proof -
  obtain b1 last where b: "bad = b1 @ [last]" using assms(3) by (cases bad rule: rev_cases) auto
  obtain n1 k where ns: "ns = n1 @ [k]" using assms(10) by (cases ns rule: rev_cases) auto
  have lens: "length b1 = 49" "length n1 = 49" using assms(3,10) b ns by auto
  have run: "\<exists>g1. main_loop (length b1 + m) g s = main_loop m g1 s \<and> q_inv (pktqueue (priv g1)) \<and>
    q_contents (pktqueue (priv g1)) = last # rest \<and> \<not> send_mutex (conn (priv g1)) \<and> \<not> no_ack_mode (conn (priv g1)) \<and>
    sock_script (conn (priv g1)) = Wrote k # evs \<and> failure_count (conn (priv g1)) = failure_count (conn (priv g)) + int (length b1) \<and>
    wire (conn (priv g1)) = wire (conn (priv g)) @ concat (replicate (length b1) STR_NACK)" for m
    by (rule bad_packets_run [where ns = n1]) (use assms b ns lens in \<open>auto simp: CONN_MAX_FAILURES_def\<close>)
  from run [of "Suc n"] obtain g1 where g1: "main_loop (49 + Suc n) g s = main_loop (Suc n) g1 s" "q_inv (pktqueue (priv g1))"
    "q_contents (pktqueue (priv g1)) = last # rest" "\<not> send_mutex (conn (priv g1))" "\<not> no_ack_mode (conn (priv g1))"
    "sock_script (conn (priv g1)) = Wrote k # evs" "failure_count (conn (priv g1)) = 49"
    "wire (conn (priv g1)) = wire (conn (priv g)) @ concat (replicate 49 STR_NACK)"
    using lens assms(5) by auto
  have bad: "packet_csum_verify last = Inr False" and k: "0 < k" using assms(4,9) b ns by auto
  obtain q where q: "q_contents q = rest" "main_round g1 s =
      Inr (Returned False, set_failures (sent (with_queue g1 q) evs STR_NACK) 50, s)"
    using bad_packet_round [OF g1(2,3) bad g1(4-6) k, of s] g1(7) by (auto simp: CONN_MAX_FAILURES_def)
  have rep: "replicate 50 STR_NACK = replicate 49 STR_NACK @ [STR_NACK]"
    by (simp add: replicate_append_same flip: replicate_Suc)
  have "main_loop (50 + n) g s = Inr (Some False, set_failures (sent (with_queue g1 q) evs STR_NACK) 50, s)"
    using g1(1) q(2) by simp
  moreover have "\<exists>g'. main_loop 49 g s = Inr (None, g', s) \<and> failure_count (conn (priv g')) = 49"
    using run [of 0] lens assms(5) by auto
  ultimately show ?thesis using q(1) g1(8) by (auto simp: rep)
qed


text \<open>C24.  Resuming.  \<open>c\<close> and \<open>s\<close> acknowledge the packet, run the target's callback, and answer with
  the stop reply \<open>S05\<close> when it returns \<open>ACT_RESUME\<close>; \<open>ACT_SHUTDOWN\<close> ends the session with success.
  The flag that lets the reader interrupt the target is lowered again.\<close>

theorem resume_stop_reply:
  assumes "q_inv (pktqueue (priv g))" "q_contents (pktqueue (priv g)) = request (c # p) # ps"
    and "\<not> send_mutex (conn (priv g))" "\<not> no_ack_mode (conn (priv g))" "\<not> async_io (priv g)"
    and "sock_script (conn (priv g)) = Wrote a # Wrote b # evs" "0 < a" "7 \<le> b"
    and "c = ch CHR ''c'' \<and> cont (ops g) = Some f \<or> c = ch CHR ''s'' \<and> stepi (ops g) = Some f"
    and "f s = Inr (act, s')"
  shows "\<exists>g'. main_round g s = Inr (if act = ACT_SHUTDOWN then Returned True else AtPop, g', s') \<and>
    wire (conn (priv g')) = wire (conn (priv g)) @ STR_ACK @ (if act = ACT_RESUME then frame (str ''S05'') else []) \<and>
    q_contents (pktqueue (priv g')) = ps \<and> \<not> async_io (priv g')"
  using assms by (rule resume_round)

subsection \<open>Examples\<close>

text \<open>A stub with these packets in its queue.\<close>

definition queue_of :: "packet_t list \<Rightarrow> pktqueue_t" where
  "queue_of ps = projr (push_all pktqueue_push (snd (pktqueue_init True True)) ps)"

lemma queue_of: "q_inv (queue_of ps)" "q_contents (queue_of ps) = ps"
  using pq.push_all_contents [of "snd (pktqueue_init True True)" ps] q_inv_init by (auto simp: queue_of_def)

definition main_stub :: "'s target_ops \<Rightarrow> packet_t list \<Rightarrow> sock_ev list \<Rightarrow> 's gdbstub_t" where
  "main_stub tops ps evs = with_queue (stub0 tops \<lparr>target_desc = None, smp = 1, reg_num = 2\<rparr> 3 evs) (queue_of ps)"

lemma main_stub_simps [simp]:
  "pktqueue (priv (main_stub tops ps evs)) = queue_of ps" "ops (main_stub tops ps evs) = tops"
  "sock_script (conn (priv (main_stub tops ps evs))) = evs" "wire (conn (priv (main_stub tops ps evs))) = []"
  "failure_count (conn (priv (main_stub tops ps evs))) = 0"
  "\<not> send_mutex (conn (priv (main_stub tops ps evs)))" "\<not> no_ack_mode (conn (priv (main_stub tops ps evs)))"
  "\<not> async_io (priv (main_stub tops ps evs))"
  by (simp_all add: main_stub_def stub0_def conn0_def)

definition bad_g :: packet_t where
  "bad_g = \<lparr>pkt_end_pos = 4, pkt_data = str ''$g#00'' @ [0]\<rparr>"

theorem fifty_bad_packets_disconnect_witness:
  "(\<exists>g'. main_loop 50 (main_stub pair_ops (replicate 50 bad_g) (replicate 50 (Wrote 1))) (1, [2, 3]) =
      Inr (Some False, g', (1, [2, 3])) \<and> wire (conn (priv g')) = concat (replicate 50 STR_NACK))"
proof -
  have "packet_csum_verify bad_g = Inr False" by code_simp
  then show ?thesis
    using fifty_bad_packets_disconnect [of "main_stub pair_ops (replicate 50 bad_g) (replicate 50 (Wrote 1))"
        "replicate 50 bad_g" "[]" "replicate 50 1" "[]" 0 "(1, [2, 3])"] queue_of
    by (auto simp: map_replicate)
qed


theorem resume_stop_reply_witness:
  "\<exists>g'. main_round (main_stub (pair_ops\<lparr>stepi := Some (\<lambda>s. Inr (ACT_RESUME, s))\<rparr>) [request (str ''s'')] [Wrote 1, Wrote 7]) (1, [2, 3]) =
     Inr (AtPop, g', (1, [2, 3])) \<and> wire (conn (priv g')) = STR_ACK @ frame (str ''S05'')"
  using resume_stop_reply [of "main_stub (pair_ops\<lparr>stepi := Some (\<lambda>s. Inr (ACT_RESUME, s))\<rparr>) [request (str ''s'')] [Wrote 1, Wrote 7]"
      "ch CHR ''s''" "[]" "[]" 1 7 "[]" "\<lambda>s. Inr (ACT_RESUME, s)" "(1, [2, 3])" ACT_RESUME "(1, [2, 3])"] queue_of
  by (auto simp: str_def ch_def)

end
