(* ===== verification/System.thy ===== *)
theory System
  imports Reader Run
begin

text \<open>
  The two threads of the stub together: \<open>socket_reader\<close> and the loop of \<open>gdbstub_run\<close> of
  \<^verbatim>\<open>src/src/gdbstub.c\<close> take turns on the shared state.  A turn of the reader is one round of
  its loop; a turn of the main thread goes to the next point at which the reader can matter: after
  a packet is taken and processed, after the interrupt flag is raised, after the callback has
  returned.  Every scheduling of such turns is a run; the properties are invariants of all of them.
\<close>

subsection \<open>Definitions\<close>

record 's sys =
  rbuf :: pktbuf_t
  stub :: "'s gdbstub_t"
  target :: 's
  at :: main_pc
  reader_on :: bool

text \<open>\<open>contended\<close>: the main thread holds the send mutex while the reader tries to acknowledge.\<close>

definition hold_mutex :: "bool \<Rightarrow> 's gdbstub_t \<Rightarrow> 's gdbstub_t" where
  "hold_mutex b g = set_conn g ((conn (priv g))\<lparr>send_mutex := b\<rparr>)"

definition reader_turn :: "bool \<Rightarrow> poll_ev \<Rightarrow> 's sys \<Rightarrow> 's sys res" where
  "reader_turn contended ev c =
     (if \<not> reader_on c then Inr c
      else if thread_stop (priv (stub c)) then 
        Inr (c\<lparr>rbuf := pktbuf_destroy (rbuf c), stub := reader_end (stub c), reader_on := False\<rparr>)
      else bindE (reader_round (rbuf c) (hold_mutex contended (stub c)) (target c) ev) (\<lambda>(go_on, pb, g, s).
        let g' = hold_mutex False g in
        Inr (if go_on then c\<lparr>rbuf := pb, stub := g', target := s\<rparr>
             else c\<lparr>rbuf := pktbuf_destroy pb, stub := reader_end g', target := s, reader_on := False\<rparr>)))"

definition main_turn :: "'s sys \<Rightarrow> 's sys res" where
  "main_turn c =
     (case at c of
        AtPop \<Rightarrow>
          if pktqueue_pop (pktqueue (priv (stub c))) = Inl Blocked then Inr c
          else bindE (main_fetch (stub c) (target c)) (\<lambda>(a, g, s). Inr (c\<lparr>stub := g, target := s, at := a\<rparr>))
      | AtEvent ev \<Rightarrow> Inr (c\<lparr>stub := event_start (stub c) ev, at := AtCall ev\<rparr>)
      | AtCall ev \<Rightarrow>
          bindE (event_call (stub c) ev (target c)) (\<lambda>(act, s).
          bindE (main_act (event_stop (stub c) ev) act) (\<lambda>(a, g).
          Inr (c\<lparr>stub := g, target := s, at := a\<rparr>)))
      | Returned b \<Rightarrow> Inr c)"

inductive sys_step :: "'s sys \<Rightarrow> 's sys \<Rightarrow> bool" where
  reader_moves: "reader_turn contended ev c = Inr c' \<Longrightarrow> sys_step c c'"
| main_moves: "main_turn c = Inr c' \<Longrightarrow> sys_step c c'"

inductive_cases sys_step_elim: "sys_step c c'"

text \<open>The state in which \<open>gdbstub_run\<close> enters its loop for the first time and the reader, which has
  allocated its buffer, enters its own.\<close>

definition sys_start :: "'s gdbstub_t \<Rightarrow> 's \<Rightarrow> 's sys" where
  "sys_start g s = \<lparr>rbuf = snd (pktbuf_init (next_malloc g) (\<lambda>_. 0)),
     stub = (used_malloc g)\<lparr>priv := async_io_disable ((priv g)\<lparr>thread_stop := False, reader_running := True\<rparr>)\<rparr>,
     target = s, at = AtPop, reader_on = True\<rparr>"

inductive sys_reach :: "'s sys \<Rightarrow> 's sys \<Rightarrow> bool" for c0 where
  reach_start: "sys_reach c0 c0"
| reach_step: "sys_reach c0 c \<Longrightarrow> sys_step c c' \<Longrightarrow> sys_reach c0 c'"

subsection \<open>The invariant\<close>

text \<open>The main thread is about to make a call that the target supports.\<close>

fun can_serve :: "'s target_ops \<Rightarrow> main_pc \<Rightarrow> bool" where
  "can_serve os (AtEvent ev) \<longleftrightarrow> (ev = EVENT_CONT \<longrightarrow> cont os \<noteq> None) \<and> (ev = EVENT_STEP \<longrightarrow> stepi os \<noteq> None)"
| "can_serve os (AtCall ev) \<longleftrightarrow> (ev = EVENT_CONT \<longrightarrow> cont os \<noteq> None) \<and> (ev = EVENT_STEP \<longrightarrow> stepi os \<noteq> None)"
| "can_serve os _ \<longleftrightarrow> True"

definition sys_inv :: "'s target_ops \<Rightarrow> 's sys \<Rightarrow> bool" where
  "sys_inv os c \<longleftrightarrow> (reader_on c \<longrightarrow> pb_ok (rbuf c)) \<and> q_inv (pktqueue (priv (stub c))) \<and> ops (stub c) = os \<and>
     \<not> send_mutex (conn (priv (stub c))) \<and> \<not> thread_stop (priv (stub c)) \<and>
     (counting (stub c) \<or> at c = Returned False) \<and>
     (async_io (priv (stub c)) \<longleftrightarrow> at c = AtCall EVENT_CONT) \<and>
     (\<not> reader_on c \<longrightarrow> q_shutdown (pktqueue (priv (stub c)))) \<and> can_serve os (at c)"

lemma hold_mutex_simps [simp]:
  "pktqueue (priv (hold_mutex b g)) = pktqueue (priv g)" "ops (hold_mutex b g) = ops g"
  "send_mutex (conn (priv (hold_mutex b g))) = b" "thread_stop (priv (hold_mutex b g)) = thread_stop (priv g)"
  "async_io (priv (hold_mutex b g)) = async_io (priv g)"
  "failure_count (conn (priv (hold_mutex b g))) = failure_count (conn (priv g))"
  "wire (conn (priv (hold_mutex b g))) = wire (conn (priv g))"
  by (simp_all add: hold_mutex_def)

lemma reader_end_simps [simp]:
  "ops (reader_end g) = ops g" "conn (priv (reader_end g)) = conn (priv g)"
  "async_io (priv (reader_end g)) = async_io (priv g)" "thread_stop (priv (reader_end g)) = thread_stop (priv g)"
  "q_inv (pktqueue (priv (reader_end g))) = q_inv (pktqueue (priv g))"
  "q_shutdown (pktqueue (priv (reader_end g)))"
  by (simp_all add: reader_end_def pktqueue_signal_shutdown_def)

text \<open>A turn of the reader, by its result.\<close>

lemma reader_turn_effect:
  assumes "reader_turn contended ev c = Inr c'" "reader_on c \<longrightarrow> pb_ok (rbuf c)" "q_inv (pktqueue (priv (stub c)))"
    "\<not> thread_stop (priv (stub c))" "\<not> send_mutex (conn (priv (stub c)))"
  shows "(reader_on c' \<longrightarrow> pb_ok (rbuf c')) \<and> q_inv (pktqueue (priv (stub c'))) \<and> ops (stub c') = ops (stub c) \<and>
    \<not> send_mutex (conn (priv (stub c'))) \<and> \<not> thread_stop (priv (stub c')) \<and> counting (stub c') = counting (stub c) \<and>
    async_io (priv (stub c')) = async_io (priv (stub c)) \<and> at c' = at c \<and>
    (q_shutdown (pktqueue (priv (stub c))) \<longrightarrow> q_shutdown (pktqueue (priv (stub c')))) \<and>
    (reader_on c \<and> \<not> reader_on c' \<longrightarrow> q_shutdown (pktqueue (priv (stub c')))) \<and>
    (\<not> async_io (priv (stub c)) \<longrightarrow> target c' = target c) \<and> (reader_on c' \<longrightarrow> reader_on c)"
proof (cases "reader_on c")
  case False
  with assms show ?thesis by (simp add: reader_turn_def)
next
  case True
  from assms(1,4) True obtain go_on pb g s where
    r: "reader_round (rbuf c) (hold_mutex contended (stub c)) (target c) ev = Inr (go_on, pb, g, s)"
    and c': "c' = (if go_on then c\<lparr>rbuf := pb, stub := hold_mutex False g, target := s\<rparr>
      else c\<lparr>rbuf := pktbuf_destroy pb, stub := reader_end (hold_mutex False g), target := s, reader_on := False\<rparr>)"
    by (auto simp: reader_turn_def Let_def elim!: bindE_InrE)
  have "pb_ok (rbuf c)" using assms(2) True by simp
  from reader_round_kept [OF r this] have k: "pb_ok pb" "rkept (hold_mutex contended (stub c)) g"
    "\<not> async_io (priv (stub c)) \<longrightarrow> s = target c" by simp_all
  from k(2) have "ops g = ops (stub c)" "async_io (priv g) = async_io (priv (stub c))"
    "thread_stop (priv g) = thread_stop (priv (stub c))"
    "failure_count (conn (priv g)) = failure_count (conn (priv (stub c)))"
    "q_inv (pktqueue (priv g))" "q_shutdown (pktqueue (priv (stub c))) \<longrightarrow> q_shutdown (pktqueue (priv g))"
    using assms(3) by (simp_all add: rkept_def rconfig_def)
  with k(1,3) assms(4) True show ?thesis unfolding c' by (auto simp: counting_def)
qed

lemma main_turn_inv:
  assumes "main_turn c = Inr c'" "sys_inv os c"
  shows "sys_inv os c'"
proof (cases "at c")
  case AtPop
  show ?thesis
  proof (cases "pktqueue_pop (pktqueue (priv (stub c))) = Inl Blocked")
    case True
    with assms AtPop show ?thesis by (simp add: main_turn_def)
  next
    case False
    with assms(1) AtPop obtain a g s where f: "main_fetch (stub c) (target c) = Inr (a, g, s)"
      and c': "c' = c\<lparr>stub := g, target := s, at := a\<rparr>"
      by (auto simp: main_turn_def elim!: bindE_InrE)
    have i: "q_inv (pktqueue (priv (stub c)))" "counting (stub c)" using assms(2) AtPop by (auto simp: sys_inv_def)
    from main_fetch_ok [OF f i] show ?thesis using assms(2) AtPop unfolding c'
      by (cases a) (auto simp: sys_inv_def mkept_def)
  qed
next
  case (AtEvent ev)
  with assms show ?thesis
    by (cases ev) (auto simp: main_turn_def sys_inv_def counting_def event_start_def async_io_enable_def)
next
  case (AtCall ev)
  with assms(1) obtain act s a g where a: "main_act (event_stop (stub c) ev) act = Inr (a, g)"
    and c': "c' = c\<lparr>stub := g, target := s, at := a\<rparr>"
    by (auto simp: main_turn_def elim!: bindE_InrE)
  have "\<not> async_io (priv (event_stop (stub c) ev))" "counting (stub c)"
    using assms(2) AtCall by (auto simp: sys_inv_def event_flag)
  moreover have "thread_stop (priv (event_stop (stub c) ev)) = thread_stop (priv (stub c))"
    by (simp add: event_stop_def async_io_disable_def split: gdb_event_t.split)
  ultimately show ?thesis
    using main_act_ok [OF a] main_act_at [OF a] assms(2) unfolding c'
    by (auto simp: sys_inv_def mkept_def counting_def)
next
  case (Returned b)
  with assms show ?thesis by (simp add: main_turn_def)
qed

lemma sys_step_inv: "sys_step c c' \<Longrightarrow> sys_inv os c \<Longrightarrow> sys_inv os c'"
proof (erule sys_step_elim)
  fix contended ev assume r: "reader_turn contended ev c = Inr c'" and i: "sys_inv os c"
  from reader_turn_effect [OF r] i show ?thesis by (auto simp: sys_inv_def)
qed (rule main_turn_inv)

lemma sys_reach_inv: "sys_reach c0 c \<Longrightarrow> sys_inv os c0 \<Longrightarrow> sys_inv os c"
  by (induction rule: sys_reach.induct) (auto intro: sys_step_inv)

text \<open>A stub as \<open>gdbstub_init\<close> leaves it.\<close>

definition initialised :: "'s gdbstub_t \<Rightarrow> bool" where
  "initialised g \<longleftrightarrow> q_inv (pktqueue (priv g)) \<and> q_contents (pktqueue (priv g)) = [] \<and>
     \<not> q_shutdown (pktqueue (priv g)) \<and> \<not> q_interrupted (pktqueue (priv g)) \<and>
     failure_count (conn (priv g)) = 0 \<and> \<not> no_ack_mode (conn (priv g)) \<and> \<not> send_mutex (conn (priv g)) \<and>
     rb_inv (regbuf (priv g)) \<and> \<not> reader_running (priv g)"

lemma start_buf_ok: "pb_ok (snd (pktbuf_init ok f))"
  by (simp add: pb_ok_def pb_inv_def pb_null_def pktbuf_init_def pktbuf_clear_def)

lemma sys_start_inv: "initialised g \<Longrightarrow> sys_inv (ops g) (sys_start g s)"
  by (simp add: initialised_def sys_inv_def sys_start_def start_buf_ok counting_def CONN_MAX_FAILURES_def
      async_io_disable_def)

text \<open>A read that brings just the interrupt character, while the target may be interrupted.\<close>

lemma reader_turn_intr:
  assumes "reader_turn contended (PollIn (ReadData [INTR_CHAR])) c = Inr c1" "reader_on c"
    "pb_inv (rbuf c)" "\<not> thread_stop (priv (stub c))" "async_io (priv (stub c))" "on_interrupt (ops (stub c)) = Some f"
    "plenty (stub c)"
  shows "target c1 = f (target c)"
proof -
  from assms(1,2,4) obtain go_on pb g s where
    r: "reader_round (rbuf c) (hold_mutex contended (stub c)) (target c) (PollIn (ReadData [INTR_CHAR])) = Inr (go_on, pb, g, s)"
    and c1: "target c1 = s"
    by (auto simp: reader_turn_def Let_def elim!: bindE_InrE)
  have ne: "[INTR_CHAR] \<noteq> []" by simp
  obtain n where n: "0 < n" "n \<le> length [INTR_CHAR]"
    "s = (if async_io (priv (hold_mutex contended (stub c)))
      then ((case on_interrupt (ops (hold_mutex contended (stub c))) of None \<Rightarrow> id | Some f \<Rightarrow> f) ^^
        count_list (take n [INTR_CHAR]) INTR_CHAR) (target c) else target c)"
    using reader_round_intr [OF r assms(3) ne] plenty_next(1) [OF assms(7)]
    by (auto simp: hold_mutex_def next_malloc_def set_conn_def)
  have one: "n = Suc 0" using n(1,2) by simp
  show ?thesis using n(3) assms(5,6) unfolding one c1 by simp
qed

subsection \<open>One request through both threads\<close>

text \<open>The main thread's turns, taken without the reader in between, are one round of its loop.\<close>

lemma main_turns_round:
  assumes "at c = AtPop" "main_fetch (stub c) (target c) = Inr (AtEvent ev, g, s)"
  shows "bindE (main_turn c) (\<lambda>c1. bindE (main_turn c1) main_turn) =
    bindE (main_round (stub c) (target c)) (\<lambda>(a, g, s). Inr (c\<lparr>stub := g, target := s, at := a\<rparr>))"
proof -
  have "pktqueue_pop (pktqueue (priv (stub c))) \<noteq> Inl Blocked" using assms(2) by (auto simp: main_fetch_def)
  with assms show ?thesis
    by (cases "event_call (event_start g ev) ev s")
      (auto simp: main_turn_def main_round_def gdbstub_handle_event_def Let_def bindE_assoc split_def)
qed

lemma try_ack_now:
  assumes "\<not> send_mutex c" "sock_script c = Wrote n # evs" "0 < n"
  shows "conn_try_send_str c STR_ACK = Inr (True, c\<lparr>sock_script := evs, wire := wire c @ STR_ACK\<rparr>)"
  using assms by (simp add: conn_try_send_str_def conn_send_raw_def STR_ACK_def str_def)

lemma hold_mutex_False: "\<not> send_mutex (conn (priv g)) \<Longrightarrow> hold_mutex False g = g"
  by (simp add: hold_mutex_def set_conn_def)

text \<open>The reader's turn on a read that brings one frame; its acknowledgement is dropped when the main
  thread is sending.\<close>

definition acked :: "bool \<Rightarrow> 's gdbstub_t \<Rightarrow> pktqueue_t \<Rightarrow> sock_ev list \<Rightarrow> 's gdbstub_t" where
  "acked contended g q evs =
     (let g' = with_queue (two_mallocs g) q in if contended then g' else sent g' evs STR_ACK)"

lemma try_ack_acked:
  assumes "\<not> send_mutex (conn (priv g))" "sock_script (conn (priv g)) = Wrote n # evs" "0 < n"
  shows "\<exists>g2. bindE (conn_try_send_str (conn (priv (hold_mutex contended g))) STR_ACK)
      (\<lambda>(ok, cn). Inr (pb, set_conn (set_queue (two_mallocs (hold_mutex contended g)) q) cn)) = Inr (pb, g2) \<and>
    hold_mutex False g2 = acked contended g q evs"
proof (cases contended)
  case True
  then show ?thesis using assms(1)
    by (simp add: conn_try_send_str_def acked_def hold_mutex_def set_conn_def set_queue_def with_queue_def used_malloc_def)
next
  case False
  then have h: "hold_mutex contended g = g" using hold_mutex_False [OF assms(1)] by simp
  show ?thesis unfolding h try_ack_now [OF assms] using assms(1) False
    by (simp add: acked_def hold_mutex_def set_conn_def set_queue_def with_queue_def sent_def)
qed

lemma reader_turn_frame:
  assumes "reader_on c" "\<not> thread_stop (priv (stub c))" "\<not> send_mutex (conn (priv (stub c)))"
    and "pb_inv (rbuf c)" "valid (rbuf c) = []" "ch CHR ''$'' \<notin> set junk" "ch CHR ''#'' \<notin> set p"
    and "INTR_CHAR \<notin> set junk" "INTR_CHAR \<notin> set p" "length junk + length p + 4 \<le> 2 ^ pb_cap (rbuf c)"
    and "q_inv (pktqueue (priv (stub c)))" "plenty (stub c)" "sock_script (conn (priv (stub c))) = Wrote n # evs" "0 < n"
  shows "\<exists>pb q. reader_turn contended (PollIn (ReadData (junk @ frame p))) c =
      Inr (c\<lparr>rbuf := pb, stub := acked contended (stub c) q evs\<rparr>) \<and>
    pb_inv pb \<and> valid pb = [] \<and> pb_cap (rbuf c) \<le> pb_cap pb \<and> q_inv q \<and>
    q_contents q = q_contents (pktqueue (priv (stub c))) @ [request p] \<and>
    q_shutdown q = q_shutdown (pktqueue (priv (stub c))) \<and> q_interrupted q = q_interrupted (pktqueue (priv (stub c)))"
proof -
  let ?g = "hold_mutex contended (stub c)" and ?bs = "junk @ frame p"
  have ne: "?bs \<noteq> []" by (simp add: frame_def)
  have len: "length (valid (rbuf c)) + length ?bs \<le> 2 ^ pb_cap (rbuf c)" using assms(5,10) by (simp add: frame_def)
  obtain pb1 where nf: "\<not> pktbuf_full (rbuf c)"
    and f: "pktbuf_fill_from_file (next_malloc ?g) (rbuf c) (ReadData ?bs) = Inr (int (length ?bs), pb1)"
    "valid pb1 = ?bs" "pb_inv pb1" "take (length ?bs) (drop (pb_size pb1 - length ?bs) (pb_data pb1)) = ?bs"
    "pb_cap (rbuf c) \<le> pb_cap pb1"
    using fill_all [OF assms(4) ne len] assms(5) by auto
  have clean: "INTR_CHAR \<notin> set ?bs" using assms(8) intr_frame [OF assms(9)] by simp
  have g: "q_inv (pktqueue (priv ?g))" "plenty ?g" using assms(11,12) by (simp_all add: hold_mutex_def)
  obtain pb2 q where r: "reader_packets pb1 ?g = bindE (conn_try_send_str (conn (priv ?g)) STR_ACK)
      (\<lambda>(ok, cn). Inr (pb2, set_conn (set_queue (two_mallocs ?g) q) cn))"
    and q: "pb_inv pb2" "valid pb2 = []" "pb_cap pb2 = pb_cap pb1" "q_inv q"
      "q_contents q = q_contents (pktqueue (priv (stub c))) @ [request p]"
      "q_shutdown q = q_shutdown (pktqueue (priv (stub c)))" "q_interrupted q = q_interrupted (pktqueue (priv (stub c)))"
    using reader_packets_frame [OF f(3,2) assms(6,7) g] by auto
  obtain g2 where g2: "reader_packets pb1 ?g = Inr (pb2, g2)" "hold_mutex False g2 = acked contended (stub c) q evs"
    unfolding r using try_ack_acked [OF assms(3,13,14), of contended pb2 q] by blast
  then have "reader_round (rbuf c) ?g (target c) (PollIn (ReadData ?bs)) = Inr (True, pb2, g2, target c)"
    by (simp add: reader_round_data [OF nf f(1,4) ne clean])
  then have "reader_turn contended (PollIn (ReadData ?bs)) c = Inr (c\<lparr>rbuf := pb2, stub := acked contended (stub c) q evs\<rparr>)"
    using assms(1,2) g2(2) by (simp add: reader_turn_def)
  with q f(5) show ?thesis by (intro exI [of _ pb2] exI [of _ q]) simp
qed

subsection \<open>Properties\<close>



text \<open>C19.  When the peer closes the connection the session ends: the reader's turn that reads the end
  of the stream ends the reader and signals the shutdown; from then on the main thread never waits
  for a packet, and once the queue is empty its next turn returns success.\<close>

theorem session_ends_with_peer:
  assumes "initialised g" "sys_reach (sys_start g s) c"
  shows "(\<exists>c1. reader_turn contended (PollIn ReadEOF) c = Inr c1 \<and> \<not> reader_on c1 \<and> at c1 = at c \<and>
      q_contents (pktqueue (priv (stub c1))) = q_contents (pktqueue (priv (stub c)))) \<and>
    (\<not> reader_on c \<longrightarrow> pktqueue_pop (pktqueue (priv (stub c))) \<noteq> Inl Blocked \<and>
      (at c = AtPop \<and> q_contents (pktqueue (priv (stub c))) = [] \<longrightarrow>
        (\<exists>c'. main_turn c = Inr c' \<and> at c' = Returned True)))"
proof -
  have i: "sys_inv (ops g) c" by (rule sys_reach_inv [OF assms(2) sys_start_inv [OF assms(1)]])
  then have q: "q_inv (pktqueue (priv (stub c)))" and pb: "reader_on c \<longrightarrow> pb_ok (rbuf c)"
    and up: "\<not> reader_on c \<longrightarrow> q_shutdown (pktqueue (priv (stub c)))" and ts: "\<not> thread_stop (priv (stub c))"
    by (simp_all add: sys_inv_def)
  have "reader_on c \<longrightarrow> pb_size (rbuf c) \<le> 2 ^ pb_cap (rbuf c)"
    using pb by (auto simp: pb_ok_def pb_inv_def pb_null_def)
  then have "\<exists>c1. reader_turn contended (PollIn ReadEOF) c = Inr c1 \<and> \<not> reader_on c1 \<and> at c1 = at c \<and>
      q_contents (pktqueue (priv (stub c1))) = q_contents (pktqueue (priv (stub c)))"
    using ts by (auto simp: reader_turn_def reader_round_def pktbuf_fill_from_file_def assertE_def Let_def
        reader_end_def q_contents_def pktqueue_signal_shutdown_def)
  moreover have "pktqueue_pop (pktqueue (priv (stub c))) \<noteq> Inl Blocked" if "\<not> reader_on c"
    using pq.pop_cases [OF q] up that by auto
  moreover have "\<exists>c'. main_turn c = Inr c' \<and> at c' = Returned True"
    if "\<not> reader_on c" "at c = AtPop" "q_contents (pktqueue (priv (stub c))) = []"
  proof -
    have "pktqueue_pop (pktqueue (priv (stub c))) = Inr (None, pktqueue (priv (stub c)))"
      using pq.pop_signal [OF q] up that by simp
    then show ?thesis using that up by (simp add: main_turn_def main_fetch_def Let_def pktqueue_is_shutdown_def)
  qed
  ultimately show ?thesis by blast
qed

lemma initialised_stub0: "initialised (stub0 tops a n evs)"
  using q_inv_init rb_inv_init by (simp add: initialised_def stub0_def conn0_def pktqueue_init_def)

definition pair_start :: "(byte \<times> byte list) sys" where
  "pair_start = sys_start (stub0 pair_ops \<lparr>target_desc = None, smp = 1, reg_num = 2\<rparr> 3 []) (1, [2, 3])"



theorem session_ends_with_peer_witness:
  "\<exists>c1. reader_turn False (PollIn ReadEOF) pair_start = Inr c1 \<and> \<not> reader_on c1"
  using session_ends_with_peer [OF initialised_stub0 reach_start, of False pair_ops
      "\<lparr>target_desc = None, smp = 1, reg_num = 2\<rparr>" 3 "[]" "(1, [2, 3])"]
  unfolding pair_start_def by blast

end
