(* ===== verification/Setup.thy ===== *)
theory Setup
  imports System
begin

text \<open>
  Setting up and tearing down: \<open>gdbstub_init\<close> and \<open>gdbstub_close\<close> of \<^verbatim>\<open>src/src/gdbstub.c\<close>.
  The environment decides which allocations and system calls succeed.  \<open>init_st\<close> keeps what
  \<open>gdbstub_init\<close> holds at each point, the memory of the structure and of the copied address
  included, so that the error ladder can be followed to its end.
\<close>

subsection \<open>Definitions\<close>

record init_env =
  calloc_ok :: bool
  strdup_ok :: bool
  regbuf_ok :: bool
  q_mutex_ok :: bool
  q_cond_ok :: bool
  net :: "byte list \<Rightarrow> int \<Rightarrow> net_env"   \<comment> \<open>by address and port\<close>
  peer :: "sock_ev list"

record init_st =
  st_priv :: gdbstub_private
  priv_live :: bool
  addr_live :: bool

text \<open>The zeroed structure.\<close>

definition priv_zero :: "sock_ev list \<Rightarrow> gdbstub_private" where
  "priv_zero evs = \<lparr>conn = \<lparr>listen_fd = 0, socket_fd = 0, send_mutex = False, no_ack_mode = False,
       failure_count = 0, sock_script = evs, wire = [], open_fds = [], mutex_live = False\<rparr>,
     regbuf = \<lparr>rb_buf = None, rb_sz = 0\<rparr>,
     pktqueue = snd (pktqueue_init False False),
     thread_stop = False, reader_running = False, async_io = False, total_reg_bytes = 0\<rparr>"

fun total_bytes :: "(int \<Rightarrow> size_t) \<Rightarrow> nat \<Rightarrow> size_t" where
  "total_bytes w 0 = 0"
| "total_bytes w (Suc i) = total_bytes w i + w (int i)"

text \<open>The labels at the end of \<open>gdbstub_init\<close>; each falls through to the next.\<close>

definition priv_fail :: "init_st \<Rightarrow> bool \<times> init_st" where
  "priv_fail st = (False, st\<lparr>priv_live := False\<rparr>)"

definition addr_fail :: "init_st \<Rightarrow> bool \<times> init_st" where
  "addr_fail st = priv_fail (st\<lparr>addr_live := False\<rparr>)"

definition regbuf_fail :: "init_st \<Rightarrow> bool \<times> init_st" where
  "regbuf_fail st =
     addr_fail (st\<lparr>st_priv := (st_priv st)\<lparr>regbuf := regbuf_destroy (regbuf (st_priv st))\<rparr>\<rparr>)"

definition pktqueue_fail :: "init_st \<Rightarrow> (bool \<times> init_st) res" where
  "pktqueue_fail st =
     bindE (pktqueue_destroy (pktqueue (st_priv st))) (\<lambda>q.
     Inr (regbuf_fail (st\<lparr>st_priv := (st_priv st)\<lparr>pktqueue := q\<rparr>\<rparr>)))"

text \<open>The address: the host, and the port, \<open>0\<close> without a colon, \<open>None\<close> when it is not a number.\<close>

definition parse_addr :: "byte list \<Rightarrow> byte list \<times> int option" where
  "parse_addr a =
     (let (host, port_str) = split_chr (ch CHR '':'') a
      in (host, case port_str of None \<Rightarrow> Some 0 | Some p \<Rightarrow> map_option fst (scan_dec p)))"

definition init_parts :: "init_env \<Rightarrow> byte list \<Rightarrow> int \<Rightarrow> init_st \<Rightarrow> (bool \<times> init_st) res" where
  "init_parts env host port st =
     (let (ok1, r) = regbuf_init (regbuf_ok env);
          st1 = st\<lparr>st_priv := (st_priv st)\<lparr>regbuf := r\<rparr>\<rparr>
      in if \<not> ok1 then Inr (addr_fail st1)
         else
           let (ok2, q) = pktqueue_init (q_mutex_ok env) (q_cond_ok env);
               st2 = st1\<lparr>st_priv := (st_priv st1)\<lparr>pktqueue := q\<rparr>\<rparr>
           in if \<not> ok2 then Inr (regbuf_fail st2)
              else
                let (ok3, c) = conn_init (net env host port) (conn (st_priv st2));
                    st3 = st2\<lparr>st_priv := (st_priv st2)\<lparr>conn := c\<rparr>\<rparr>
                in if \<not> ok3 then pktqueue_fail st3
                   else Inr (True, st3\<lparr>addr_live := False\<rparr>))"

definition gdbstub_init ::
    "init_env \<Rightarrow> 's target_ops option \<Rightarrow> arch_info_t \<Rightarrow> byte list option \<Rightarrow> (bool \<times> init_st) res" where
  "gdbstub_init env tops a s =
     (let st0 = \<lparr>st_priv = priv_zero (peer env), priv_live = False, addr_live = False\<rparr> in
      case (s, tops) of
        (Some addr, Some os) \<Rightarrow>
          if \<not> calloc_ok env then Inr (False, st0)
          else
            let total = total_bytes (get_reg_bytes os) (nat (reg_num a));
                st1 = st0\<lparr>priv_live := True, st_priv := (st_priv st0)\<lparr>total_reg_bytes := total\<rparr>\<rparr>
            in if \<not> strdup_ok env then Inr (priv_fail st1)
               else
                 let st2 = st1\<lparr>addr_live := True\<rparr>;
                     (host, port) = parse_addr addr
                 in (case port of
                       None \<Rightarrow> Inr (addr_fail st2)
                     | Some p \<Rightarrow> init_parts env host p st2)
      | _ \<Rightarrow> Inr (False, st0))"

text \<open>The stub that the caller of a successful \<open>gdbstub_init\<close> has.\<close>

definition stub_of :: "'s target_ops \<Rightarrow> arch_info_t \<Rightarrow> bool list \<Rightarrow> init_st \<Rightarrow> 's gdbstub_t" where
  "stub_of tops a oks st = \<lparr>ops = tops, arch = a, priv = st_priv st, mallocs = oks\<rparr>"

text \<open>\<open>pthread_join\<close> returns when the reader has seen \<open>thread_stop\<close> and taken its last step.\<close>

definition gdbstub_close :: "'s gdbstub_t \<Rightarrow> 's gdbstub_t res" where
  "gdbstub_close g =
     (let g1 = (if reader_running (priv g) then
          let g' = g\<lparr>priv := (priv g)\<lparr>thread_stop := True, pktqueue := pktqueue_signal_shutdown (pktqueue (priv g))\<rparr>\<rparr>;
              joined = reader_end g'
          in joined\<lparr>priv := (priv joined)\<lparr>reader_running := False\<rparr>\<rparr>
        else g)
      in bindE (pktqueue_destroy (pktqueue (priv g1))) (\<lambda>q.
         Inr (g1\<lparr>priv := (priv g1)\<lparr>pktqueue := q, regbuf := regbuf_destroy (regbuf (priv g1)),
                conn := conn_close (conn (priv g1))\<rparr>\<rparr>)))"

subsection \<open>Resources\<close>

text \<open>What the structure holds.\<close>

definition holds_nothing :: "gdbstub_private \<Rightarrow> bool" where
  "holds_nothing p \<longleftrightarrow> rb_buf (regbuf p) = None \<and> q_nodes (pktqueue p) = fmempty \<and> \<not> q_mutex (pktqueue p) \<and>
     \<not> q_cond (pktqueue p) \<and> open_fds (conn p) = [] \<and> \<not> mutex_live (conn p)"

lemma holds_nothing_zero: "holds_nothing (priv_zero evs)"
  by (simp add: holds_nothing_def priv_zero_def pktqueue_init_def)

lemma pktqueue_init_fail: "\<not> fst (pktqueue_init a b) \<Longrightarrow> q_nodes (snd (pktqueue_init a b)) = fmempty \<and>
    \<not> q_mutex (snd (pktqueue_init a b)) \<and> \<not> q_cond (snd (pktqueue_init a b))"
  by (auto simp: pktqueue_init_def Let_def split: if_split_asm)

lemma pktqueue_init_ok: "fst (pktqueue_init a b) \<Longrightarrow> a \<and> b"
  by (simp add: pktqueue_init_def Let_def split: if_split_asm)

lemma destroy_ok: "q_inv q \<Longrightarrow> \<exists>q'. pktqueue_destroy q = Inr q' \<and> q_nodes q' = fmempty \<and> \<not> q_mutex q' \<and> \<not> q_cond q'"
  using queue_destroyed by blast

lemma init_parts_ok:
  assumes "holds_nothing (st_priv st)" "\<not> send_mutex (conn (st_priv st))" "\<not> reader_running (st_priv st)"
    "priv_live st" "addr_live st"
  shows "\<exists>ok st'. init_parts env host port st = Inr (ok, st') \<and> \<not> addr_live st' \<and> priv_live st' = ok \<and>
    (ok \<longrightarrow> initialised (stub_of tops a oks st') \<and> total_reg_bytes (st_priv st') = total_reg_bytes (st_priv st) \<and>
       open_fds (conn (st_priv st')) = [socket_fd (conn (st_priv st')), listen_fd (conn (st_priv st'))] \<and>
       mutex_live (conn (st_priv st')) \<and> sock_script (conn (st_priv st')) = sock_script (conn (st_priv st)) \<and>
       wire (conn (st_priv st')) = wire (conn (st_priv st))) \<and>
    (\<not> ok \<longrightarrow> holds_nothing (st_priv st'))"
proof -
  let ?p = "st_priv st"
  obtain ok1 r where r: "regbuf_init (regbuf_ok env) = (ok1, r)" by fastforce
  obtain ok2 q where q: "pktqueue_init (q_mutex_ok env) (q_cond_ok env) = (ok2, q)" by fastforce
  obtain ok3 c where c: "conn_init (net env host port) (conn ?p) = (ok3, c)" by fastforce
  have rb: "ok1 \<longrightarrow> rb_inv r \<and> regbuf_ok env" "\<not> ok1 \<longrightarrow> rb_buf r = None"
    using r rb_inv_init by (auto simp: regbuf_init_def malloc_def Let_def split: if_split_asm)
  show ?thesis
  proof (cases "ok1 \<and> ok2")
    case False
    have "ok2 \<or> q_nodes q = fmempty \<and> \<not> q_mutex q \<and> \<not> q_cond q"
      using pktqueue_init_fail [of "q_mutex_ok env" "q_cond_ok env"] q by auto
    with False assms r q rb show ?thesis
      by (auto simp: init_parts_def Let_def addr_fail_def priv_fail_def regbuf_fail_def holds_nothing_def regbuf_destroy_def)
  next
    case True
    then have m: "q_mutex_ok env" "q_cond_ok env" using pktqueue_init_ok [of "q_mutex_ok env" "q_cond_ok env"] q by auto
    then have qi: "q_inv q" "q_contents q = []" "\<not> q_shutdown q" "\<not> q_interrupted q"
      using q q_inv_init by (auto simp: pktqueue_init_def)
    obtain q' where d: "pktqueue_destroy q = Inr q'" "q_nodes q' = fmempty" "\<not> q_mutex q'" "\<not> q_cond q'"
      using destroy_ok [OF qi(1)] by blast
    have "\<not> mutex_live (conn ?p)" using assms(1) by (simp add: holds_nothing_def)
    note ci = conn_init_resources [OF c this]
    show ?thesis
    proof (cases ok3)
      case True
      with \<open>ok1 \<and> ok2\<close> ci r q c assms qi rb m show ?thesis
        by (auto simp: init_parts_def Let_def initialised_def stub_of_def holds_nothing_def)
    next
      case False
      with \<open>ok1 \<and> ok2\<close> ci r q c assms d show ?thesis
        by (auto simp: init_parts_def Let_def pktqueue_fail_def addr_fail_def priv_fail_def regbuf_fail_def holds_nothing_def
            regbuf_destroy_def)
    qed
  qed
qed

lemma init_result:
  "\<exists>ok st. gdbstub_init env (Some tops) a (Some addr) = Inr (ok, st) \<and> \<not> addr_live st \<and> priv_live st = ok \<and>
    (ok \<longrightarrow> initialised (stub_of tops a oks st) \<and>
       total_reg_bytes (st_priv st) = total_bytes (get_reg_bytes tops) (nat (reg_num a)) \<and>
       open_fds (conn (st_priv st)) = [socket_fd (conn (st_priv st)), listen_fd (conn (st_priv st))] \<and>
       mutex_live (conn (st_priv st)) \<and> snd (parse_addr addr) \<noteq> None \<and>
       sock_script (conn (st_priv st)) = peer env \<and> wire (conn (st_priv st)) = []) \<and>
    (\<not> ok \<longrightarrow> holds_nothing (st_priv st))"
proof -
  define st1 where "st1 = \<lparr>st_priv = (priv_zero (peer env))\<lparr>total_reg_bytes := total_bytes (get_reg_bytes tops) (nat (reg_num a))\<rparr>,
    priv_live = True, addr_live = False\<rparr>"
  obtain host port where h: "parse_addr addr = (host, port)" by fastforce
  have z: "holds_nothing (st_priv st1)" "\<not> send_mutex (conn (st_priv st1))" "\<not> reader_running (st_priv st1)"
    using holds_nothing_zero [of "peer env"] by (simp_all add: st1_def holds_nothing_def priv_zero_def)
  consider "\<not> calloc_ok env" | "calloc_ok env" "\<not> strdup_ok env" | "calloc_ok env" "strdup_ok env" "port = None"
    | p where "calloc_ok env" "strdup_ok env" "port = Some p" by blast
  then show ?thesis
  proof cases
    case 1
    then show ?thesis using holds_nothing_zero by (auto simp: gdbstub_init_def Let_def)
  next
    case 2
    then show ?thesis using z by (auto simp: gdbstub_init_def Let_def priv_fail_def st1_def)
  next
    case 3
    then show ?thesis using z h by (auto simp: gdbstub_init_def Let_def priv_fail_def addr_fail_def st1_def)
  next
    case 4
    have "gdbstub_init env (Some tops) a (Some addr) = init_parts env host p (st1\<lparr>addr_live := True\<rparr>)"
      using 4 h by (simp add: gdbstub_init_def Let_def st1_def)
    then show ?thesis
      using init_parts_ok [of "st1\<lparr>addr_live := True\<rparr>" env host p tops a oks] z h 4(3) by (auto simp: st1_def priv_zero_def)
  qed
qed

lemma close_result:
  assumes "q_inv (pktqueue (priv g))" "open_fds (conn (priv g)) = [socket_fd (conn (priv g)), listen_fd (conn (priv g))]"
  shows "\<exists>g'. gdbstub_close g = Inr g' \<and> holds_nothing (priv g') \<and> \<not> reader_running (priv g')"
proof -
  let ?q1 = "pktqueue_signal_shutdown (pktqueue_signal_shutdown (pktqueue (priv g)))"
  obtain q where q: "pktqueue_destroy (pktqueue (priv g)) = Inr q" "q_nodes q = fmempty" "\<not> q_mutex q" "\<not> q_cond q"
    using destroy_ok [OF assms(1)] by blast
  have "q_inv ?q1" using assms(1) by (simp add: pktqueue_signal_shutdown_def)
  then obtain q1 where q1: "pktqueue_destroy ?q1 = Inr q1" "q_nodes q1 = fmempty" "\<not> q_mutex q1" "\<not> q_cond q1"
    using destroy_ok by blast
  show ?thesis
    using q q1 assms(2)
    by (cases "reader_running (priv g)")
      (simp_all add: gdbstub_close_def Let_def reader_end_def holds_nothing_def regbuf_destroy_def conn_close_def close_fd_def)
qed

subsection \<open>Properties\<close>


definition net_ok :: net_env where
  "net_ok = \<lparr>mutex_init_ok = True, inet_aton_ok = True, socket_ret = 3, reuseaddr_ok = True, bind_ok = True,
     listen_ok = True, accept_ret = 4\<rparr>"

definition env_ok :: "sock_ev list \<Rightarrow> init_env" where
  "env_ok evs = \<lparr>calloc_ok = True, strdup_ok = True, regbuf_ok = True, q_mutex_ok = True, q_cond_ok = True,
     net = (\<lambda>_ _. net_ok), peer = evs\<rparr>"




end
