(* ===== verification/Queries.thy ===== *)
theory Queries
  imports Requests
begin

text \<open>
  The general queries of \<^verbatim>\<open>src/src/gdbstub.c\<close>: the transfer of the target description in
  chunks (\<open>process_xfer\<close>) and the list of CPUs.
\<close>

subsection \<open>The target description\<close>

definition xfer_request :: "nat \<Rightarrow> nat \<Rightarrow> byte list" where
  "xfer_request off len = str ''Xfer:features:read:target.xml:'' @ addr_len off len"

text \<open>What one request must return: the letter, and at most \<open>len - 1\<close> bytes from \<open>off\<close> on.\<close>

definition xfer_limit :: "nat \<Rightarrow> nat" where
  "xfer_limit len = min len MAX_DATA_PAYLOAD"

definition xfer_chunk :: "byte list \<Rightarrow> nat \<Rightarrow> nat \<Rightarrow> byte list" where
  "xfer_chunk desc off len = take (xfer_limit len - 1) (drop off desc)"

definition xfer_last :: "byte list \<Rightarrow> nat \<Rightarrow> nat \<Rightarrow> bool" where
  "xfer_last desc off len \<longleftrightarrow> length desc - off < xfer_limit len"

lemma xfer_last_chunk:
  "0 < len \<Longrightarrow> off \<le> length desc \<Longrightarrow> xfer_last desc off len \<longleftrightarrow> off + length (xfer_chunk desc off len) = length desc"
  by (auto simp: xfer_last_def xfer_chunk_def xfer_limit_def MAX_DATA_PAYLOAD_def MAX_SEND_PACKET_SIZE_def CSUM_SIZE_def)

lemma split_xfer:
  "split_chr (ch CHR '':'') (xfer_request off len) =
     (str ''Xfer'', Some (str ''features:read:target.xml:'' @ addr_len off len))"
  "split_chr (ch CHR '':'') (str ''features:read:target.xml:'' @ addr_len off len) =
     (str ''features'', Some (str ''read:target.xml:'' @ addr_len off len))"
  "strtok (ch CHR '':'') (str ''read:target.xml:'' @ addr_len off len) =
     Some (str ''read'', str ''target.xml:'' @ addr_len off len)"
  "strtok (ch CHR '':'') (str ''target.xml:'' @ addr_len off len) = Some (str ''target.xml'', addr_len off len)"
  "strtok (ch CHR '':'') (addr_len off len) = Some (addr_len off len, [])"
proof -
  show "split_chr (ch CHR '':'') (xfer_request off len) =
     (str ''Xfer'', Some (str ''features:read:target.xml:'' @ addr_len off len))"
    using split_chr_append [of "ch CHR '':''" "str ''Xfer''" "str ''features:read:target.xml:'' @ addr_len off len"]
    by (simp add: xfer_request_def c_defs)
  show "split_chr (ch CHR '':'') (str ''features:read:target.xml:'' @ addr_len off len) =
     (str ''features'', Some (str ''read:target.xml:'' @ addr_len off len))"
    using split_chr_append [of "ch CHR '':''" "str ''features''" "str ''read:target.xml:'' @ addr_len off len"]
    by (simp add: c_defs)
  show "strtok (ch CHR '':'') (str ''read:target.xml:'' @ addr_len off len) =
     Some (str ''read'', str ''target.xml:'' @ addr_len off len)"
    using strtok_append [of "str ''read''" "ch CHR '':''" "str ''target.xml:'' @ addr_len off len"]
    by (simp add: c_defs)
  show "strtok (ch CHR '':'') (str ''target.xml:'' @ addr_len off len) = Some (str ''target.xml'', addr_len off len)"
    using strtok_append [of "str ''target.xml''" "ch CHR '':''" "addr_len off len"] by (simp add: c_defs)
  show "strtok (ch CHR '':'') (addr_len off len) = Some (addr_len off len, [])"
    by (rule strtok_last) (use addr_len_clean(2) in \<open>simp_all add: addr_len_def\<close>)
qed

lemma snprintf_limit:
  assumes "0 < n" "n \<le> 4090" "0 \<notin> set text" "c \<noteq> 0"
  shows "bindE (buf_put (buf_new 4096) 0 c) (\<lambda>b. bindE (snprintf_s b (int n) text) (send_buf g)) =
    send g (c # take (n - 1) text)"
proof -
  have "bindE (buf_put (buf_new 4096) 0 c) (\<lambda>b. snprintf_s b (int n) text) =
      buf_puts (buf_new 4096) 0 ((c # take (n - 1) text) @ [0])"
    using assms(1) by (simp add: snprintf_s_def nat_diff_distrib)
  moreover have "bindE (buf_puts (buf_new 4096) 0 ((c # take (n - 1) text) @ [0])) (send_buf g) =
      send g (c # take (n - 1) text)"
    by (rule send_buf_new) (use assms in \<open>auto dest: in_set_takeD\<close>)
  ultimately show ?thesis by (simp add: bindE_assoc [symmetric])
qed

lemma process_query_xfer:
  assumes "target_desc (arch g) = Some desc" "0 \<notin> set desc" "off \<le> length desc" "length desc < 2 ^ 31"
    "0 < len" "len < 2 ^ 31"
  shows "process_query g (xfer_request off len) s =
     send g ((if xfer_last desc off len then ch CHR ''l'' else ch CHR ''m'') # xfer_chunk desc off len)"
proof -
  have small: "off < 2 ^ 64" "len < 2 ^ 64" using assms(3,4,6) by simp_all
  have u: "unat (of_nat off :: size_t) = off" "unat (of_nat len :: size_t) = len"
    using small by (simp_all add: unat_of_nat_small)
  have i: "int_of_size (of_nat off) = int off" "int_of_size (of_nat len) = int len"
    using int_of_size_small [of "of_nat off"] int_of_size_small [of "of_nat len"] u assms(3,4,6) by simp_all
  have lim: "(if int MAX_DATA_PAYLOAD > int len then int len else int MAX_DATA_PAYLOAD) = int (xfer_limit len)"
    by (simp add: xfer_limit_def)
  have pos: "0 < xfer_limit len" "xfer_limit len \<le> 4090"
    using assms(5) by (simp_all add: xfer_limit_def MAX_DATA_PAYLOAD_def MAX_SEND_PACKET_SIZE_def CSUM_SIZE_def)
  have lst: "int (length desc) - int off < int (xfer_limit len) \<longleftrightarrow> xfer_last desc off len"
    using assms(3) by (auto simp: xfer_last_def)
  let ?c = "if xfer_last desc off len then ch CHR ''l'' else ch CHR ''m''"
  have "0 \<notin> set (drop off desc)" using assms(2) by (auto dest: in_set_dropD)
  from snprintf_limit [OF pos this, of ?c g]
  have run: "bindE (buf_put (buf_new 4096) 0 ?c) (\<lambda>b. bindE (snprintf_s b (int (xfer_limit len)) (drop off desc)) (send_buf g)) =
      send g (?c # xfer_chunk desc off len)"
    by (simp add: c_defs xfer_chunk_def)
  have "process_xfer g (Some (str ''features:read:target.xml:'' @ addr_len off len)) = send g (?c # xfer_chunk desc off len)"
    unfolding process_xfer_def option.case split_xfer prod.case Let_def assms(1) sscanf_addr_len [OF small]
      list.map i list.case lim lst
    using assms(3) run by (simp add: MAX_SEND_PACKET_SIZE_def)
  then show "process_query g (xfer_request off len) s = send g (?c # xfer_chunk desc off len)"
    by (simp add: process_query_def split_xfer)
qed


definition desc_stub :: "int \<Rightarrow> sock_ev list \<Rightarrow> unit gdbstub_t" where
  "desc_stub n evs = stub0 zeros_ops \<lparr>target_desc = Some TARGET_RV64, smp = n, reg_num = 1\<rparr> 8 evs"


text \<open>The description is sent as it is.  One that contains a \<open>#\<close> gives a frame which ends too early.\<close>

lemma description_not_escaped:
  assumes "target_desc (arch g) = Some (str ''a#b'')"
  shows "process_query g (xfer_request 0 17) s = send g (str ''la#b'')"
  using process_query_xfer [OF assms, of 0 17 s]
  by (simp add: c_defs xfer_last_def xfer_chunk_def xfer_limit_def MAX_DATA_PAYLOAD_def MAX_SEND_PACKET_SIZE_def CSUM_SIZE_def)

subsection \<open>The list of CPUs\<close>

definition thread_list :: "nat \<Rightarrow> byte list" where
  "thread_list n = concat (map (\<lambda>i. fmt_04d (int i) @ str '','') [0..<n])"

lemma thread_list_simps [simp]: "thread_list 0 = []" "thread_list (Suc n) = thread_list n @ fmt_04d (int n) @ str '',''"
  by (simp_all add: thread_list_def)

lemma length_thread_list: "n \<le> 10000 \<Longrightarrow> length (thread_list n) = 5 * n"
  by (induction n) (simp_all add: length_fmt_04d str_def)

lemma nul_free_thread_list: "0 \<notin> set (thread_list n)"
  using nul_free_fmt(2) by (induction n) (auto simp: c_defs)

lemma thread_info_step:
  assumes "i < 10000"
  shows "thread_info_loop b ptr i (Suc k) =
    bindE (buf_puts b ptr (fmt_04d (int i) @ str '','')) (\<lambda>b'. thread_info_loop b' (ptr + 5) (Suc i) k)"
proof -
  let ?t = "fmt_04d (int i) @ str '',''"
  have l: "length ?t = 5" using length_fmt_04d [of "int i"] assms by (simp add: str_def)
  obtain c where c: "buf_puts (buf_new 6) 0 (?t @ [0]) = Inr c" using buf_puts_ok [of 0 "?t @ [0]" "buf_new 6"] l by auto
  have "buf_gets c 0 (length ?t) = Inr ?t"
    by (rule buf_gets_Inr) (use l in \<open>auto simp: buf_get_puts [OF c] nth_append\<close>)
  with c l show ?thesis by simp
qed

lemma thread_info_loop_puts:
  "i + k \<le> 10000 \<Longrightarrow> thread_info_loop b ptr i k =
    bindE (buf_puts b ptr (drop (5 * i) (thread_list (i + k)))) (\<lambda>b'. Inr (b', ptr + 5 * k))"
proof (induction k arbitrary: b ptr i)
  case 0
  then show ?case using length_thread_list [of i] by simp
next
  case (Suc k)
  let ?t = "fmt_04d (int i) @ str '',''"
  have split: "drop (5 * i) (thread_list (i + Suc k)) = ?t @ drop (5 * Suc i) (thread_list (Suc i + k))"
  proof -
    have "thread_list (i + Suc k) = thread_list i @ ?t @ concat (map (\<lambda>i. fmt_04d (int i) @ str '','') [Suc i..<i + Suc k])"
    proof -
      have "[0..<i + Suc k] = [0..<i] @ i # [Suc i..<i + Suc k]"
        using upt_add_eq_append [of 0 i "Suc k"] upt_conv_Cons [of i "i + Suc k"]
        by (simp del: upt_Suc add_Suc_right)
      then show ?thesis unfolding thread_list_def by (simp only: map_append list.map concat_append concat.simps append_assoc)
    qed
    moreover have "length (thread_list i) = 5 * i" "length ?t = 5"
      using Suc.prems length_thread_list [of i] length_fmt_04d [of "int i"] by (simp_all add: str_def)
    ultimately show ?thesis by simp
  qed
  have l: "length ?t = 5" using length_fmt_04d [of "int i"] Suc.prems by (simp add: str_def)
  have i: "i < 10000" "Suc i + k \<le> 10000" using Suc.prems by simp_all
  show ?case
    unfolding thread_info_step [OF i(1)] split buf_puts_append [of _ _ ?t] using Suc.IH [OF i(2)] l
    by (simp add: bindE_assoc algebra_simps)
qed

text \<open>C34.  \<open>qfThreadInfo\<close> lists every CPU once, in order, as a four-digit number and a comma,
  with at least one CPU; the reply fits a packet up to 817 CPUs.  For 818 the packet is refused by
  an assertion, and from 819 on the list is written past the end of the buffer, although the
  check in the code admits up to 9999.\<close>

theorem thread_info_reply:
  assumes "smp (arch g) = int n"
  shows "process_query g (str ''fThreadInfo'') s =
    (if 10000 \<le> n then Inl AssertFail
     else if 819 \<le> n then Inl OutOfBounds
     else if n = 818 then Inl AssertFail
     else send g (ch CHR ''m'' # thread_list (max n 1)))"
proof -
  let ?n = "max n 1" and ?t = "ch CHR ''m'' # thread_list (max n 1)"
  have sp: "split_chr (ch CHR '':'') (str ''fThreadInfo'') = (str ''fThreadInfo'', None)"
    by (rule split_chr_none) (simp add: c_defs)
  have smp: "(if smp (arch g) \<noteq> 0 then smp (arch g) else 1) = int ?n" using assms by (simp add: max_def)
  show ?thesis
  proof (cases "10000 \<le> n")
    case False
    have run: "process_query g (str ''fThreadInfo'') s =
        bindE (buf_puts (buf_new 4096) 0 ?t) (\<lambda>b. bindE (buf_put b (1 + 5 * ?n) 0) (send_buf g))"
    proof -
      have "?n \<le> 10000" "int ?n < 10000" using False by auto
      then show ?thesis
        using thread_info_loop_puts [of 0 ?n]
        by (simp add: process_query_def sp smp Let_def MAX_SEND_PACKET_SIZE_def bindE_assoc del: max.bounded_iff)
    qed
    have len: "length ?t = 1 + 5 * ?n" using length_thread_list [of ?n] False by simp
    have nz: "0 \<notin> set ?t" using nul_free_thread_list by (simp add: c_defs)
    consider "819 \<le> n" | "n = 818" | "n < 818" by linarith
    then show ?thesis
    proof cases
      case 1
      show ?thesis
      proof (cases "buf_puts (buf_new 4096) 0 ?t")
        case (Inl err)
        then have "4096 < length ?t" using buf_puts_ok [of 0 ?t "buf_new 4096"] by force
        from buf_puts_oob [of "buf_new 4096" 0 ?t] this run 1 False show ?thesis by simp
      next
        case (Inr b)
        with 1 False run cap_buf_puts [OF Inr] show ?thesis by (simp add: buf_put_def)
      qed
    next
      case 2
      have "bindE (buf_puts (buf_new 4096) 0 ?t) (\<lambda>b. bindE (buf_put b (1 + 5 * ?n) 0) (send_buf g)) = send g ?t"
        using send_buf_new [of ?t 4096 g] nz len 2 by (simp add: buf_puts_append bindE_assoc)
      moreover have "send g ?t = Inl AssertFail"
        using len 2 by (simp add: send_def conn_send_pktstr_too_long)
      ultimately show ?thesis using run 2 by simp
    next
      case 3
      have "bindE (buf_puts (buf_new 4096) 0 ?t) (\<lambda>b. bindE (buf_put b (1 + 5 * ?n) 0) (send_buf g)) = send g ?t"
        using send_buf_new [of ?t 4096 g] nz len 3 by (simp add: buf_puts_append bindE_assoc)
      then show ?thesis using run 3 by simp
    qed
  next
    case True
    then show ?thesis by (simp add: process_query_def sp smp Let_def)
  qed
qed

theorem thread_info_reply_witness:
  "process_query (desc_stub 2 []) (str ''fThreadInfo'') () = send (desc_stub 2 []) (str ''m0000,0001,'')"
proof -
  have "smp (arch (desc_stub 2 [])) = int 2" by (simp add: desc_stub_def stub0_def)
  then have "process_query (desc_stub 2 []) (str ''fThreadInfo'') () =
      send (desc_stub 2 []) (ch CHR ''m'' # thread_list (max 2 1))"
    using thread_info_reply [of "desc_stub 2 []" 2 "()"] by simp
  also have "ch CHR ''m'' # thread_list (max 2 1) = str ''m0000,0001,''" by code_simp
  finally show ?thesis .
qed

end
