(* ===== verification/Emu.thy ===== *)
theory Emu
  imports StubMem
begin

text \<open>
  \<^verbatim>\<open>src/emu/src/emu.c\<close>: the reference emulator, a RISC-V subset.  The flag \<open>rv32\<close> is the
  preprocessor symbol \<open>RV32\<close>.  The memory is \<open>MEM_SIZE\<close> bytes; a guest access outside it,
  which the C code does not check, is \<open>OutOfBounds\<close>, and so is an access to the register array
  outside its 32 entries.  Words in memory are little endian, as on the host.

  \<open>irq\<close> is the environment of \<open>emu_cont\<close>: for each round of its loop, whether the reader
  thread has called \<open>emu_on_interrupt\<close> since the last round (no more calls behind the end).
\<close>

subsection \<open>Memory and state\<close>

definition MEM_SIZE :: nat where "MEM_SIZE = 0x1000"
definition TOHOST_ADDR :: nat where "TOHOST_ADDR = MEM_SIZE - 4"
definition REGSZ :: "bool \<Rightarrow> nat" where "REGSZ rv32 = (if rv32 then 4 else 8)"

record emu =
  mem :: "nat \<Rightarrow> byte"
  mem_live :: bool
  code_size :: size_t
  x :: "nat \<Rightarrow> 64 word"
  pc :: "64 word"
  bp_is_set :: bool
  bp_addr :: "64 word"
  halt :: bool
  irq :: "bool list"

definition emu_halt :: "emu \<Rightarrow> emu" where "emu_halt e = e\<lparr>halt := True\<rparr>"
definition emu_start_run :: "emu \<Rightarrow> emu" where "emu_start_run e = e\<lparr>halt := False\<rparr>"
definition emu_is_halt :: "emu \<Rightarrow> bool" where "emu_is_halt e = halt e"

text \<open>The macros \<open>read_len\<close> and \<open>write_len\<close> on \<open>bit >> 3\<close> bytes.\<close>

fun read_len_loop :: "(nat \<Rightarrow> byte) \<Rightarrow> nat \<Rightarrow> nat \<Rightarrow> nat \<Rightarrow> 64 word \<Rightarrow> 64 word" where
  "read_len_loop m a i 0 v = v"
| "read_len_loop m a i (Suc k) v = read_len_loop m a (Suc i) k (v OR push_bit (i * 8) (ucast (m (a + i))))"

definition read_len :: "nat \<Rightarrow> (nat \<Rightarrow> byte) \<Rightarrow> 64 word \<Rightarrow> 64 word res" where
  "read_len bits m a =
     (if unat a + bits div 8 \<le> MEM_SIZE then Inr (read_len_loop m (unat a) 0 (bits div 8) 0)
      else Inl OutOfBounds)"

fun write_len_loop :: "(nat \<Rightarrow> byte) \<Rightarrow> nat \<Rightarrow> nat \<Rightarrow> nat \<Rightarrow> 64 word \<Rightarrow> nat \<Rightarrow> byte" where
  "write_len_loop m a i 0 v = m"
| "write_len_loop m a i (Suc k) v =
     write_len_loop (m(a + i := ucast (drop_bit (i * 8) v AND 0xff))) a (Suc i) k v"

definition write_len :: "nat \<Rightarrow> (nat \<Rightarrow> byte) \<Rightarrow> 64 word \<Rightarrow> 64 word \<Rightarrow> (nat \<Rightarrow> byte) res" where
  "write_len bits m a v =
     (if unat a + bits div 8 \<le> MEM_SIZE then Inr (write_len_loop m (unat a) 0 (bits div 8) v)
      else Inl OutOfBounds)"

subsection \<open>Instructions\<close>

record inst_t =
  inst :: "64 word"
  rd :: byte
  rs1 :: byte
  rs2 :: byte
  funct3 :: byte
  funct7 :: byte

definition get_x :: "emu \<Rightarrow> byte \<Rightarrow> 64 word" where
  "get_x e r = x e (unat r)"

definition set_x :: "byte \<Rightarrow> 64 word \<Rightarrow> emu \<Rightarrow> emu" where
  "set_x r v e = e\<lparr>x := (x e)(unat r := v)\<rparr>"

text \<open>\<open>(int32_t) v\<close>, an arithmetic shift, and the conversion to \<open>uint64_t\<close>.\<close>

definition int32 :: "64 word \<Rightarrow> 32 word" where
  "int32 v = ucast v"

definition imm_i :: "inst_t \<Rightarrow> 64 word" where
  "imm_i i = scast (signed_drop_bit 20 (int32 (inst i AND 0xfff00000)))"

definition imm_u :: "inst_t \<Rightarrow> 64 word" where
  "imm_u i = scast (int32 (inst i AND 0xfffff000))"

definition imm_s :: "inst_t \<Rightarrow> 64 word" where
  "imm_s i = scast (signed_drop_bit 20 (int32 (inst i AND 0xfe000000)) OR
                    int32 (drop_bit 7 (inst i) AND 0x1f))"

definition imm_j :: "inst_t \<Rightarrow> 64 word" where
  "imm_j i = scast (signed_drop_bit 11 (int32 (inst i AND 0x80000000)) OR
                    int32 (inst i AND 0xff000) OR
                    int32 (drop_bit 9 (inst i) AND 0x800) OR
                    int32 (drop_bit 20 (inst i) AND 0x7fe))"

definition opcode_3 :: "emu \<Rightarrow> inst_t \<Rightarrow> (int \<times> emu) res" where
  "opcode_3 e i =
     (if funct3 i = 0x2 then
        bindE (read_len 32 (mem e) (get_x e (rs1 i) + imm_i i)) (\<lambda>v. Inr (0, set_x (rd i) v e))
      else if funct3 i = 0x3 then
        bindE (read_len 64 (mem e) (get_x e (rs1 i) + imm_i i)) (\<lambda>v. Inr (0, set_x (rd i) v e))
      else Inr (-1, e))"

definition opcode_13 :: "emu \<Rightarrow> inst_t \<Rightarrow> (int \<times> emu) res" where
  "opcode_13 e i =
     (if funct3 i = 0x0 then Inr (0, set_x (rd i) (get_x e (rs1 i) + imm_i i) e)
      else if funct3 i = 0x2 then
        Inr (0, set_x (rd i) (if sint (get_x e (rs1 i)) < sint (imm_i i) then 1 else 0) e)
      else Inr (-1, e))"

definition opcode_17 :: "emu \<Rightarrow> inst_t \<Rightarrow> (int \<times> emu) res" where
  "opcode_17 e i = Inr (0, set_x (rd i) (pc e + imm_u i - 4) e)"

definition opcode_1b :: "emu \<Rightarrow> inst_t \<Rightarrow> (int \<times> emu) res" where
  "opcode_1b e i =
     (if funct3 i = 0x0 then
        Inr (0, set_x (rd i) (scast (ucast (get_x e (rs1 i)) + ucast (imm_i i) :: 32 word)) e)
      else Inr (-1, e))"

definition opcode_23 :: "emu \<Rightarrow> inst_t \<Rightarrow> (int \<times> emu) res" where
  "opcode_23 e i =
     (let a = get_x e (rs1 i) + imm_s i; v = get_x e (rs2 i) in
      if funct3 i = 0x0 then bindE (write_len 8 (mem e) a v) (\<lambda>m. Inr (0, e\<lparr>mem := m\<rparr>))
      else if funct3 i = 0x2 then bindE (write_len 32 (mem e) a v) (\<lambda>m. Inr (0, e\<lparr>mem := m\<rparr>))
      else if funct3 i = 0x3 then bindE (write_len 64 (mem e) a v) (\<lambda>m. Inr (0, e\<lparr>mem := m\<rparr>))
      else Inr (-1, e))"

definition opcode_33 :: "emu \<Rightarrow> inst_t \<Rightarrow> (int \<times> emu) res" where
  "opcode_33 e i =
     (if funct3 i = 0x0 \<and> funct7 i = 0x00 then
        Inr (0, set_x (rd i) (get_x e (rs1 i) + get_x e (rs2 i)) e)
      else Inr (-1, e))"

definition opcode_37 :: "emu \<Rightarrow> inst_t \<Rightarrow> (int \<times> emu) res" where
  "opcode_37 e i = Inr (0, set_x (rd i) (imm_u i) e)"

definition opcode_3b :: "emu \<Rightarrow> inst_t \<Rightarrow> (int \<times> emu) res" where
  "opcode_3b e i =
     (if funct3 i = 0x0 \<and> funct7 i = 0x00 then
        Inr (0, set_x (rd i) (scast (ucast (get_x e (rs1 i)) + ucast (get_x e (rs2 i)) :: 32 word)) e)
      else Inr (-1, e))"

definition opcode_67 :: "emu \<Rightarrow> inst_t \<Rightarrow> (int \<times> emu) res" where
  "opcode_67 e i =
     (let e1 = set_x (rd i) (pc e) e
      in Inr (0, e1\<lparr>pc := (get_x e1 (rs1 i) + imm_i i) AND NOT 1\<rparr>))"

definition opcode_6f :: "emu \<Rightarrow> inst_t \<Rightarrow> (int \<times> emu) res" where
  "opcode_6f e i =
     (let e1 = set_x (rd i) (pc e) e in Inr (0, e1\<lparr>pc := pc e1 + imm_j i - 4\<rparr>))"

definition decode :: "32 word \<Rightarrow> inst_t" where
  "decode raw_inst = \<lparr>inst = ucast raw_inst,
     rd = ucast (drop_bit 7 raw_inst AND 0x1f),
     rs1 = ucast (drop_bit 15 raw_inst AND 0x1f),
     rs2 = ucast (drop_bit 20 raw_inst AND 0x1f),
     funct3 = ucast (drop_bit 12 raw_inst AND 0x7),
     funct7 = ucast (drop_bit 25 raw_inst AND 0x7f)\<rparr>"

definition emu_exec :: "emu \<Rightarrow> 32 word \<Rightarrow> (int \<times> emu) res" where
  "emu_exec e0 raw_inst =
     (let opcode = ucast (raw_inst AND 0x7f) :: byte;
          e = e0\<lparr>x := (x e0)(0 := 0)\<rparr>;
          i = decode raw_inst
      in if opcode = 0x3 then opcode_3 e i
         else if opcode = 0x13 then opcode_13 e i
         else if opcode = 0x17 then opcode_17 e i
         else if opcode = 0x1b then opcode_1b e i
         else if opcode = 0x23 then opcode_23 e i
         else if opcode = 0x33 then opcode_33 e i
         else if opcode = 0x37 then opcode_37 e i
         else if opcode = 0x3b then opcode_3b e i
         else if opcode = 0x67 then opcode_67 e i
         else if opcode = 0x6f then opcode_6f e i
         else Inr (-1, e))"

subsection \<open>Setting up\<close>

text \<open>\<open>emu_init\<close>; the memory is allocated by \<open>init_mem\<close>.\<close>

definition emu_init :: "bool list \<Rightarrow> emu" where
  "emu_init irqs = emu_halt \<lparr>mem = (\<lambda>_. 0), mem_live = False, code_size = 0, x = (\<lambda>_. 0)(2 := of_nat TOHOST_ADDR), pc = 0,
     bp_is_set = False, bp_addr = - 1, halt = False, irq = irqs\<rparr>"

text \<open>\<open>init_mem\<close> with the bytes of the file (\<open>None\<close> when it cannot be opened), the outcome of
  \<open>malloc\<close>, and the number of bytes \<open>fread\<close> delivers.\<close>

definition init_mem :: "byte list option \<Rightarrow> bool \<Rightarrow> nat \<Rightarrow> emu \<Rightarrow> int \<times> emu" where
  "init_mem file malloc_ok nread e =
     (case file of
        None \<Rightarrow> (-1, e)
      | Some bs \<Rightarrow>
          let sz = length bs in
          if sz > TOHOST_ADDR then (-1, e)
          else if \<not> malloc_ok then (-1, e)
          else
            let read_size = min nread sz;
                e1 = e\<lparr>mem := (\<lambda>a. if a < read_size then bs ! a else 0), mem_live := True\<rparr>
            in if read_size \<noteq> sz then (-1, e1)
               else (0, e1\<lparr>code_size := of_nat read_size\<rparr>))"

definition free_mem :: "emu \<Rightarrow> emu" where
  "free_mem e = e\<lparr>mem_live := False\<rparr>"

subsection \<open>The callbacks\<close>

definition le_bytes :: "64 word \<Rightarrow> byte list" where
  "le_bytes w = map (\<lambda>i. ucast (drop_bit (8 * i) w)) [0..<8]"

fun of_le :: "byte list \<Rightarrow> 64 word" where
  "of_le [] = 0"
| "of_le (b # bs) = ucast b OR push_bit 8 (of_le bs)"

definition emu_get_reg_bytes :: "bool \<Rightarrow> int \<Rightarrow> size_t" where
  "emu_get_reg_bytes rv32 regno = of_nat (REGSZ rv32)"

definition emu_read_reg :: "bool \<Rightarrow> emu \<Rightarrow> int \<Rightarrow> (int \<times> byte list) res" where
  "emu_read_reg rv32 e regno =
     (if regno > 32 then Inr (EFAULT, [])
      else if regno = 32 then Inr (0, take (REGSZ rv32) (le_bytes (pc e)))
      else if regno < 0 then Inl OutOfBounds
      else Inr (0, take (REGSZ rv32) (le_bytes (x e (nat regno)))))"

text \<open>\<open>memcpy(&v, data, REGSZ)\<close> leaves the upper bytes of \<open>v\<close>.\<close>

definition store_low :: "bool \<Rightarrow> 64 word \<Rightarrow> byte list \<Rightarrow> 64 word" where
  "store_low rv32 v bs = of_le (take (REGSZ rv32) bs @ drop (REGSZ rv32) (le_bytes v))"

definition emu_write_reg :: "bool \<Rightarrow> emu \<Rightarrow> int \<Rightarrow> byte list \<Rightarrow> (int \<times> emu) res" where
  "emu_write_reg rv32 e regno data =
     (if regno > 32 then Inr (EFAULT, e)
      else if regno = 32 then Inr (0, e\<lparr>pc := store_low rv32 (pc e) data\<rparr>)
      else if regno < 0 then Inl OutOfBounds
      else Inr (0, e\<lparr>x := (x e)(nat regno := store_low rv32 (x e (nat regno)) data)\<rparr>))"

definition emu_read_mem :: "emu \<Rightarrow> size_t \<Rightarrow> size_t \<Rightarrow> (int \<times> byte list) res" where
  "emu_read_mem e addr len =
     (if addr + len > of_nat MEM_SIZE then Inr (EFAULT, [])
      else if unat addr + unat len > MEM_SIZE \<and> len \<noteq> 0 then Inl OutOfBounds
      else Inr (0, map (\<lambda>i. mem e (unat addr + i)) [0..<unat len]))"

definition emu_write_mem :: "emu \<Rightarrow> size_t \<Rightarrow> size_t \<Rightarrow> byte list \<Rightarrow> (int \<times> emu) res" where
  "emu_write_mem e addr len val =
     (if addr + len > of_nat MEM_SIZE then Inr (EFAULT, e)
      else if unat addr + unat len > MEM_SIZE \<and> len \<noteq> 0 \<or> length val < unat len then Inl OutOfBounds
      else Inr (0, e\<lparr>mem := (\<lambda>a. if unat addr \<le> a \<and> a < unat addr + unat len
                                  then val ! (a - unat addr) else mem e a)\<rparr>))"

text \<open>Fetching: \<open>uint32_t inst; emu_read_mem(args, emu->pc, 4, &inst)\<close> with the result ignored.\<close>

definition fetch :: "emu \<Rightarrow> 32 word res" where
  "fetch e =
     bindE (emu_read_mem e (pc e) 4) (\<lambda>(ret, bs). if ret \<noteq> 0 then Inl Uninit else Inr (ucast (of_le bs)))"

definition emu_on_interrupt :: "emu \<Rightarrow> emu" where
  "emu_on_interrupt e = emu_halt e"

text \<open>Whether the reader thread calls \<open>emu_on_interrupt\<close> before the next test of the loop condition.\<close>

definition take_irq :: "emu \<Rightarrow> emu" where
  "take_irq e =
     (case irq e of [] \<Rightarrow> e | b # bs \<Rightarrow> (if b then emu_on_interrupt (e\<lparr>irq := bs\<rparr>) else e\<lparr>irq := bs\<rparr>))"

partial_function (option) emu_cont_loop :: "emu \<Rightarrow> (gdb_action_t \<times> emu) res option" where
  "emu_cont_loop e0 =
     (let e = take_irq e0 in
      if pc e < code_size e \<and> pc e \<noteq> bp_addr e \<and> \<not> emu_is_halt e then
        (case fetch e of
           Inl err \<Rightarrow> Some (Inl err)
         | Inr i \<Rightarrow>
             (case emu_exec (e\<lparr>pc := pc e + 4\<rparr>) i of
                Inl err \<Rightarrow> Some (Inl err)
              | Inr (ret, e') \<Rightarrow>
                  if ret < 0 then Some (Inr (ACT_RESUME, e'))
                  else if mem e' TOHOST_ADDR \<noteq> 0 then Some (Inr (ACT_SHUTDOWN, e'))
                  else emu_cont_loop e'))
      else Some (Inr (ACT_RESUME, e)))"

definition emu_cont :: "emu \<Rightarrow> (gdb_action_t \<times> emu) res" where
  "emu_cont e = (case emu_cont_loop (emu_start_run e) of None \<Rightarrow> Inl Diverges | Some r \<Rightarrow> r)"

definition emu_stepi :: "emu \<Rightarrow> (gdb_action_t \<times> emu) res" where
  "emu_stepi e0 =
     (let e = emu_start_run e0 in
      if pc e < code_size e then
        bindE (fetch e) (\<lambda>i. bindE (emu_exec (e\<lparr>pc := pc e + 4\<rparr>) i) (\<lambda>(ret, e'). Inr (ACT_RESUME, e')))
      else Inr (ACT_RESUME, e))"

definition emu_set_bp :: "emu \<Rightarrow> size_t \<Rightarrow> bp_type_t \<Rightarrow> (bool \<times> emu) res" where
  "emu_set_bp e addr type =
     (if type \<noteq> BP_SOFTWARE \<or> bp_is_set e then Inr (False, e)
      else Inr (True, e\<lparr>bp_is_set := True, bp_addr := addr\<rparr>))"

definition emu_del_bp :: "emu \<Rightarrow> size_t \<Rightarrow> bp_type_t \<Rightarrow> (bool \<times> emu) res" where
  "emu_del_bp e addr type =
     (if type \<noteq> BP_SOFTWARE \<or> \<not> bp_is_set e \<or> bp_addr e \<noteq> addr then Inr (True, e)
      else Inr (True, e\<lparr>bp_is_set := False, bp_addr := 0\<rparr>))"

definition emu_ops :: "bool \<Rightarrow> emu target_ops" where
  "emu_ops rv32 = \<lparr>cont = Some emu_cont, stepi = Some emu_stepi, get_reg_bytes = emu_get_reg_bytes rv32,
     read_reg = Some (emu_read_reg rv32), write_reg = Some (emu_write_reg rv32),
     read_mem = Some emu_read_mem, write_mem = Some emu_write_mem,
     set_bp = Some emu_set_bp, del_bp = Some emu_del_bp, on_interrupt = Some emu_on_interrupt,
     set_cpu = None, get_cpu = None\<rparr>"

subsection \<open>Little-endian bytes\<close>

lemma length_le_bytes [simp]: "length (le_bytes w) = 8"
  by (simp add: le_bytes_def)

lemma nth_le_bytes: "i < 8 \<Longrightarrow> le_bytes w ! i = ucast (drop_bit (8 * i) w)"
  by (simp add: le_bytes_def)

lemma bit_of_le: "bit (of_le bs) n \<longleftrightarrow> n < 64 \<and> n < 8 * length bs \<and> bit (bs ! (n div 8)) (n mod 8)"
proof (induction bs arbitrary: n)
  case (Cons b bs)
  show ?case
  proof (cases "n < 8")
    case True
    then show ?thesis by (simp add: bit_simps)
  next
    case False
    then have "n div 8 = Suc ((n - 8) div 8)" "n mod 8 = (n - 8) mod 8"
      by (auto simp: le_div_geq le_mod_geq)
    with False Cons.IH [of "n - 8"] show ?thesis
      by (auto simp: bit_simps dest: bit_imp_le_length)
  qed
qed simp

lemma of_le_le_bytes: "of_le (le_bytes w) = w"
proof (rule bit_word_eqI)
  fix n assume "n < LENGTH(64)"
  then have n: "n < 64" "n div 8 < 8" "8 * (n div 8) + n mod 8 = n" by auto
  then show "bit (of_le (le_bytes w)) n = bit w n"
    by (simp add: bit_of_le nth_le_bytes bit_simps)
qed

lemma le_bytes_of_le: "length bs = 8 \<Longrightarrow> le_bytes (of_le bs) = bs"
proof (rule nth_equalityI)
  fix i assume bs: "length bs = 8" and "i < length (le_bytes (of_le bs))"
  then have i: "i < 8" by simp
  show "le_bytes (of_le bs) ! i = bs ! i"
  proof (rule bit_word_eqI)
    fix n assume "n < LENGTH(8)"
    then have "(8 * i + n) div 8 = i" "(8 * i + n) mod 8 = n" "8 * i + n < 64" "n < 8" using i by auto
    then show "bit (le_bytes (of_le bs) ! i) n = bit (bs ! i) n"
      using i bs by (simp add: nth_le_bytes bit_simps bit_of_le)
  qed
qed simp

lemma REGSZ_le: "REGSZ rv32 \<le> 8"
  by (simp add: REGSZ_def)

text \<open>Storing the low bytes and reading them back; the rest of the word is kept.\<close>

lemma le_bytes_store_low:
  "length bs = REGSZ rv32 \<Longrightarrow> le_bytes (store_low rv32 v bs) = bs @ drop (REGSZ rv32) (le_bytes v)"
  using REGSZ_le [of rv32] by (simp add: store_low_def le_bytes_of_le)

lemma store_low_same: "store_low rv32 v (take (REGSZ rv32) (le_bytes v)) = v"
  by (simp add: store_low_def of_le_le_bytes)

subsection \<open>The emulator keeps the contract of the library\<close>

lemma unat_REGSZ: "unat (emu_get_reg_bytes rv32 i) = REGSZ rv32"
  by (simp add: emu_get_reg_bytes_def REGSZ_def)

text \<open>The state that register accesses leave alone; the contract holds for every value of it.\<close>

definition besides_regs :: "emu \<Rightarrow> _" where
  "besides_regs e = (mem e, mem_live e, code_size e, (bp_is_set e, bp_addr e), halt e, irq e)"

interpretation emu_regs: target_regs "emu_read_reg rv32" "emu_write_reg rv32" "emu_get_reg_bytes rv32" 33
  "\<lambda>e. besides_regs e = k" "\<lambda>_ _. True" for rv32 :: bool and k
proof
  fix s :: emu and i :: nat assume i: "i < 33"
  show "\<exists>bs. emu_read_reg rv32 s (int i) = Inr (0, bs) \<and>
      length bs = unat (emu_get_reg_bytes rv32 (int i)) \<and> True"
    using i REGSZ_le [of rv32] by (auto simp: emu_read_reg_def unat_REGSZ)
next
  fix s :: emu and i :: nat and bs :: "byte list"
  assume k: "besides_regs s = k" and i: "i < 33" and bs: "length bs = unat (emu_get_reg_bytes rv32 (int i))"
  then show "\<exists>s'. emu_write_reg rv32 s (int i) bs = Inr (0, s') \<and> besides_regs s' = k \<and>
      (\<forall>j<33. emu_read_reg rv32 s' (int j) = (if j = i then Inr (0, bs) else emu_read_reg rv32 s (int j)))"
    by (auto simp: emu_write_reg_def emu_read_reg_def unat_REGSZ le_bytes_store_low besides_regs_def)
qed simp

lemma mem_access_ok:
  assumes "a + n \<le> MEM_SIZE"
  shows "\<not> (of_nat a + of_nat n > (of_nat MEM_SIZE :: size_t))"
    "unat (of_nat a :: size_t) = a" "unat (of_nat n :: size_t) = n"
proof -
  from assms have le: "a < 2 ^ 64" "n < 2 ^ 64" "a + n < 2 ^ 64" by (auto simp: MEM_SIZE_def)
  then show "unat (of_nat a :: size_t) = a" "unat (of_nat n :: size_t) = n"
    by (simp_all add: unat_of_nat)
  have "unat (of_nat a + of_nat n :: size_t) = a + n"
    using le(3) by (simp add: unat_of_nat flip: of_nat_add)
  moreover have "unat (of_nat MEM_SIZE :: size_t) = MEM_SIZE"
    by (simp add: MEM_SIZE_def)
  ultimately show "\<not> (of_nat a + of_nat n > (of_nat MEM_SIZE :: size_t))"
    using assms by (simp add: word_less_nat_alt)
qed

lemma emu_read_mem_ok:
  "a + n \<le> MEM_SIZE \<Longrightarrow> emu_read_mem e (of_nat a) (of_nat n) = Inr (0, map (\<lambda>i. mem e (a + i)) [0..<n])"
  using mem_access_ok [of a n] by (simp add: emu_read_mem_def)

lemma emu_write_mem_ok:
  "a + length bs \<le> MEM_SIZE \<Longrightarrow> emu_write_mem e (of_nat a) (of_nat (length bs)) bs =
     Inr (0, e\<lparr>mem := (\<lambda>i. if a \<le> i \<and> i < a + length bs then bs ! (i - a) else mem e i)\<rparr>)"
  using mem_access_ok [of a "length bs"] by (simp add: emu_write_mem_def cong: if_cong)

interpretation emu_memory: target_mem emu_read_mem emu_write_mem MEM_SIZE "\<lambda>_. True"
proof
  fix s :: emu and a n assume "a + n \<le> MEM_SIZE"
  then show "\<exists>bs. emu_read_mem s (of_nat a) (of_nat n) = Inr (0, bs) \<and> length bs = n"
    by (simp add: emu_read_mem_ok)
next
  fix s :: emu and a and bs :: "byte list" assume "a + length bs \<le> MEM_SIZE"
  then show "\<exists>s'. emu_write_mem s (of_nat a) (of_nat (length bs)) bs = Inr (0, s') \<and> True \<and>
      emu_read_mem s' (of_nat a) (of_nat (length bs)) = Inr (0, bs)"
    by (auto simp: emu_write_mem_ok emu_read_mem_ok intro: nth_equalityI)
next
  fix s s' :: emu and a b n and bs :: "byte list"
  assume w: "a + length bs \<le> MEM_SIZE" "emu_write_mem s (of_nat a) (of_nat (length bs)) bs = Inr (0, s')"
    and r: "b + n \<le> MEM_SIZE" "b + n \<le> a \<or> a + length bs \<le> b"
  from w have "s' = s\<lparr>mem := (\<lambda>i. if a \<le> i \<and> i < a + length bs then bs ! (i - a) else mem s i)\<rparr>"
    by (simp add: emu_write_mem_ok)
  with r show "emu_read_mem s' (of_nat b) (of_nat n) = emu_read_mem s (of_nat b) (of_nat n)"
    by (auto simp: emu_read_mem_ok)
qed

end
