(* ===== verification/Isa.thy ===== *)
theory Isa
  imports Emu
begin

text \<open>
  The instruction set that \<^verbatim>\<open>src/emu/src/emu.c\<close> emulates, written from the RV64I manual
  and not from the code: bit fields of their exact width, a hard-wired \<open>x0\<close>, and a program
  counter that is the address of the instruction being executed.  The theorems say on which
  instructions the emulator implements it, and where it does not.
\<close>

subsection \<open>Reference semantics\<close>

type_synonym reg = "5 word"

datatype instr =
    LW reg reg "12 word" | LD reg reg "12 word"
  | ADDI reg reg "12 word" | SLTI reg reg "12 word" | ADDIW reg reg "12 word"
  | AUIPC reg "20 word" | LUI reg "20 word"
  | SB reg reg "12 word" | SW reg reg "12 word" | SD reg reg "12 word"
  | ADD reg reg reg | ADDW reg reg reg
  | JALR reg reg "12 word" | JAL reg "21 word"

definition f_opcode :: "32 word \<Rightarrow> 7 word" where "f_opcode w = ucast w"
definition f_rd :: "32 word \<Rightarrow> reg" where "f_rd w = ucast (drop_bit 7 w)"
definition f_funct3 :: "32 word \<Rightarrow> 3 word" where "f_funct3 w = ucast (drop_bit 12 w)"
definition f_rs1 :: "32 word \<Rightarrow> reg" where "f_rs1 w = ucast (drop_bit 15 w)"
definition f_rs2 :: "32 word \<Rightarrow> reg" where "f_rs2 w = ucast (drop_bit 20 w)"
definition f_funct7 :: "32 word \<Rightarrow> 7 word" where "f_funct7 w = ucast (drop_bit 25 w)"
definition f_immI :: "32 word \<Rightarrow> 12 word" where "f_immI w = ucast (drop_bit 20 w)"
definition f_immU :: "32 word \<Rightarrow> 20 word" where "f_immU w = ucast (drop_bit 12 w)"

definition f_immS :: "32 word \<Rightarrow> 12 word" where
  "f_immS w = word_cat (ucast (drop_bit 25 w) :: 7 word) (ucast (drop_bit 7 w) :: 5 word)"

text \<open>The jump offset \<open>imm[20|19:12|11|10:1]\<close>, whose bit 0 is zero.\<close>

definition f_immJ :: "32 word \<Rightarrow> 21 word" where
  "f_immJ w = word_cat (ucast (drop_bit 31 w) :: 1 word)
     (word_cat (ucast (drop_bit 12 w) :: 8 word)
       (word_cat (ucast (drop_bit 20 w) :: 1 word)
         (word_cat (ucast (drop_bit 21 w) :: 10 word) (0 :: 1 word) :: 11 word) :: 12 word) :: 20 word)"

definition isa_decode :: "32 word \<Rightarrow> instr option" where
  "isa_decode w =
     (let op = f_opcode w; f3 = f_funct3 w; d = f_rd w; s1 = f_rs1 w; s2 = f_rs2 w in
      if op = 0x03 then
        (if f3 = 2 then Some (LW d s1 (f_immI w)) else if f3 = 3 then Some (LD d s1 (f_immI w)) else None)
      else if op = 0x13 then
        (if f3 = 0 then Some (ADDI d s1 (f_immI w)) else if f3 = 2 then Some (SLTI d s1 (f_immI w)) else None)
      else if op = 0x17 then Some (AUIPC d (f_immU w))
      else if op = 0x1b then (if f3 = 0 then Some (ADDIW d s1 (f_immI w)) else None)
      else if op = 0x23 then
        (if f3 = 0 then Some (SB s1 s2 (f_immS w)) else if f3 = 2 then Some (SW s1 s2 (f_immS w))
         else if f3 = 3 then Some (SD s1 s2 (f_immS w)) else None)
      else if op = 0x33 then (if f3 = 0 \<and> f_funct7 w = 0 then Some (ADD d s1 s2) else None)
      else if op = 0x37 then Some (LUI d (f_immU w))
      else if op = 0x3b then (if f3 = 0 \<and> f_funct7 w = 0 then Some (ADDW d s1 s2) else None)
      else if op = 0x67 then Some (JALR d s1 (f_immI w))
      else if op = 0x6f then Some (JAL d (f_immJ w))
      else None)"

record isa =
  regs :: "reg \<Rightarrow> 64 word"
  ipc :: "64 word"
  imem :: "nat \<Rightarrow> byte"

definition rx :: "isa \<Rightarrow> reg \<Rightarrow> 64 word" where
  "rx s r = (if r = 0 then 0 else regs s r)"

definition wx :: "reg \<Rightarrow> 64 word \<Rightarrow> isa \<Rightarrow> isa" where
  "wx r v s = (if r = 0 then s else s\<lparr>regs := (regs s)(r := v)\<rparr>)"

definition fall :: "isa \<Rightarrow> isa" where
  "fall s = s\<lparr>ipc := ipc s + 4\<rparr>"

definition isa_load :: "nat \<Rightarrow> isa \<Rightarrow> 64 word \<Rightarrow> 64 word option" where
  "isa_load n s a =
     (if unat a + n \<le> MEM_SIZE then Some (of_le (map (\<lambda>j. imem s (unat a + j)) [0..<n])) else None)"

definition isa_store :: "nat \<Rightarrow> isa \<Rightarrow> 64 word \<Rightarrow> 64 word \<Rightarrow> isa option" where
  "isa_store n s a v =
     (if unat a + n \<le> MEM_SIZE
      then Some (s\<lparr>imem := (\<lambda>j. if unat a \<le> j \<and> j < unat a + n then le_bytes v ! (j - unat a) else imem s j)\<rparr>)
      else None)"

text \<open>Sign extension of the low 32 bits.\<close>

definition sext32 :: "64 word \<Rightarrow> 64 word" where
  "sext32 v = scast (ucast v :: 32 word)"

fun isa_exec :: "instr \<Rightarrow> isa \<Rightarrow> isa option" where
  "isa_exec (LW d s1 imm) s = map_option (\<lambda>v. fall (wx d (sext32 v) s)) (isa_load 4 s (rx s s1 + scast imm))"
| "isa_exec (LD d s1 imm) s = map_option (\<lambda>v. fall (wx d v s)) (isa_load 8 s (rx s s1 + scast imm))"
| "isa_exec (ADDI d s1 imm) s = Some (fall (wx d (rx s s1 + scast imm) s))"
| "isa_exec (SLTI d s1 imm) s = Some (fall (wx d (if sint (rx s s1) < sint imm then 1 else 0) s))"
| "isa_exec (ADDIW d s1 imm) s = Some (fall (wx d (sext32 (rx s s1 + scast imm)) s))"
| "isa_exec (AUIPC d imm) s = Some (fall (wx d (ipc s + sext32 (push_bit 12 (ucast imm))) s))"
| "isa_exec (LUI d imm) s = Some (fall (wx d (sext32 (push_bit 12 (ucast imm))) s))"
| "isa_exec (SB s1 s2 imm) s = map_option fall (isa_store 1 s (rx s s1 + scast imm) (rx s s2))"
| "isa_exec (SW s1 s2 imm) s = map_option fall (isa_store 4 s (rx s s1 + scast imm) (rx s s2))"
| "isa_exec (SD s1 s2 imm) s = map_option fall (isa_store 8 s (rx s s1 + scast imm) (rx s s2))"
| "isa_exec (ADD d s1 s2) s = Some (fall (wx d (rx s s1 + rx s s2) s))"
| "isa_exec (ADDW d s1 s2) s = Some (fall (wx d (sext32 (rx s s1 + rx s s2)) s))"
| "isa_exec (JALR d s1 imm) s = Some ((wx d (ipc s + 4) s)\<lparr>ipc := (rx s s1 + scast imm) AND NOT 1\<rparr>)"
| "isa_exec (JAL d imm) s = Some ((wx d (ipc s + 4) s)\<lparr>ipc := ipc s + scast imm\<rparr>)"

text \<open>The architectural state of the emulator.\<close>

definition isa_of :: "emu \<Rightarrow> isa" where
  "isa_of e = \<lparr>regs = (\<lambda>r. if r = 0 then 0 else x e (unat r)), ipc = pc e, imem = mem e\<rparr>"

text \<open>The two places where the emulator leaves the manual: a loaded word is not sign-extended,
  and \<open>jalr\<close> reads its base register after writing the link register.\<close>

fun emulated :: "instr \<Rightarrow> isa \<Rightarrow> bool" where
  "emulated (LW d s1 imm) s =
     (case isa_load 4 s (rx s s1 + scast imm) of Some v \<Rightarrow> \<not> bit v 31 \<or> d = 0 | None \<Rightarrow> True)"
| "emulated (JALR d s1 imm) s = (d \<noteq> s1)"
| "emulated i s = True"

subsection \<open>Fields and immediates\<close>

lemma imm_masks:
  "(0xfff00000 :: 64 word) = push_bit 20 (mask 12)" "(0xfffff000 :: 64 word) = push_bit 12 (mask 20)"
  "(0xfe000000 :: 64 word) = push_bit 25 (mask 7)" "(0x1f :: 64 word) = mask 5"
  "(0xff000 :: 64 word) = push_bit 12 (mask 8)" "(0x800 :: 64 word) = push_bit 11 (mask 1)"
  "(0x7fe :: 64 word) = push_bit 1 (mask 10)"
  by (simp_all add: mask_eq_exp_minus_1)

lemmas imm_defs = int32_def decode_def f_immI_def f_immU_def f_immS_def f_immJ_def

lemma imm_i_decode: "imm_i (decode w) = scast (f_immI w)"
proof (rule bit_word_eqI)
  fix n assume "n < LENGTH(64)"
  then consider "n < 11" | "n = 11" | "11 < n" "n < 64" by fastforce
  then show "bit (imm_i (decode w)) n = bit (scast (f_immI w) :: 64 word) n"
    by cases (simp_all add: imm_i_def imm_defs imm_masks bit_simps min_def)
qed

lemma imm_s_decode: "imm_s (decode w) = scast (f_immS w)"
proof (rule bit_word_eqI)
  fix n assume "n < LENGTH(64)"
  then consider "n < 5" | "5 \<le> n" "n < 11" | "n = 11" | "11 < n" "n < 64" by fastforce
  then show "bit (imm_s (decode w)) n = bit (scast (f_immS w) :: 64 word) n"
    by cases (auto simp: imm_s_def imm_defs bit_simps min_def imm_masks)
qed

lemma imm_u_decode: "imm_u (decode w) = sext32 (push_bit 12 (ucast (f_immU w)))"
proof (rule bit_word_eqI)
  fix n assume "n < LENGTH(64)"
  then show "bit (imm_u (decode w)) n = bit (sext32 (push_bit 12 (ucast (f_immU w)))) n"
    by (auto simp: imm_u_def sext32_def imm_defs bit_simps min_def imm_masks)
qed

lemma imm_j_decode: "imm_j (decode w) = scast (f_immJ w)"
proof (rule bit_word_eqI)
  fix n assume n: "n < LENGTH(64)"
  have "n \<in> {0, 1, 2, 3, 4, 5, 6, 7, 8, 9, 10, 11, 12, 13, 14, 15, 16, 17, 18, 19,
      20, 21, 22, 23, 24, 25, 26, 27, 28, 29, 30} \<or> 31 \<le> n"
    by (simp, arith)
  then show "bit (imm_j (decode w)) n = bit (scast (f_immJ w) :: 64 word) n"
  proof
    assume "31 \<le> n"
    with n show ?thesis
      by (simp add: imm_j_def imm_defs bit_simps min_def)
  next
    assume "n \<in> {0, 1, 2, 3, 4, 5, 6, 7, 8, 9, 10, 11, 12, 13, 14, 15, 16, 17, 18, 19,
      20, 21, 22, 23, 24, 25, 26, 27, 28, 29, 30}"
    then show ?thesis
      by (elim insertE emptyE) (simp_all add: imm_j_def imm_defs bit_simps del: bit_0)
  qed
qed

lemmas imm_decode = imm_i_decode imm_s_decode imm_u_decode imm_j_decode

lemma field_byte:
  "n \<le> 8 \<Longrightarrow> LENGTH('n) = n \<Longrightarrow> (ucast (w AND mask n) :: byte) = ucast (ucast (w :: 32 word) :: 'n::len word)"
  by (rule bit_word_eqI) (auto simp: bit_simps)

lemma unat_field: "LENGTH('n) \<le> 8 \<Longrightarrow> unat (ucast (v :: 'n::len word) :: byte) = unat v"
proof -
  assume "LENGTH('n) \<le> 8"
  then have "(2::nat) ^ LENGTH('n) \<le> 2 ^ 8" by (rule power_increasing) simp
  then have "unat v < 2 ^ 8" using unsigned_less [of v, where ?'a = nat] by linarith
  then show ?thesis
    by (simp add: unsigned_ucast_eq take_bit_nat_eq_self_iff)
qed

lemma field_byte_eq: "LENGTH('n) \<le> 8 \<Longrightarrow> (ucast (v :: 'n::len word) :: byte) = ucast u \<longleftrightarrow> v = u"
  by (metis unat_field unsigned_word_eqI)

lemma field_masks: "(0x7f :: 32 word) = mask 7" "(0x1f :: 32 word) = mask 5" "(0x7 :: 32 word) = mask 3"
  by (simp_all add: mask_eq_exp_minus_1)

lemma decode_fields:
  "(ucast (w AND 0x7f) :: byte) = ucast (f_opcode w)"
  "rd (decode w) = ucast (f_rd w)" "rs1 (decode w) = ucast (f_rs1 w)" "rs2 (decode w) = ucast (f_rs2 w)"
  "funct3 (decode w) = ucast (f_funct3 w)" "funct7 (decode w) = ucast (f_funct7 w)"
  by (simp_all add: decode_def f_opcode_def f_rd_def f_rs1_def f_rs2_def f_funct3_def f_funct7_def
      field_masks field_byte)

lemma opcode_eqs:
  fixes v :: "7 word"
  shows "(ucast v :: byte) = 0x3 \<longleftrightarrow> v = 0x3" "(ucast v :: byte) = 0x13 \<longleftrightarrow> v = 0x13"
    "(ucast v :: byte) = 0x17 \<longleftrightarrow> v = 0x17" "(ucast v :: byte) = 0x1b \<longleftrightarrow> v = 0x1b"
    "(ucast v :: byte) = 0x23 \<longleftrightarrow> v = 0x23" "(ucast v :: byte) = 0x33 \<longleftrightarrow> v = 0x33"
    "(ucast v :: byte) = 0x37 \<longleftrightarrow> v = 0x37" "(ucast v :: byte) = 0x3b \<longleftrightarrow> v = 0x3b"
    "(ucast v :: byte) = 0x67 \<longleftrightarrow> v = 0x67" "(ucast v :: byte) = 0x6f \<longleftrightarrow> v = 0x6f"
    "(ucast v :: byte) = 0 \<longleftrightarrow> v = 0"
  using field_byte_eq [of v "0x3"] field_byte_eq [of v "0x13"] field_byte_eq [of v "0x17"]
    field_byte_eq [of v "0x1b"] field_byte_eq [of v "0x23"] field_byte_eq [of v "0x33"]
    field_byte_eq [of v "0x37"] field_byte_eq [of v "0x3b"] field_byte_eq [of v "0x67"]
    field_byte_eq [of v "0x6f"] field_byte_eq [of v 0] by simp_all

lemma funct3_eqs:
  fixes v :: "3 word"
  shows "(ucast v :: byte) = 0 \<longleftrightarrow> v = 0" "(ucast v :: byte) = 2 \<longleftrightarrow> v = 2" "(ucast v :: byte) = 3 \<longleftrightarrow> v = 3"
  using field_byte_eq [of v 0] field_byte_eq [of v 2] field_byte_eq [of v 3] by simp_all

subsection \<open>Memory accesses\<close>

lemma read_len_loop_of_le:
  "read_len_loop m a i k v = v OR push_bit (8 * i) (of_le (map (\<lambda>j. m (a + j)) [i..<i + k]))"
proof (induction k arbitrary: i v)
  case (Suc k)
  have "[i..<i + Suc k] = i # [Suc i..<Suc i + k]" by (simp add: upt_conv_Cons)
  then show ?case using Suc by (simp add: push_bit_or ac_simps)
qed simp

lemma read_len_isa:
  "read_len (8 * n) (mem e) a = (case isa_load n (isa_of e) a of None \<Rightarrow> Inl OutOfBounds | Some v \<Rightarrow> Inr v)"
  by (simp add: read_len_def isa_load_def isa_of_def read_len_loop_of_le)

lemma write_len_loop_le_bytes:
  "i + k \<le> 8 \<Longrightarrow> write_len_loop m a i k v =
     (\<lambda>j. if a + i \<le> j \<and> j < a + i + k then le_bytes v ! (j - a) else m j)"
proof (induction k arbitrary: i m)
  case (Suc k)
  have "ucast (drop_bit (i * 8) v AND 0xff) = le_bytes v ! i"
  proof -
    have ff: "(0xff :: 64 word) = mask 8" by (simp add: mask_eq_exp_minus_1)
    show ?thesis
      unfolding ff using Suc.prems by (intro bit_word_eqI) (simp add: nth_le_bytes bit_simps ac_simps)
  qed
  with Suc show ?case by (auto simp: fun_eq_iff)
qed (auto simp: fun_eq_iff)

lemma write_len_isa:
  "n \<le> 8 \<Longrightarrow> write_len (8 * n) (mem e) a v =
     (case isa_store n (isa_of e) a v of None \<Rightarrow> Inl OutOfBounds | Some s \<Rightarrow> Inr (imem s))"
  by (simp add: write_len_def isa_store_def isa_of_def write_len_loop_le_bytes cong: if_cong)


subsection \<open>One instruction\<close>

lemma take_bit_32_add: "take_bit 32 (take_bit 64 v + take_bit 64 u) = take_bit 32 (v + u :: int)"
  using take_bit_add [of 32 "take_bit 64 v" "take_bit 64 u"] take_bit_add [of 32 v u] by simp

lemma scast_ucast_32: "scast (ucast (v :: 64 word) + ucast (u :: 64 word) :: 32 word) = sext32 (v + u)"
proof -
  have "ucast v + ucast u = (ucast (v + u) :: 32 word)"
    by transfer (simp add: take_bit_32_add)
  then show ?thesis by (simp add: sext32_def)
qed

text \<open>Writing \<open>x0\<close> leaves the architectural state alone.\<close>

lemma unat_eq_0_iff: "unat v = 0 \<longleftrightarrow> v = 0"
  by (metis unsigned_0 unsigned_word_eqI)

lemma isa_of_set_x: "isa_of (set_x (ucast r) v e) = wx r v (isa_of e)"
  by (auto simp: isa_of_def set_x_def wx_def unat_field fun_eq_iff unat_eq_0_iff
      dest: unsigned_word_eqI)

lemma isa_of_set_x0: "isa_of (set_x 0 v e) = isa_of e"
  using isa_of_set_x [of 0 v e] by (simp add: wx_def)

lemma wx_0 [simp]: "wx 0 v s = s"
  by (simp add: wx_def)

lemma isa_of_pc: "isa_of (e\<lparr>pc := a\<rparr>) = (isa_of e)\<lparr>ipc := a\<rparr>"
  by (simp add: isa_of_def cong: if_cong)

lemma isa_of_mem: "isa_of (e\<lparr>mem := m\<rparr>) = (isa_of e)\<lparr>imem := m\<rparr>"
  by (simp add: isa_of_def cong: if_cong)

lemma get_x_isa: "x e 0 = 0 \<Longrightarrow> get_x e (ucast r) = rx (isa_of e) r"
  by (simp add: get_x_def rx_def isa_of_def unat_field)

lemma get_x_set_x: "r \<noteq> r' \<Longrightarrow> get_x (set_x (ucast (r :: reg)) v e) (ucast (r' :: reg)) = get_x e (ucast r')"
  by (auto simp: get_x_def set_x_def unat_field dest: unsigned_word_eqI)

lemma pc_set_x [simp]: "pc (set_x r v e) = pc e"
  by (simp add: set_x_def)

lemma fall_simps [simp]: "rx (fall s) r = rx s r" "ipc (fall s) = ipc s + 4" "imem (fall s) = imem s"
  "wx r v (fall s) = fall (wx r v s)"
  by (simp_all add: rx_def fall_def wx_def)

lemma fall_ipc [simp]: "(fall s)\<lparr>ipc := a\<rparr> = s\<lparr>ipc := a\<rparr>" "ipc (wx r v s) = ipc s"
  by (simp_all add: fall_def wx_def)

lemma isa_load_fall [simp]: "isa_load n (fall s) a = isa_load n s a"
  by (simp add: isa_load_def)

lemma isa_store_fall [simp]: "isa_store n (fall s) a v = map_option fall (isa_store n s a v)"
  by (simp add: isa_store_def fall_def cong: if_cong)

lemma isa_store_imem: "isa_store n s a v = Some s' \<Longrightarrow> (fall s)\<lparr>imem := imem s'\<rparr> = fall s'"
  by (auto simp: isa_store_def fall_def split: if_splits)

lemma sint_scast_12: "sint (scast (v :: 12 word) :: 64 word) = sint v"
  by transfer (simp add: signed_take_bit_signed_take_bit min_def)

lemma isa_load_4_bound: "isa_load 4 s a = Some v \<Longrightarrow> 32 \<le> n \<Longrightarrow> \<not> bit v n"
  by (auto simp: isa_load_def bit_of_le split: if_splits)

lemma sext32_word:
  assumes "isa_load 4 s a = Some v" "\<not> bit v 31"
  shows "sext32 v = v"
proof (rule bit_word_eqI)
  fix n assume "n < LENGTH(64)"
  then consider "n < 31" | "n = 31" | "32 \<le> n" "n < 64" by fastforce
  then show "bit (sext32 v) n = bit v n"
    using assms isa_load_4_bound [OF assms(1), of n] by cases (simp_all add: sext32_def bit_simps min_def)
qed

lemma read_len_32: "read_len 32 (mem e) a = (case isa_load 4 (isa_of e) a of None \<Rightarrow> Inl OutOfBounds | Some v \<Rightarrow> Inr v)"
  and read_len_64: "read_len 64 (mem e) a = (case isa_load 8 (isa_of e) a of None \<Rightarrow> Inl OutOfBounds | Some v \<Rightarrow> Inr v)"
  using read_len_isa [of 4 e a] read_len_isa [of 8 e a] by simp_all

lemma write_len_n:
  "write_len 8 (mem e) a v = (case isa_store 1 (isa_of e) a v of None \<Rightarrow> Inl OutOfBounds | Some s \<Rightarrow> Inr (imem s))"
  "write_len 32 (mem e) a v = (case isa_store 4 (isa_of e) a v of None \<Rightarrow> Inl OutOfBounds | Some s \<Rightarrow> Inr (imem s))"
  "write_len 64 (mem e) a v = (case isa_store 8 (isa_of e) a v of None \<Rightarrow> Inl OutOfBounds | Some s \<Rightarrow> Inr (imem s))"
  using write_len_isa [of 1 e a v] write_len_isa [of 4 e a v] write_len_isa [of 8 e a v] by simp_all

definition view :: "(int \<times> emu) res \<Rightarrow> (int \<times> isa) res" where
  "view = map_sum id (map_prod id isa_of)"

lemma emu_exec_view:
  assumes x0: "x e 0 = 0" and s: "isa_of e = fall s"
    and ok: "\<And>i. isa_decode w = Some i \<Longrightarrow> emulated i s"
  shows "view (emu_exec e w) =
    (case isa_decode w of
       None \<Rightarrow> Inr (-1, fall s)
     | Some i \<Rightarrow> (case isa_exec i s of None \<Rightarrow> Inl OutOfBounds | Some s' \<Rightarrow> Inr (0, s')))"
proof -
  have e: "e\<lparr>x := (x e)(0 := 0)\<rparr> = e" using x0 by (simp add: fun_upd_idem)
  have pc: "pc e = ipc s + 4" using arg_cong [OF s, of ipc] by (simp add: isa_of_def)
  note [simp] = get_x_isa [OF x0] s pc decode_fields opcode_eqs funct3_eqs imm_decode isa_of_set_x isa_of_set_x0 view_def
  consider "f_opcode w = 0x3" | "f_opcode w = 0x13" | "f_opcode w = 0x17" | "f_opcode w = 0x1b"
    | "f_opcode w = 0x23" | "f_opcode w = 0x33" | "f_opcode w = 0x37" | "f_opcode w = 0x3b"
    | "f_opcode w = 0x67" | "f_opcode w = 0x6f" | "f_opcode w \<notin> {0x3, 0x13, 0x17, 0x1b, 0x23, 0x33, 0x37, 0x3b, 0x67, 0x6f}"
    by blast
  then show ?thesis
  proof cases
    case 1
    then show ?thesis using ok
      by (auto simp: emu_exec_def e Let_def isa_decode_def opcode_3_def read_len_32 read_len_64 
          sext32_word split: option.splits)
  next
    case 2
    then show ?thesis
      by (simp add: emu_exec_def e Let_def isa_decode_def opcode_13_def sint_scast_12)
  next
    case 3
    then show ?thesis
      by (simp add: emu_exec_def e Let_def isa_decode_def opcode_17_def)
  next
    case 4
    then show ?thesis
      by (simp add: emu_exec_def e Let_def isa_decode_def opcode_1b_def scast_ucast_32)
  next
    case 5
    then show ?thesis
      by (auto simp: emu_exec_def e Let_def isa_decode_def opcode_23_def write_len_n isa_of_mem  
          isa_store_imem split: option.splits)
  next
    case 6
    then show ?thesis
      by (simp add: emu_exec_def e Let_def isa_decode_def opcode_33_def)
  next
    case 7
    then show ?thesis
      by (simp add: emu_exec_def e Let_def isa_decode_def opcode_37_def)
  next
    case 8
    then show ?thesis
      by (simp add: emu_exec_def e Let_def isa_decode_def opcode_3b_def scast_ucast_32)
  next
    case 9
    then show ?thesis using ok
      by (simp add: emu_exec_def e Let_def isa_decode_def opcode_67_def isa_of_pc get_x_set_x)
  next
    case 10
    then show ?thesis
      by (simp add: emu_exec_def e Let_def isa_decode_def opcode_6f_def isa_of_pc)
  next
    case 11
    then show ?thesis
      by (simp add: emu_exec_def e Let_def isa_decode_def)
  qed
qed

lemma emu_exec_x0: "emu_exec (e\<lparr>x := (x e)(0 := 0)\<rparr>) w = emu_exec e w"
  by (simp add: emu_exec_def)

lemma isa_of_x0: "isa_of (e\<lparr>x := (x e)(0 := 0)\<rparr>) = isa_of e"
  by (auto simp: isa_of_def unat_eq_0_iff)

lemma emu_exec_isa:
  assumes "\<And>i. isa_decode w = Some i \<Longrightarrow> emulated i (isa_of e)"
  shows "view (emu_exec (e\<lparr>pc := pc e + 4\<rparr>) w) =
    (case isa_decode w of
       None \<Rightarrow> Inr (-1, fall (isa_of e))
     | Some i \<Rightarrow> (case isa_exec i (isa_of e) of None \<Rightarrow> Inl OutOfBounds | Some s' \<Rightarrow> Inr (0, s')))"
proof -
  let ?e = "e\<lparr>pc := pc e + 4\<rparr>"
  have "isa_of (?e\<lparr>x := (x ?e)(0 := 0)\<rparr>) = fall (isa_of e)"
    unfolding isa_of_x0 isa_of_pc by (simp add: fall_def isa_of_def)
  from emu_exec_view [OF _ this] assms show ?thesis
    unfolding emu_exec_x0 by simp
qed



text \<open>A loaded word is not sign-extended: after \<open>lw x1, 0(x2)\<close> on a word with bit 31 set,
  the emulator's \<open>x1\<close> differs from the one of the manual.\<close>

lemma lw_not_sign_extended:
  "let e = (emu_init [])\<lparr>x := (\<lambda>_. 0), mem := (\<lambda>_. 0xff)\<rparr> in
   map_sum id (\<lambda>(r, e'). x e' 1) (emu_exec (e\<lparr>pc := 4\<rparr>) 0x00012083) = Inr 0xffffffff \<and>
   map_option (\<lambda>s. regs s 1) (isa_exec (the (isa_decode 0x00012083)) (isa_of e)) = Some 0xffffffffffffffff"
  by code_simp

text \<open>\<open>jalr\<close> with the same link and base register jumps relative to the return address:
  \<open>jalr x1, 0(x1)\<close> at address 0 with \<open>x1 = 0x100\<close> goes to 4 instead of \<open>0x100\<close>.\<close>

lemma jalr_same_register:
  "let e = (emu_init [])\<lparr>x := (\<lambda>_. 0x100)\<rparr> in
   map_sum id (\<lambda>(r, e'). pc e') (emu_exec (e\<lparr>pc := 4\<rparr>) 0x000080e7) = Inr 4 \<and>
   map_option ipc (isa_exec (the (isa_decode 0x000080e7)) (isa_of e)) = Some 0x100"
  by code_simp

end
