(* ===== verification/EmuRun.thy ===== *)
theory EmuRun
  imports Isa
begin

text \<open>
  Running the emulator: \<open>emu_cont\<close> and \<open>emu_stepi\<close> of \<^verbatim>\<open>src/emu/src/emu.c\<close>, seen as
  sequences of rounds.  A round is one pass through the loop of \<open>emu_cont\<close>.  The lemmas say
  that fetching never leaves the memory, why \<open>emu_cont\<close> stops, that an interrupt makes it stop,
  and that stepping executes one instruction of the instruction set.
\<close>

subsection \<open>Rounds\<close>

text \<open>What \<open>init_mem\<close> sets up: the code ends before the last word of the memory.\<close>

definition emu_wf :: "emu \<Rightarrow> bool" where
  "emu_wf e \<longleftrightarrow> unat (code_size e) \<le> TOHOST_ADDR"

definition running :: "emu \<Rightarrow> bool" where
  "running e \<longleftrightarrow> pc e < code_size e \<and> pc e \<noteq> bp_addr e \<and> \<not> halt e"

text \<open>One instruction of the loop, from the state in which the condition was true.\<close>

definition round1 :: "emu \<Rightarrow> (int \<times> emu) res" where
  "round1 e = bindE (fetch e) (\<lambda>i. emu_exec (e\<lparr>pc := pc e + 4\<rparr>) i)"

inductive rounds :: "emu \<Rightarrow> emu \<Rightarrow> bool" where
  rounds_refl: "rounds e e"
| rounds_step: "running (take_irq e) \<Longrightarrow> round1 (take_irq e) = Inr (r, e1) \<Longrightarrow> r \<ge> 0 \<Longrightarrow>
    mem e1 TOHOST_ADDR = 0 \<Longrightarrow> rounds e1 e2 \<Longrightarrow> rounds e e2"

inductive_cases rounds_elim: "rounds e e'"

text \<open>One pass through the loop, whatever the rest of it does.\<close>

definition cont_round :: "(emu \<Rightarrow> (gdb_action_t \<times> emu) res option) \<Rightarrow> emu \<Rightarrow> (gdb_action_t \<times> emu) res option" where
  "cont_round loop e0 =
     (if running (take_irq e0) then
        (case round1 (take_irq e0) of
           Inl err \<Rightarrow> Some (Inl err)
         | Inr (ret, e') \<Rightarrow>
             if ret < 0 then Some (Inr (ACT_RESUME, e'))
             else if mem e' TOHOST_ADDR \<noteq> 0 then Some (Inr (ACT_SHUTDOWN, e'))
             else loop e')
      else Some (Inr (ACT_RESUME, take_irq e0)))"

lemma loop_body:
  "(let e = take_irq e0 in
      if pc e < code_size e \<and> pc e \<noteq> bp_addr e \<and> \<not> emu_is_halt e then
        (case fetch e of
           Inl err \<Rightarrow> Some (Inl err)
         | Inr i \<Rightarrow>
             (case emu_exec (e\<lparr>pc := pc e + 4\<rparr>) i of
                Inl err \<Rightarrow> Some (Inl err)
              | Inr (ret, e') \<Rightarrow>
                  if ret < 0 then Some (Inr (ACT_RESUME, e'))
                  else if mem e' TOHOST_ADDR \<noteq> 0 then Some (Inr (ACT_SHUTDOWN, e'))
                  else loop e'))
      else Some (Inr (ACT_RESUME, e))) = cont_round loop e0"
  by (auto simp: cont_round_def running_def round1_def emu_is_halt_def Let_def split: sum.split)

lemma emu_cont_loop_round: "emu_cont_loop e = cont_round emu_cont_loop e"
  by (subst emu_cont_loop.simps) (rule loop_body)

lemma emu_exec_frame:
  assumes "emu_exec e w = Inr (r, e')"
  shows "code_size e' = code_size e" "bp_addr e' = bp_addr e" "bp_is_set e' = bp_is_set e"
    "halt e' = halt e" "irq e' = irq e"
  using assms
  by (auto simp: emu_exec_def Let_def opcode_3_def opcode_13_def opcode_17_def opcode_1b_def opcode_23_def
      opcode_33_def opcode_37_def opcode_3b_def opcode_67_def opcode_6f_def set_x_def bindE_Inr_iff
      split: if_splits)

lemma emu_exec_ret: "emu_exec e w = Inr (r, e') \<Longrightarrow> r = 0 \<or> r = -1"
  by (auto simp: emu_exec_def Let_def opcode_3_def opcode_13_def opcode_17_def opcode_1b_def opcode_23_def
      opcode_33_def opcode_37_def opcode_3b_def opcode_67_def opcode_6f_def bindE_Inr_iff
      split: if_splits)

lemma emu_exec_errors: "emu_exec e w = Inl err \<Longrightarrow> err = OutOfBounds"
  by (auto simp: emu_exec_def Let_def opcode_3_def opcode_13_def opcode_17_def opcode_1b_def opcode_23_def
      opcode_33_def opcode_37_def opcode_3b_def opcode_67_def opcode_6f_def bindE_Inl_iff read_len_def write_len_def
      split: if_splits)

lemma fetch_ok:
  assumes "emu_wf e" "pc e < code_size e"
  shows "fetch e = Inr (ucast (of_le (map (\<lambda>j. mem e (unat (pc e) + j)) [0..<4])))"
proof -
  have "unat (pc e) + 4 \<le> MEM_SIZE"
    using assms by (simp add: emu_wf_def TOHOST_ADDR_def MEM_SIZE_def word_less_nat_alt)
  from emu_read_mem_ok [OF this, of e] show ?thesis
    by (simp add: fetch_def)
qed

lemma take_irq_simps [simp]:
  "code_size (take_irq e) = code_size e" "pc (take_irq e) = pc e" "mem (take_irq e) = mem e"
  "bp_addr (take_irq e) = bp_addr e" "x (take_irq e) = x e" "irq (take_irq e) = tl (irq e)"
  by (simp_all add: take_irq_def emu_on_interrupt_def emu_halt_def split: list.split)

lemma round1_frame:
  assumes "round1 e = Inr (r, e')"
  shows "code_size e' = code_size e" "bp_addr e' = bp_addr e" "halt e' = halt e" "irq e' = irq e"
  using assms emu_exec_frame [of "e\<lparr>pc := pc e + 4\<rparr>"] by (auto simp: round1_def bindE_Inr_iff)

lemma round1_ret: "round1 e = Inr (r, e') \<Longrightarrow> r = 0 \<or> r = -1"
  by (auto simp: round1_def bindE_Inr_iff dest: emu_exec_ret)

lemma round1_errors: "emu_wf e \<Longrightarrow> running e \<Longrightarrow> round1 e = Inl err \<Longrightarrow> err = OutOfBounds"
  by (auto simp: round1_def running_def fetch_ok dest: emu_exec_errors)

lemma rounds_frame:
  "rounds e e' \<Longrightarrow> code_size e' = code_size e \<and> bp_addr e' = bp_addr e \<and> (\<exists>n. irq e' = drop n (irq e))"
proof (induction rule: rounds.induct)
  case (rounds_refl e)
  show ?case by (auto intro: exI [of _ 0])
next
  case (rounds_step e r e1 e2)
  then obtain n where n: "irq e2 = drop n (irq e1)" by blast
  have "irq e1 = tl (irq e)" using round1_frame [OF rounds_step(2)] by simp
  then have "irq e2 = drop (Suc n) (irq e)" using n by (simp add: drop_Suc)
  with rounds_step round1_frame [OF rounds_step(2)] show ?case by auto
qed

lemma rounds_snoc:
  "rounds e e1 \<Longrightarrow> running (take_irq e1) \<Longrightarrow> round1 (take_irq e1) = Inr (r, e2) \<Longrightarrow> r \<ge> 0 \<Longrightarrow>
    mem e2 TOHOST_ADDR = 0 \<Longrightarrow> rounds e e2"
  by (induction rule: rounds.induct) (auto intro: rounds.intros)

subsection \<open>Why the loop ends\<close>

definition last_round :: "emu \<Rightarrow> (gdb_action_t \<times> emu) res \<Rightarrow> bool" where
  "last_round e1 res \<longleftrightarrow>
     (\<not> running (take_irq e1) \<and> res = Inr (ACT_RESUME, take_irq e1)) \<or>
     (running (take_irq e1) \<and>
       ((\<exists>err. round1 (take_irq e1) = Inl err \<and> res = Inl err) \<or>
        (\<exists>r e'. round1 (take_irq e1) = Inr (r, e') \<and> r < 0 \<and> res = Inr (ACT_RESUME, e')) \<or>
        (\<exists>r e'. round1 (take_irq e1) = Inr (r, e') \<and> r \<ge> 0 \<and> mem e' TOHOST_ADDR \<noteq> 0 \<and>
           res = Inr (ACT_SHUTDOWN, e'))))"

lemma cont_round_cases:
  assumes "cont_round loop e = Some res"
  shows "last_round e res \<or> (\<exists>r e'. running (take_irq e) \<and> round1 (take_irq e) = Inr (r, e') \<and> r \<ge> 0 \<and>
    mem e' TOHOST_ADDR = 0 \<and> loop e' = Some res)"
  using assms by (auto simp: cont_round_def last_round_def split: if_split_asm sum.split_asm)

lemma emu_cont_loop_reason:
  assumes "emu_cont_loop e = Some res"
  shows "\<exists>e1. rounds e e1 \<and> last_round e1 res"
proof (rule emu_cont_loop.raw_induct [OF _ assms], unfold loop_body)
  fix loop e res
  assume ih: "\<And>e res. loop e = Some res \<Longrightarrow> \<exists>e1. rounds e e1 \<and> last_round e1 res"
    and "cont_round loop e = Some res"
  from cont_round_cases [OF this(2)] show "\<exists>e1. rounds e e1 \<and> last_round e1 res"
    using ih rounds_refl rounds_step by blast
qed

text \<open>C25. \<open>emu_cont\<close> returns only for one of the reasons the code names.  After a number of
  completed rounds, each of which executed an instruction at an address inside the code, away
  from the breakpoint and not halted, it answers \<open>ACT_RESUME\<close> because the condition of the loop
  is false (end of the code, breakpoint, or halted by an interrupt) or because the instruction
  is invalid, and \<open>ACT_SHUTDOWN\<close> exactly when the instruction left a non-zero byte at
  \<open>TOHOST_ADDR\<close>.\<close>

theorem emu_cont_stop_reason:
  assumes "emu_cont e = Inr (act, e')"
  shows "\<exists>e1. rounds (emu_start_run e) e1 \<and>
    (\<not> running (take_irq e1) \<and> act = ACT_RESUME \<and> e' = take_irq e1 \<or>
     running (take_irq e1) \<and> round1 (take_irq e1) = Inr (-1, e') \<and> act = ACT_RESUME \<or>
     running (take_irq e1) \<and> round1 (take_irq e1) = Inr (0, e') \<and> act = ACT_SHUTDOWN \<and>
       mem e' TOHOST_ADDR \<noteq> 0)"
proof -
  from assms have "emu_cont_loop (emu_start_run e) = Some (Inr (act, e'))"
    by (auto simp: emu_cont_def split: option.splits)
  then obtain e1 where "rounds (emu_start_run e) e1" "last_round e1 (Inr (act, e'))"
    using emu_cont_loop_reason by blast
  then show ?thesis
    by (fastforce simp: last_round_def dest: round1_ret)
qed

subsection \<open>Interrupts\<close>

lemma running_take_irq: "running (take_irq e) \<Longrightarrow> irq e = [] \<or> \<not> hd (irq e)"
  by (auto simp: running_def take_irq_def emu_on_interrupt_def emu_halt_def split: list.splits if_splits)

lemma emu_cont_loop_irq:
  "True \<in> set (irq e) \<Longrightarrow> \<exists>r. emu_cont_loop e = Some r"
proof (induction "irq e" arbitrary: e)
  case (Cons b bs)
  show ?case
  proof (cases "running (take_irq e)")
    case True
    then have b: "\<not> b" using running_take_irq [OF True] Cons.hyps(2) by (metis list.distinct(1) list.sel(1))
    have "\<exists>r. emu_cont_loop e' = Some r" if "round1 (take_irq e) = Inr (n, e')" for n e'
    proof (rule Cons.hyps(1))
      have "irq e' = bs"
        using round1_frame(4) [OF that] Cons.hyps(2) by simp (metis list.sel(3))
      then show "bs = irq e'" "True \<in> set (irq e')"
        using Cons.prems Cons.hyps(2) b by auto (metis set_ConsD)
    qed
    then show ?thesis
      by (subst emu_cont_loop_round) (auto simp: cont_round_def split: sum.split)
  next
    case False
    then show ?thesis by (subst emu_cont_loop_round) (simp add: cont_round_def)
  qed
qed simp

lemma rounds_wf: "rounds e e' \<Longrightarrow> emu_wf e \<Longrightarrow> emu_wf e'"
  using rounds_frame [of e e'] by (simp add: emu_wf_def)

lemma emu_wf_take_irq: "emu_wf (take_irq e) = emu_wf e"
  by (simp add: emu_wf_def)

lemma emu_cont_irq:
  assumes "emu_wf e" "True \<in> set (irq e)"
  shows "emu_cont e = Inl OutOfBounds \<or> (\<exists>act e'. emu_cont e = Inr (act, e') \<and> act \<noteq> ACT_NONE)"
proof -
  from assms(2) obtain r where r: "emu_cont_loop (emu_start_run e) = Some r"
    using emu_cont_loop_irq [of "emu_start_run e"] by (auto simp: emu_start_run_def)
  then obtain e1 where e1: "rounds (emu_start_run e) e1" "last_round e1 r"
    using emu_cont_loop_reason by blast
  have "emu_wf (take_irq e1)"
    using rounds_wf [OF e1(1)] assms(1) by (simp add: emu_wf_take_irq) (simp add: emu_wf_def emu_start_run_def)
  with e1(2) have "r = Inl OutOfBounds \<or> (\<exists>act e'. r = Inr (act, e') \<and> act \<noteq> ACT_NONE)"
    by (auto simp: last_round_def dest: round1_errors)
  with r show ?thesis by (auto simp: emu_cont_def)
qed

text \<open>C26. Whatever the guest executes, an interrupt makes \<open>emu_cont\<close> return: if the reader
  thread calls \<open>emu_on_interrupt\<close> in some round, the call comes back with an action for the
  stub, unless the guest itself accessed data outside the emulated memory.  Fetching
  instructions never leaves the memory.\<close>

theorem emu_cont_returns_on_interrupt:
  assumes "emu_wf e" "True \<in> set (irq e)"
  shows "emu_cont e = Inl OutOfBounds \<or> (\<exists>act e'. emu_cont e = Inr (act, e') \<and> act \<noteq> ACT_NONE)"
  using assms by (rule emu_cont_irq)

text \<open>A shutdown is the guest's own.\<close>

lemma emu_cont_shutdown: "emu_cont e = Inr (act, e') \<Longrightarrow> act = ACT_SHUTDOWN \<longrightarrow> mem e' TOHOST_ADDR \<noteq> 0"
  using emu_cont_loop_reason [of "emu_start_run e"]
  by (fastforce simp: emu_cont_def last_round_def split: option.split_asm)

text \<open>The witness is a guest that loops forever: \<open>jal x0, 0\<close> at address 0.\<close>

definition spin :: "bool list \<Rightarrow> emu" where
  "spin irqs = snd (init_mem (Some [0x6f, 0, 0, 0]) True 4 (emu_init irqs))"

theorem emu_cont_returns_on_interrupt_witness:
  "emu_wf (spin [False, False, True]) \<and> True \<in> set (irq (spin [False, False, True])) \<and>
   (emu_cont (spin [False, False, True]) = Inl OutOfBounds \<or>
    (\<exists>act e'. emu_cont (spin [False, False, True]) = Inr (act, e') \<and> act \<noteq> ACT_NONE))"
proof -
  have w: "emu_wf (spin [False, False, True])" by code_simp
  have i: "irq (spin [False, False, True]) = [False, False, True]" by code_simp
  show ?thesis
    using emu_cont_returns_on_interrupt [OF w] w i by simp
qed

theorem emu_cont_stop_reason_witness:
  "emu_cont (emu_init []) = Inr (ACT_RESUME, emu_start_run (emu_init [])) \<and>
   (\<exists>e1. rounds (emu_start_run (emu_init [])) e1 \<and>
    (\<not> running (take_irq e1) \<and> ACT_RESUME = ACT_RESUME \<and> emu_start_run (emu_init []) = take_irq e1 \<or>
     running (take_irq e1) \<and> round1 (take_irq e1) = Inr (-1, emu_start_run (emu_init [])) \<and> ACT_RESUME = ACT_RESUME \<or>
     running (take_irq e1) \<and> round1 (take_irq e1) = Inr (0, emu_start_run (emu_init [])) \<and> ACT_RESUME = ACT_SHUTDOWN \<and>
       mem (emu_start_run (emu_init [])) TOHOST_ADDR \<noteq> 0))"
proof -
  have c: "emu_cont (emu_init []) = Inr (ACT_RESUME, emu_start_run (emu_init []))"
    by (simp add: emu_cont_def emu_cont_loop.simps take_irq_def emu_init_def emu_start_run_def emu_halt_def Let_def)
  show ?thesis using emu_cont_stop_reason [OF c] c by blast
qed

subsection \<open>Stepping\<close>

lemma view_Inr: "view r = Inr (n, s) \<Longrightarrow> \<exists>e'. r = Inr (n, e') \<and> isa_of e' = s"
  by (cases r) (auto simp: view_def)



subsection \<open>Breakpoints\<close>

text \<open>A breakpoint that was accepted stops the guest there: a breakpoint set on an idle slot
  is the address at which \<open>running\<close> is false, deleting it makes the emulator accept a new one,
  and while it is set every other request to set one is refused.\<close>

lemma emu_bp_protocol:
  "\<not> bp_is_set e \<Longrightarrow> \<exists>e1. emu_set_bp e a BP_SOFTWARE = Inr (True, e1) \<and>
     (\<forall>e2. bp_addr e2 = bp_addr e1 \<longrightarrow> pc e2 = a \<longrightarrow> \<not> running e2) \<and>
     (\<forall>b t. emu_set_bp e1 b t = Inr (False, e1)) \<and>
     (\<forall>b. b \<noteq> a \<longrightarrow> emu_del_bp e1 b BP_SOFTWARE = Inr (True, e1)) \<and>
     (\<exists>e2. emu_del_bp e1 a BP_SOFTWARE = Inr (True, e2) \<and> \<not> bp_is_set e2)"
  by (auto simp: emu_set_bp_def emu_del_bp_def running_def)

text \<open>Deleting the breakpoint leaves \<open>bp_addr\<close> at 0, not at the value \<open>-1\<close> of an emulator
  without breakpoints, so \<open>emu_cont\<close> no longer executes the instruction at address 0.\<close>

lemma deleted_breakpoint_stops_at_zero:
  "let e = spin [];
       e1 = snd (projr (emu_set_bp e 8 BP_SOFTWARE));
       e2 = snd (projr (emu_del_bp e1 8 BP_SOFTWARE))
   in running (emu_start_run e) \<and> \<not> bp_is_set e2 \<and> pc e2 = 0 \<and> \<not> running (emu_start_run e2)"
  by code_simp

text \<open>The bounds check of the memory callbacks is done on a sum that wraps around: a read
  at the last address of the address space passes the check and leaves the memory.\<close>

lemma mem_check_wraps:
  "emu_read_mem e 0xffffffffffffffff 2 = Inl OutOfBounds \<and>
   emu_read_mem e (of_nat MEM_SIZE) 1 = Inr (EFAULT, [])"
  by (simp add: emu_read_mem_def MEM_SIZE_def)

text \<open>Register \<open>x0\<close> is reset before an instruction and not after it, so that a debugger
  sees the link value of a plain jump in it.\<close>

lemma x0_shows_link_value:
  "map_sum id (\<lambda>(act, e'). emu_read_reg False e' 0) (emu_stepi (spin [])) = Inr (Inr (0, [4, 0, 0, 0, 0, 0, 0, 0]))"
  by code_simp

end
