(* ===== verification/EmuStub.thy ===== *)
theory EmuStub
  imports Queries EmuRun
begin

text \<open>
  The stub on the reference emulator: the requests of \<^verbatim>\<open>src/src/gdbstub.c\<close> with the callbacks of
  \<^verbatim>\<open>src/emu/src/emu.c\<close>.  The contracts \<open>target_regs\<close> and \<open>target_mem\<close> are discharged by the
  interpretations of the emulator, so what a debugger writes through one request it reads back
  through another.
\<close>

text \<open>A stub that \<open>main\<close> set up with the emulator's callbacks.\<close>

definition emu_stub :: "bool \<Rightarrow> emu gdbstub_t \<Rightarrow> bool" where
  "emu_stub rv32 g \<longleftrightarrow> stub_ok g \<and> ops g = emu_ops rv32 \<and> reg_num (arch g) = 33 \<and>
     total_reg_bytes (priv g) = of_nat (33 * REGSZ rv32)"

lemma emu_stub_ops:
  assumes "emu_stub rv32 g"
  shows "stub_ok g" "read_reg (ops g) = Some (emu_read_reg rv32)" "write_reg (ops g) = Some (emu_write_reg rv32)"
    "get_reg_bytes (ops g) = emu_get_reg_bytes rv32" "reg_num (arch g) = int 33"
    "read_mem (ops g) = Some emu_read_mem" "write_mem (ops g) = Some emu_write_mem"
    "set_bp (ops g) = Some emu_set_bp" "del_bp (ops g) = Some emu_del_bp"
  using assms by (simp_all add: emu_stub_def emu_ops_def)

lemma emu_reg_off: "reg_off (emu_get_reg_bytes rv32) i = i * REGSZ rv32"
  by (induction i) (simp_all add: unat_REGSZ)

lemma emu_stub_total: "emu_stub rv32 g \<Longrightarrow>
    total_reg_bytes (priv g) = of_nat (reg_off (emu_get_reg_bytes rv32) 33)"
  by (simp add: emu_stub_def emu_reg_off)

lemma REGSZ_bounds: "0 < REGSZ rv32" "REGSZ rv32 \<le> 8"
  by (simp_all add: REGSZ_def)

lemma emu_image:
  assumes "length img = 33 * REGSZ rv32"
    and "\<forall>j < 33. emu_read_reg rv32 e (int j) = Inr (0, reg_slice (emu_get_reg_bytes rv32) img j)"
  shows "reg_image (emu_read_reg rv32) e 33 = img"
proof -
  have "reg_image (emu_read_reg rv32) e n = take (n * REGSZ rv32) img" if "n \<le> 33" for n
    using that
  proof (induction n)
    case (Suc n)
    then have "reg_val (emu_read_reg rv32) e n = take (REGSZ rv32) (drop (n * REGSZ rv32) img)"
      using assms(2) by (simp add: reg_val_def reg_slice_def emu_reg_off unat_REGSZ)
    moreover have "Suc n * REGSZ rv32 = n * REGSZ rv32 + REGSZ rv32" by simp
    ultimately show ?case using Suc by (simp only: take_add reg_image_simps)
  qed simp
  from this [of 33] assms(1) show ?thesis by simp
qed

text \<open>The handler of a request sends one reply; the emulator is then in the state \<open>e'\<close>.\<close>

definition replies :: "'s gdbstub_t \<Rightarrow> byte list \<Rightarrow> 's \<Rightarrow> byte list \<Rightarrow> 's \<Rightarrow> bool" where
  "replies g req e t e' \<longleftrightarrow> (\<exists>g1. gdbstub_process_packet g (request req) e =
     bindE (send g1 t) (\<lambda>g'. Inr (EVENT_NONE, g', e')) \<and> scratch g g1 \<and> stub_ok g1)"

lemma repliesI:
  "gdbstub_process_packet g (request req) e = bindE (send g1 t) (\<lambda>g'. Inr (EVENT_NONE, g', e')) \<Longrightarrow>
    scratch g g1 \<Longrightarrow> stub_ok g1 \<Longrightarrow> replies g req e t e'"
  unfolding replies_def by blast

lemma repliesD:
  "replies g req e t e' \<Longrightarrow> \<exists>g1. scratch g g1 \<and>
    gdbstub_process_packet g (request req) e = bindE (send g1 t) (\<lambda>g'. Inr (EVENT_NONE, g', e'))"
  unfolding replies_def by blast

subsection \<open>Registers\<close>

lemma emu_width: "emu_get_reg_bytes rv32 i = of_nat (REGSZ rv32)"
  by (simp add: emu_get_reg_bytes_def)

lemma emu_g:
  assumes "emu_stub rv32 g"
  shows "replies g (str ''g'') e (hexstr (reg_image (emu_read_reg rv32) e 33)) e"
proof -
  note o2 = emu_stub_ops [OF assms]
  have "\<forall>j < 33. emu_get_reg_bytes rv32 (int j) = of_nat (REGSZ rv32)" by (simp add: emu_width)
  moreover have "2 * (33 * unat (of_nat (REGSZ rv32) :: size_t)) \<le> 4090"
    using unat_REGSZ [of rv32 0] REGSZ_bounds [of rv32] by (simp add: emu_get_reg_bytes_def)
  ultimately obtain g3 where "process_reg_read g e = send g3 (hexstr (reg_image (emu_read_reg rv32) e 33))"
    "scratch g g3" "stub_ok g3"
    using emu_regs.reg_read_ok [OF refl o2(1,2,4,5)] by fastforce
  then show ?thesis
    using request_regs(1) [of "[]" g e] o2(2) by (intro repliesI) (auto simp: no_event_def str_def ch_def)
qed

lemma emu_p:
  assumes "emu_stub rv32 g" "j < 33"
  shows "replies g (ch CHR ''p'' # digits_of 16 j) e (hexstr (reg_val (emu_read_reg rv32) e j)) e"
proof -
  note o2 = emu_stub_ops [OF assms(1)]
  have "unat (emu_get_reg_bytes rv32 (int j)) \<le> 2045" "j < 2 ^ 31" "0 \<notin> set (digits_of 16 j)"
    using REGSZ_bounds [of rv32] assms(2) nul_free_digits_of [of 16 j] by (simp_all add: unat_REGSZ)
  then show ?thesis
    using emu_regs.reg_read_one_ok [OF refl o2(1,2,4) assms(2), of e] request_regs(2) [of "digits_of 16 j" g e] o2(2)
    by (auto intro: repliesI simp: no_event_def)
qed

lemma emu_G:
  assumes "emu_stub rv32 g" "length img = 33 * REGSZ rv32"
  shows "\<exists>e'. replies g (ch CHR ''G'' # hexstr img) e (str ''OK'') e' \<and> besides_regs e' = besides_regs e \<and>
    (\<forall>j < 33. emu_read_reg rv32 e' (int j) = Inr (0, reg_slice (emu_get_reg_bytes rv32) img j))"
proof -
  note o1 = emu_stub_ops [OF assms(1)]
  have off: "reg_off (emu_get_reg_bytes rv32) 33 = 33 * REGSZ rv32" by (simp add: emu_reg_off)
  have pos: "0 < reg_off (emu_get_reg_bytes rv32) 33" "reg_off (emu_get_reg_bytes rv32) 33 < 2 ^ 31"
    using REGSZ_bounds [of rv32] by (simp_all add: off)
  have len: "length (hexstr img) = 2 * reg_off (emu_get_reg_bytes rv32) 33"
    using assms(2) by (simp add: off hexc.length_enc)
  from emu_regs.reg_write_ok [OF o1(1) refl o1(2-5) emu_stub_total [OF assms(1)] pos len, of e]
  obtain g1 e' where w: "process_reg_write g (hexstr img) e = bindE (send g1 (str ''OK'')) (\<lambda>g'. Inr (g', e'))"
    "scratch g g1" "stub_ok g1" "besides_regs e' = besides_regs e"
    "\<forall>j < 33. emu_read_reg rv32 e' (int j) = Inr (0, reg_slice (emu_get_reg_bytes rv32) img j)"
    by (auto simp: hexc.dec_enc)
  have "replies g (ch CHR ''G'' # hexstr img) e (str ''OK'') e'"
    using request_regs(3) [OF nul_free_hexstr, of g img e] o1(3) w(1-3)
    by (intro repliesI) (auto simp: no_event_st_def bindE_assoc)
  with w(4,5) show ?thesis by blast
qed

lemma emu_P:
  assumes "emu_stub rv32 g" "i < 33" "length v = REGSZ rv32"
  shows "\<exists>e'. replies g (ch CHR ''P'' # digits_of 16 i @ ch CHR ''='' # hexstr v) e (str ''OK'') e' \<and>
    besides_regs e' = besides_regs e \<and>
    (\<forall>j < 33. reg_val (emu_read_reg rv32) e' j = (if j = i then v else reg_val (emu_read_reg rv32) e j))"
proof -
  note o1 = emu_stub_ops [OF assms(1)]
  have lv: "length v = unat (emu_get_reg_bytes rv32 (int i))" "length v < 2 ^ 31" "i < 2 ^ 31"
    using assms(2,3) REGSZ_bounds [of rv32] by (simp_all add: unat_REGSZ)
  from emu_regs.reg_write_one_ok [OF refl o1(1,3,4) assms(2) lv(3,1,2), of e]
  obtain g1 e' where w: "process_reg_write_one g (digits_of 16 i @ ch CHR ''='' # hexstr v) e =
      bindE (send g1 (str ''OK'')) (\<lambda>g'. Inr (g', e'))" "scratch g g1" "stub_ok g1" "besides_regs e' = besides_regs e"
    "\<forall>j < 33. emu_read_reg rv32 e' (int j) = (if j = i then Inr (0, v) else emu_read_reg rv32 e (int j))"
    by auto
  have "0 \<notin> set (digits_of 16 i @ ch CHR ''='' # hexstr v)"
    using nul_free_digits_of [of 16 i] nul_free_hexstr by (simp add: c_defs)
  from request_regs(4) [OF this, of g e]
  have "replies g (ch CHR ''P'' # digits_of 16 i @ ch CHR ''='' # hexstr v) e (str ''OK'') e'"
    using o1(3) w(1-3) by (intro repliesI) (auto simp: no_event_st_def bindE_assoc)
  with w(4,5) show ?thesis by (auto simp: reg_val_def)
qed

lemma length_emu_val: "j < 33 \<Longrightarrow> length (reg_val (emu_read_reg rv32) e j) = REGSZ rv32"
  using emu_regs.rd_ok [OF refl, where i = j and s = e and ?rv32.0 = rv32] by (auto simp: reg_val_def unat_REGSZ)

lemma length_emu_image: "length (reg_image (emu_read_reg rv32) e 33) = 33 * REGSZ rv32"
proof -
  have "length (reg_image (emu_read_reg rv32) e n) = n * REGSZ rv32" if "n \<le> 33" for n
    using that by (induction n) (simp_all add: reg_image_simps length_emu_val)
  then show ?thesis by simp
qed

text \<open>C16.  Register image round trip: after \<open>G\<close> with the hexadecimal image of all 33 registers,
  which the stub answers with \<open>OK\<close>, the next \<open>g\<close> replies exactly that image, in both builds of
  the emulator.\<close>

theorem emu_G_then_g:
  assumes "emu_stub rv32 g" "length img = 33 * REGSZ rv32"
  shows "\<exists>g1 e'. gdbstub_process_packet g (request (ch CHR ''G'' # hexstr img)) e =
      bindE (send g1 (str ''OK'')) (\<lambda>g'. Inr (EVENT_NONE, g', e')) \<and> scratch g g1 \<and>
    (\<forall>g2. emu_stub rv32 g2 \<longrightarrow> (\<exists>g3. scratch g2 g3 \<and>
      gdbstub_process_packet g2 (request (str ''g'')) e' =
      bindE (send g3 (hexstr img)) (\<lambda>g'. Inr (EVENT_NONE, g', e'))))"
proof -
  obtain e' where w: "replies g (ch CHR ''G'' # hexstr img) e (str ''OK'') e'"
    "\<forall>j < 33. emu_read_reg rv32 e' (int j) = Inr (0, reg_slice (emu_get_reg_bytes rv32) img j)"
    using emu_G [OF assms] by blast
  have "\<exists>g3. scratch g2 g3 \<and> gdbstub_process_packet g2 (request (str ''g'')) e' =
      bindE (send g3 (hexstr img)) (\<lambda>g'. Inr (EVENT_NONE, g', e'))" if "emu_stub rv32 g2" for g2
    using repliesD [OF emu_g [OF that, of e']] emu_image [OF assms(2) w(2)] by simp
  with repliesD [OF w(1)] show ?thesis by blast
qed

definition emu_stub0 :: "emu gdbstub_t" where
  "emu_stub0 = stub0 (emu_ops False) \<lparr>target_desc = Some TARGET_RV64, smp = 1, reg_num = 33\<rparr> 264 [Wrote 5000]"

lemma emu_stub_emu_stub0: "emu_stub False emu_stub0"
  using stub_ok_stub0 by (simp add: emu_stub_def emu_stub0_def stub0_def REGSZ_def)

theorem emu_G_then_g_witness:
  "\<exists>g1 e'. gdbstub_process_packet emu_stub0 (request (ch CHR ''G'' # hexstr (replicate 264 7))) (emu_init []) =
      bindE (send g1 (str ''OK'')) (\<lambda>g'. Inr (EVENT_NONE, g', e')) \<and>
    (\<exists>g3. gdbstub_process_packet emu_stub0 (request (str ''g'')) e' =
      bindE (send g3 (hexstr (replicate 264 7))) (\<lambda>g'. Inr (EVENT_NONE, g', e')))"
proof -
  have "length (replicate 264 (7 :: byte)) = 33 * REGSZ False" by (simp add: REGSZ_def)
  from emu_G_then_g [OF emu_stub_emu_stub0 this, of "emu_init []"] show ?thesis
    using emu_stub_emu_stub0 by blast
qed

text \<open>C23.  Single registers: \<open>P\<close> writes one register, the program counter included, \<open>p\<close> reads it
  back, and \<open>p\<close> of every other register is not affected.\<close>

theorem emu_P_then_p:
  assumes "emu_stub rv32 g" "i < 33" "length v = REGSZ rv32"
  shows "\<exists>g1 e'. gdbstub_process_packet g (request (ch CHR ''P'' # digits_of 16 i @ ch CHR ''='' # hexstr v)) e =
      bindE (send g1 (str ''OK'')) (\<lambda>g'. Inr (EVENT_NONE, g', e')) \<and> scratch g g1 \<and>
    (\<forall>g2 j. emu_stub rv32 g2 \<longrightarrow> j < 33 \<longrightarrow> (\<exists>g3. scratch g2 g3 \<and>
      gdbstub_process_packet g2 (request (ch CHR ''p'' # digits_of 16 j)) e' =
      bindE (send g3 (hexstr (if j = i then v else reg_val (emu_read_reg rv32) e j)))
        (\<lambda>g'. Inr (EVENT_NONE, g', e'))))"
proof -
  obtain e' where w: "replies g (ch CHR ''P'' # digits_of 16 i @ ch CHR ''='' # hexstr v) e (str ''OK'') e'"
    "\<forall>j < 33. reg_val (emu_read_reg rv32) e' j = (if j = i then v else reg_val (emu_read_reg rv32) e j)"
    using emu_P [OF assms] by blast
  have "\<exists>g3. scratch g2 g3 \<and> gdbstub_process_packet g2 (request (ch CHR ''p'' # digits_of 16 j)) e' =
      bindE (send g3 (hexstr (if j = i then v else reg_val (emu_read_reg rv32) e j))) (\<lambda>g'. Inr (EVENT_NONE, g', e'))"
    if "emu_stub rv32 g2" "j < 33" for g2 j
    using repliesD [OF emu_p [OF that, of e']] w(2) that(2) by simp
  with repliesD [OF w(1)] show ?thesis by blast
qed

theorem emu_P_then_p_witness:
  "\<exists>g1 e'. gdbstub_process_packet emu_stub0 (request (ch CHR ''P'' # digits_of 16 32 @ ch CHR ''='' # hexstr (replicate 8 1)))
      (emu_init []) = bindE (send g1 (str ''OK'')) (\<lambda>g'. Inr (EVENT_NONE, g', e')) \<and>
    (\<exists>g3. gdbstub_process_packet emu_stub0 (request (ch CHR ''p'' # digits_of 16 32)) e' =
      bindE (send g3 (hexstr (replicate 8 1))) (\<lambda>g'. Inr (EVENT_NONE, g', e')))"
proof -
  have "length (replicate 8 (1 :: byte)) = REGSZ False" "(32 :: nat) < 33" by (simp_all add: REGSZ_def)
  from emu_P_then_p [OF emu_stub_emu_stub0 this(2,1), of "emu_init []"] obtain g1 e' where
    w: "gdbstub_process_packet emu_stub0 (request (ch CHR ''P'' # digits_of 16 32 @ ch CHR ''='' # hexstr (replicate 8 1)))
      (emu_init []) = bindE (send g1 (str ''OK'')) (\<lambda>g'. Inr (EVENT_NONE, g', e'))"
    and r: "\<And>g2 j. emu_stub False g2 \<Longrightarrow> j < 33 \<Longrightarrow> \<exists>g3. scratch g2 g3 \<and>
      gdbstub_process_packet g2 (request (ch CHR ''p'' # digits_of 16 j)) e' =
      bindE (send g3 (hexstr (if j = 32 then replicate 8 1 else reg_val (emu_read_reg False) (emu_init []) j)))
        (\<lambda>g'. Inr (EVENT_NONE, g', e'))"
    by blast
  from r [OF emu_stub_emu_stub0, of 32] w show ?thesis by auto
qed

subsection \<open>Memory\<close>

text \<open>The memory after a write.\<close>

definition mem_upd :: "nat \<Rightarrow> byte list \<Rightarrow> (nat \<Rightarrow> byte) \<Rightarrow> nat \<Rightarrow> byte" where
  "mem_upd a bs m = (\<lambda>i. if a \<le> i \<and> i < a + length bs then bs ! (i - a) else m i)"

lemma emu_m:
  assumes "emu_stub rv32 g" "n \<le> 2045" "a + n \<le> MEM_SIZE"
  shows "replies g (ch CHR ''m'' # addr_len a n) e (hexstr (map (\<lambda>i. mem e (a + i)) [0..<n])) e"
proof -
  note o2 = emu_stub_ops [OF assms(1)]
  have a: "a < 2 ^ 64" using assms(3) by (simp add: MEM_SIZE_def)
  show ?thesis
    using emu_memory.mem_read_ok [OF o2(1) TrueI o2(6) assms(3) a assms(2), of e] emu_read_mem_ok [OF assms(3), of e]
      request_mem(1) [OF addr_len_clean(1), of g a n e] o2(6)
    by (auto intro: repliesI simp: no_event_def)
qed

lemma emu_write:
  assumes "emu_stub rv32 g" "a + length bs \<le> MEM_SIZE"
  shows "replies g (ch CHR ''M'' # addr_len a (length bs) @ ch CHR '':'' # hexstr bs) e (str ''OK'') (e\<lparr>mem := mem_upd a bs (mem e)\<rparr>)"
    "replies g (ch CHR ''X'' # addr_len a (length bs) @ ch CHR '':'' # esc bs) e (str ''OK'') (e\<lparr>mem := mem_upd a bs (mem e)\<rparr>)"
proof -
  note o1 = emu_stub_ops [OF assms(1)]
  have a: "a < 2 ^ 64" "length bs < 2 ^ 31" using assms(2) by (simp_all add: MEM_SIZE_def)
  have wr: "emu_write_mem e (of_nat a) (of_nat (length bs)) bs = Inr (0, e\<lparr>mem := mem_upd a bs (mem e)\<rparr>)"
    unfolding mem_upd_def by (rule emu_write_mem_ok [OF assms(2)])
  show "replies g (ch CHR ''M'' # addr_len a (length bs) @ ch CHR '':'' # hexstr bs) e (str ''OK'') (e\<lparr>mem := mem_upd a bs (mem e)\<rparr>)"
    by (rule repliesI [of _ _ _ "used_malloc g"], unfold request_mem(2) behind_def)
      (use o1(7) mem_write_run [OF o1(1,7) a wr] stub_ok_used_malloc [OF o1(1)] in
        \<open>simp_all add: no_event_st_def bindE_assoc\<close>)
  show "replies g (ch CHR ''X'' # addr_len a (length bs) @ ch CHR '':'' # esc bs) e (str ''OK'') (e\<lparr>mem := mem_upd a bs (mem e)\<rparr>)"
    by (rule repliesI [of _ _ _ g], unfold request_mem(3) behind_def)
      (use o1(1,7) mem_xwrite_run [OF o1(7) a wr] in \<open>simp_all add: no_event_st_def bindE_assoc\<close>)
qed

text \<open>C15.  Memory round trip: what \<open>M\<close> or \<open>X\<close> writes inside the memory, \<open>m\<close> reads back, and \<open>m\<close> of
  any range that does not overlap it is not affected.  The binary request carries any bytes, the
  special characters escaped by the debugger.\<close>

theorem emu_write_then_m:
  assumes "emu_stub rv32 g" "a + length bs \<le> MEM_SIZE"
    and req: "req = ch CHR ''M'' # addr_len a (length bs) @ ch CHR '':'' # hexstr bs \<or>
      req = ch CHR ''X'' # addr_len a (length bs) @ ch CHR '':'' # esc bs"
  shows "\<exists>g1 e'. gdbstub_process_packet g (request req) e =
      bindE (send g1 (str ''OK'')) (\<lambda>g'. Inr (EVENT_NONE, g', e')) \<and> scratch g g1 \<and>
    (\<forall>g2 b n. emu_stub rv32 g2 \<longrightarrow> n \<le> 2045 \<longrightarrow> b + n \<le> MEM_SIZE \<longrightarrow>
      (b = a \<and> n = length bs) \<or> b + n \<le> a \<or> a + length bs \<le> b \<longrightarrow> (\<exists>g3. scratch g2 g3 \<and>
      gdbstub_process_packet g2 (request (ch CHR ''m'' # addr_len b n)) e' =
      bindE (send g3 (hexstr (if b = a \<and> n = length bs then bs else map (\<lambda>i. mem e (b + i)) [0..<n])))
        (\<lambda>g'. Inr (EVENT_NONE, g', e'))))"
proof -
  let ?e = "e\<lparr>mem := mem_upd a bs (mem e)\<rparr>"
  have w: "replies g req e (str ''OK'') ?e" using emu_write [OF assms(1,2), of e] req by (elim disjE) simp_all
  have "map (\<lambda>i. mem ?e (b + i)) [0..<n] = (if b = a \<and> n = length bs then bs else map (\<lambda>i. mem e (b + i)) [0..<n])"
    if "(b = a \<and> n = length bs) \<or> b + n \<le> a \<or> a + length bs \<le> b" for b n
    using that by (auto simp: mem_upd_def intro!: nth_equalityI)
  then have "\<exists>g3. scratch g2 g3 \<and> gdbstub_process_packet g2 (request (ch CHR ''m'' # addr_len b n)) ?e =
      bindE (send g3 (hexstr (if b = a \<and> n = length bs then bs else map (\<lambda>i. mem e (b + i)) [0..<n])))
        (\<lambda>g'. Inr (EVENT_NONE, g', ?e))"
    if "emu_stub rv32 g2" "n \<le> 2045" "b + n \<le> MEM_SIZE" "(b = a \<and> n = length bs) \<or> b + n \<le> a \<or> a + length bs \<le> b"
    for g2 b n
    using repliesD [OF emu_m [OF that(1-3), of ?e]] that(4) by simp
  with repliesD [OF w] show ?thesis by blast
qed

theorem emu_write_then_m_witness:
  "\<exists>g1 e'. gdbstub_process_packet emu_stub0
      (request (ch CHR ''X'' # addr_len 16 (length (str ''}$#*'')) @ ch CHR '':'' # esc (str ''}$#*''))) (emu_init []) =
      bindE (send g1 (str ''OK'')) (\<lambda>g'. Inr (EVENT_NONE, g', e')) \<and>
    (\<exists>g3. gdbstub_process_packet emu_stub0 (request (ch CHR ''m'' # addr_len 16 4)) e' =
      bindE (send g3 (hexstr (str ''}$#*''))) (\<lambda>g'. Inr (EVENT_NONE, g', e')))"
proof -
  have l: "length (str ''}$#*'') = 4" by (simp add: str_def)
  have "16 + length (str ''}$#*'') \<le> MEM_SIZE" by (simp add: MEM_SIZE_def l)
  from emu_write_then_m [OF emu_stub_emu_stub0 this disjI2 [OF refl], of "emu_init []"] obtain g1 e' where
    w: "gdbstub_process_packet emu_stub0
      (request (ch CHR ''X'' # addr_len 16 (length (str ''}$#*'')) @ ch CHR '':'' # esc (str ''}$#*''))) (emu_init []) =
      bindE (send g1 (str ''OK'')) (\<lambda>g'. Inr (EVENT_NONE, g', e'))"
    and r: "\<And>g2 b n. emu_stub False g2 \<Longrightarrow> n \<le> 2045 \<Longrightarrow> b + n \<le> MEM_SIZE \<Longrightarrow>
      (b = 16 \<and> n = length (str ''}$#*'')) \<or> b + n \<le> 16 \<or> 16 + length (str ''}$#*'') \<le> b \<Longrightarrow> (\<exists>g3. scratch g2 g3 \<and>
      gdbstub_process_packet g2 (request (ch CHR ''m'' # addr_len b n)) e' =
      bindE (send g3 (hexstr (if b = 16 \<and> n = length (str ''}$#*'') then str ''}$#*''
        else map (\<lambda>i. mem (emu_init []) (b + i)) [0..<n]))) (\<lambda>g'. Inr (EVENT_NONE, g', e')))"
    by blast
  have "\<exists>g3. scratch emu_stub0 g3 \<and> gdbstub_process_packet emu_stub0 (request (ch CHR ''m'' # addr_len 16 4)) e' =
      bindE (send g3 (hexstr (str ''}$#*''))) (\<lambda>g'. Inr (EVENT_NONE, g', e'))"
    using r [OF emu_stub_emu_stub0, of 4 16] l by (simp add: MEM_SIZE_def)
  with w show ?thesis by blast
qed

lemma emu_fault:
  assumes "emu_stub rv32 g" "MEM_SIZE < a + n" "a + n < 2 ^ 64" "n < 2 ^ 31"
  shows "gdbstub_process_packet g (request (ch CHR ''m'' # addr_len a n)) e =
      bindE (send (used_malloc g) (str ''E14'')) (\<lambda>g'. Inr (EVENT_NONE, g', e))"
    and "length bs = n \<Longrightarrow> gdbstub_process_packet g (request (ch CHR ''M'' # addr_len a n @ ch CHR '':'' # hexstr bs)) e =
      bindE (send (used_malloc g) (str ''E14'')) (\<lambda>g'. Inr (EVENT_NONE, g', e))"
proof -
  note o1 = emu_stub_ops [OF assms(1)]
  have lt: "a < 2 ^ 64" "n < 2 ^ 64" using assms(3) by simp_all
  have u: "unat (of_nat n :: size_t) = n" using lt(2) by (rule unat_of_nat_small)
  have f: "of_nat a + of_nat n > (of_nat MEM_SIZE :: size_t)"
  proof -
    have "unat (of_nat a + of_nat n :: size_t) = a + n"
      using assms(3) unat_of_nat_small [of "a + n"] by simp
    moreover have "unat (of_nat MEM_SIZE :: size_t) = MEM_SIZE" by (rule unat_of_nat_small) (simp add: MEM_SIZE_def)
    ultimately show ?thesis using assms(2) by (simp add: word_less_nat_alt)
  qed
  have E14: "err_reply EFAULT = str ''E14''" by code_simp
  have rd: "emu_read_mem e (of_nat a) (of_nat n) = Inr (EFAULT, [])" using f by (simp add: emu_read_mem_def)
  have err: "bindE (sprintf_E (buf_new 4096) EFAULT) (send_buf g2) = send g2 (str ''E14'')" for g2 :: "emu gdbstub_t"
    using send_errno_reply [of EFAULT 4096 g2] E14 by (simp add: send_errno_def EFAULT_def)
  have m: "malloc (next_malloc g) (of_nat n) = Some (buf_new n)"
    using stub_ok_next_malloc [OF o1(1)] u by (simp add: malloc_def)
  have ne: "EFAULT \<noteq> 0" by (simp add: EFAULT_def)
  have "process_mem_read g (addr_len a n) e = send (used_malloc g) (str ''E14'')"
    using sscanf_addr_len [OF lt] o1(6) m rd err ne
    by (simp add: process_mem_read_def call_def Let_def MAX_SEND_PACKET_SIZE_def)
  then show "gdbstub_process_packet g (request (ch CHR ''m'' # addr_len a n)) e =
      bindE (send (used_malloc g) (str ''E14'')) (\<lambda>g'. Inr (EVENT_NONE, g', e))"
    using request_mem(1) [OF addr_len_clean(1), of g a n e] o1(6) by (simp add: no_event_def)
  show "gdbstub_process_packet g (request (ch CHR ''M'' # addr_len a n @ ch CHR '':'' # hexstr bs)) e =
      bindE (send (used_malloc g) (str ''E14'')) (\<lambda>g'. Inr (EVENT_NONE, g', e))" if bs: "length bs = n"
  proof -
    have "emu_write_mem e (of_nat a) (of_nat (length bs)) bs = Inr (EFAULT, e)"
      using f bs by (simp add: emu_write_mem_def)
    from mem_write_run [OF o1(1,7) lt(1) _ this] bs assms(4) E14 ne
    have "process_mem_write g (behind (addr_len a n @ ch CHR '':'' # hexstr bs) w) e =
        bindE (send (used_malloc g) (str ''E14'')) (\<lambda>g'. Inr (g', e))" for w
      by (simp add: behind_def EFAULT_def)
    then show ?thesis
      unfolding request_mem(2) using o1(7) by (simp add: no_event_st_def bindE_assoc)
  qed
qed

text \<open>An access that ends behind the memory is refused with \<open>E14\<close> and changes nothing, as long
  as the end of the range does not wrap around the address space.\<close>

lemma emu_mem_fault:
  assumes "emu_stub rv32 g" "MEM_SIZE < a + n" "a + n < 2 ^ 64" "n < 2 ^ 31"
  shows "\<exists>g1. gdbstub_process_packet g (request (ch CHR ''m'' # addr_len a n)) e =
      bindE (send g1 (str ''E14'')) (\<lambda>g'. Inr (EVENT_NONE, g', e)) \<and> scratch g g1 \<and>
    (\<forall>bs. length bs = n \<longrightarrow>
      gdbstub_process_packet g (request (ch CHR ''M'' # addr_len a n @ ch CHR '':'' # hexstr bs)) e =
      bindE (send g1 (str ''E14'')) (\<lambda>g'. Inr (EVENT_NONE, g', e)))"
  using emu_fault [OF assms] scratch_used_malloc by blast

end
