(* ===== verification/Session.thy ===== *)
theory Session
  imports Setup EmuStub EmuRun
begin

text \<open>
  Whole sessions of the reference emulator: \<open>main\<close> of \<^verbatim>\<open>src/emu/src/emu.c\<close> with the stub, its two
  threads and the peer.  The scheduler is a list of turns, and each turn of the reader says what
  \<open>poll\<close> and \<open>read\<close> deliver.
\<close>

subsection \<open>Definitions\<close>

datatype turn = ReaderTurn bool poll_ev | MainTurn

fun take_turn :: "turn \<Rightarrow> 's sys \<Rightarrow> 's sys res" where
  "take_turn (ReaderTurn contended ev) c = reader_turn contended ev c"
| "take_turn MainTurn c = main_turn c"

fun sys_run :: "turn list \<Rightarrow> 's sys \<Rightarrow> 's sys res" where
  "sys_run [] c = Inr c"
| "sys_run (t # ts) c = bindE (take_turn t c) (sys_run ts)"

definition emu_arch :: "bool \<Rightarrow> arch_info_t" where
  "emu_arch rv32 = \<lparr>target_desc = Some (if rv32 then TARGET_RV32 else TARGET_RV64), smp = 1, reg_num = 33\<rparr>"

definition emu_addr :: "byte list" where
  "emu_addr = str ''127.0.0.1:1234''"

text \<open>The exit code, and whether the memory of the guest is still allocated then.  \<open>Blocked\<close>: the
  schedule ends while the session goes on.\<close>

definition emu_main ::
    "bool \<Rightarrow> nat \<Rightarrow> byte list option \<Rightarrow> bool \<Rightarrow> nat \<Rightarrow> init_env \<Rightarrow> bool \<Rightarrow> turn list \<Rightarrow> (int \<times> bool) res" where
  "emu_main rv32 argc file malloc_ok nread env create_ok turns =
     (if argc \<noteq> 2 then Inr (-1, False)
      else
        let (r, e) = init_mem file malloc_ok nread (emu_init [])
        in if r = -1 then Inr (-1, mem_live e)
           else
             bindE (gdbstub_init env (Some (emu_ops rv32)) (emu_arch rv32) (Some emu_addr)) (\<lambda>(ok, st).
             if \<not> ok then Inr (-1, mem_live e)
             else
               let g = stub_of (emu_ops rv32) (emu_arch rv32) [] st
               in if \<not> create_ok then Inr (-1, mem_live e)
                  else
                    bindE (sys_run turns (sys_start g e)) (\<lambda>c.
                    case at c of
                      Returned True \<Rightarrow> bindE (gdbstub_close (stub c)) (\<lambda>_. Inr (0, mem_live (free_mem (target c))))
                    | Returned False \<Rightarrow> Inr (-1, mem_live (target c))
                    | _ \<Rightarrow> Inl Blocked)))"

subsection \<open>Runs\<close>

lemma take_turn_step: "take_turn t c = Inr c' \<Longrightarrow> sys_step c c'"
  by (cases t) (auto intro: reader_moves main_moves)

lemma sys_reach_trans: "sys_reach c1 c2 \<Longrightarrow> sys_reach c0 c1 \<Longrightarrow> sys_reach c0 c2"
  by (induction rule: sys_reach.induct) (auto intro: reach_step)

lemma sys_run_reach: "sys_run ts c = Inr c' \<Longrightarrow> sys_reach c c'"
proof (induction ts arbitrary: c)
  case (Cons t ts)
  then obtain c1 where "take_turn t c = Inr c1" "sys_run ts c1 = Inr c'" by (auto elim!: bindE_InrE)
  have "sys_reach c c1" by (rule reach_step [OF reach_start take_turn_step]) fact
  with Cons.IH [OF \<open>sys_run ts c1 = Inr c'\<close>] show ?case by (rule sys_reach_trans)
qed (simp add: reach_start)

text \<open>The stub in front of the emulator, as \<open>gdbstub_init\<close> sets it up.\<close>

lemma total_bytes_emu: "total_bytes (emu_get_reg_bytes rv32) n = of_nat (n * REGSZ rv32)"
  by (induction n) (simp_all add: emu_get_reg_bytes_def)

lemma emu_stub_init:
  assumes "initialised (stub_of (emu_ops rv32) (emu_arch rv32) [] st)"
    "total_reg_bytes (st_priv st) = total_bytes (get_reg_bytes (emu_ops rv32)) (nat (reg_num (emu_arch rv32)))"
  shows "emu_stub rv32 (stub_of (emu_ops rv32) (emu_arch rv32) [] st)"
  using assms by (simp add: emu_stub_def stub_of_def initialised_def stub_ok_def emu_arch_def total_bytes_emu emu_ops_def)

text \<open>Both threads wait, and nothing is buffered or queued.\<close>

definition ready :: "'s sys \<Rightarrow> bool" where
  "ready c \<longleftrightarrow> reader_on c \<and> at c = AtPop \<and> \<not> thread_stop (priv (stub c)) \<and> \<not> send_mutex (conn (priv (stub c))) \<and>
     \<not> no_ack_mode (conn (priv (stub c))) \<and> pb_inv (rbuf c) \<and> valid (rbuf c) = [] \<and>
     q_inv (pktqueue (priv (stub c))) \<and> q_contents (pktqueue (priv (stub c))) = [] \<and> stub_ok (stub c)"

text \<open>The state in which the handler of a request runs, after one frame came in and both threads
  have acknowledged it.\<close>

definition handling :: "'s gdbstub_t \<Rightarrow> pktqueue_t \<Rightarrow> sock_ev list \<Rightarrow> 's gdbstub_t" where
  "handling g q evs = set_failures (sent (with_queue (two_mallocs g) q) evs (STR_ACK @ STR_ACK)) 0"

lemma frame_to_handler:
  assumes "ready c" "ch CHR ''$'' \<notin> set junk" "ch CHR ''#'' \<notin> set p"
    and "INTR_CHAR \<notin> set junk" "INTR_CHAR \<notin> set p" "length junk + length p + 4 \<le> 2 ^ pb_cap (rbuf c)"
    and "sock_script (conn (priv (stub c))) = Wrote a # Wrote b # evs" "0 < a" "0 < b"
  shows "\<exists>pb q. pb_inv pb \<and> valid pb = [] \<and> pb_cap (rbuf c) \<le> pb_cap pb \<and> q_inv q \<and> q_contents q = [] \<and>
    sys_run [ReaderTurn False (PollIn (ReadData (junk @ frame p))), MainTurn] c =
    bindE (gdbstub_process_packet (handling (stub c) q evs) (request p) (target c)) (\<lambda>(ev, g, s).
      Inr (c\<lparr>rbuf := pb, stub := g, target := s, at := AtEvent ev\<rparr>))"
proof -
  have r: "reader_on c" "at c = AtPop" "\<not> thread_stop (priv (stub c))" "\<not> send_mutex (conn (priv (stub c)))"
    "\<not> no_ack_mode (conn (priv (stub c)))" "pb_inv (rbuf c)" "valid (rbuf c) = []"
    "q_inv (pktqueue (priv (stub c)))" "q_contents (pktqueue (priv (stub c))) = []" "plenty (stub c)"
    using assms(1) by (simp_all add: ready_def stub_ok_def)
  obtain pb q1 where t: "reader_turn False (PollIn (ReadData (junk @ frame p))) c =
      Inr (c\<lparr>rbuf := pb, stub := sent (with_queue (two_mallocs (stub c)) q1) (Wrote b # evs) STR_ACK\<rparr>)"
    and q1: "pb_inv pb" "valid pb = []" "pb_cap (rbuf c) \<le> pb_cap pb" "q_inv q1" "q_contents q1 = [request p]"
    using reader_turn_frame [OF r(1,3,4,6,7) assms(2-6) r(8,10) assms(7,8), of False] r(9) by (auto simp: acked_def)
  define g1 where "g1 = sent (with_queue (two_mallocs (stub c)) q1) (Wrote b # evs) STR_ACK"
  have g1: "pktqueue (priv g1) = q1" "\<not> send_mutex (conn (priv g1))" "\<not> no_ack_mode (conn (priv g1))"
    "sock_script (conn (priv g1)) = Wrote b # evs"
    using r(4,5) by (simp_all add: g1_def)
  obtain q where q: "q_inv q" "q_contents q = []" "main_fetch g1 (target c) =
    bindE (gdbstub_process_packet (set_failures (sent (with_queue g1 q) evs STR_ACK) 0) (request p) (target c))
      (\<lambda>(event, g2, s'). Inr (AtEvent event, g2, s'))"
    using good_packet_round [of g1 p "[]" b evs "target c"] q1(4,5) g1 assms(9) by auto
  have h: "set_failures (sent (with_queue g1 q) evs STR_ACK) 0 = handling (stub c) q evs"
    by (simp add: handling_def g1_def sent_def with_queue_def set_failures_def)
  have "pktqueue_pop q1 \<noteq> Inl Blocked" using pq.pop_cases [OF q1(4)] q1(5) by auto
  then have "sys_run [ReaderTurn False (PollIn (ReadData (junk @ frame p))), MainTurn] c =
    bindE (gdbstub_process_packet (handling (stub c) q evs) (request p) (target c)) (\<lambda>(ev, g, s).
      Inr (c\<lparr>rbuf := pb, stub := g, target := s, at := AtEvent ev\<rparr>))"
    using t q(3) g1(1) r(2) unfolding g1_def [symmetric] h
    by (simp add: main_turn_def bindE_assoc split_def)
  with q1 q show ?thesis by blast
qed

lemma handling_simps [simp]:
  "pktqueue (priv (handling g q evs)) = q" "sock_script (conn (priv (handling g q evs))) = evs"
  "wire (conn (priv (handling g q evs))) = wire (conn (priv g)) @ STR_ACK @ STR_ACK"
  "send_mutex (conn (priv (handling g q evs))) = send_mutex (conn (priv g))"
  "open_fds (conn (priv (handling g q evs))) = open_fds (conn (priv g))"
  "socket_fd (conn (priv (handling g q evs))) = socket_fd (conn (priv g))"
  "listen_fd (conn (priv (handling g q evs))) = listen_fd (conn (priv g))"
  by (simp_all add: handling_def) (simp_all add: sent_def set_failures_def with_queue_def)

lemma sent_fds [simp]:
  "open_fds (conn (priv (sent g evs t))) = open_fds (conn (priv g))"
  "socket_fd (conn (priv (sent g evs t))) = socket_fd (conn (priv g))"
  "listen_fd (conn (priv (sent g evs t))) = listen_fd (conn (priv g))"
  by (simp_all add: sent_def)

lemma stub_ok_handling: "stub_ok g \<Longrightarrow> stub_ok (handling g q evs)"
  using plenty_next(2) [of g] plenty_next(2) [of "used_malloc g"]
  by (simp add: stub_ok_def handling_def set_failures_def sent_def with_queue_def)

lemma emu_stub_handling: "emu_stub rv32 g \<Longrightarrow> emu_stub rv32 (handling g q evs)"
  using stub_ok_handling [of g q evs]
  by (simp add: emu_stub_def handling_def set_failures_def sent_def with_queue_def)

text \<open>The main thread's turns after the handler.\<close>

lemma after_handler:
  "at c = AtEvent EVENT_NONE \<Longrightarrow> sys_run [MainTurn, MainTurn] c = Inr (c\<lparr>at := AtPop\<rparr>)"
  "at c = AtEvent EVENT_DETACH \<Longrightarrow> sys_run [MainTurn, MainTurn] c = Inr (c\<lparr>at := Returned True\<rparr>)"
  by (simp_all add: main_turn_def event_start_def event_call_def event_stop_def main_act_def)

lemma sys_run_append: "sys_run (ts @ us) = (\<lambda>c. bindE (sys_run ts c) (sys_run us))"
  by (induction ts) (rule ext, simp add: bindE_assoc)+

text \<open>An exchange: one frame, whose handler sends one reply.\<close>

abbreviation exchange :: "byte list \<Rightarrow> turn list" where
  "exchange bs \<equiv> [ReaderTurn False (PollIn (ReadData bs)), MainTurn, MainTurn, MainTurn]"

lemma one_reply:
  assumes "ready c" "ch CHR ''$'' \<notin> set junk" "ch CHR ''#'' \<notin> set p"
    and "INTR_CHAR \<notin> set junk" "INTR_CHAR \<notin> set p" "length junk + length p + 4 \<le> 2 ^ pb_cap (rbuf c)"
    and "sock_script (conn (priv (stub c))) = Wrote a # Wrote b # Wrote n # evs" "0 < a" "0 < b"
    and "length reply + 4 \<le> n" "length reply \<le> 4090" "0 \<notin> set reply" "ev = EVENT_NONE \<or> ev = EVENT_DETACH"
    and handler: "\<And>q evs. q_inv q \<Longrightarrow> \<exists>g1 s'. gdbstub_process_packet (handling (stub c) q evs) (request p) (target c) =
      bindE (send g1 reply) (\<lambda>g'. Inr (ev, g', s')) \<and> scratch (handling (stub c) q evs) g1 \<and> stub_ok g1 \<and> R s'"
  shows "\<exists>c' q g1. sys_run (exchange (junk @ frame p)) c = Inr c' \<and> R (target c') \<and>
    at c' = (if ev = EVENT_NONE then AtPop else Returned True) \<and> q_inv q \<and>
    (ev = EVENT_NONE \<longrightarrow> ready c') \<and> pb_cap (rbuf c) \<le> pb_cap (rbuf c') \<and>
    scratch (handling (stub c) q (Wrote n # evs)) g1 \<and> stub_ok g1 \<and> stub c' = sent g1 evs (frame reply)"
proof -
  obtain pb q where q: "q_inv q" "sys_run [ReaderTurn False (PollIn (ReadData (junk @ frame p))), MainTurn] c =
    bindE (gdbstub_process_packet (handling (stub c) q (Wrote n # evs)) (request p) (target c)) (\<lambda>(ev, g, s).
      Inr (c\<lparr>rbuf := pb, stub := g, target := s, at := AtEvent ev\<rparr>))"
    "q_contents q = []" "pb_inv pb" "valid pb = []" "pb_cap (rbuf c) \<le> pb_cap pb"
    using frame_to_handler [OF assms(1-9)] by blast
  obtain g1 s' where g1: "gdbstub_process_packet (handling (stub c) q (Wrote n # evs)) (request p) (target c) =
      bindE (send g1 reply) (\<lambda>g'. Inr (ev, g', s'))" "scratch (handling (stub c) q (Wrote n # evs)) g1" "stub_ok g1" "R s'"
    using handler [OF q(1)] by blast
  then have g1': "conn (priv g1) = conn (priv (handling (stub c) q (Wrote n # evs)))" "pktqueue (priv g1) = q"
    "thread_stop (priv g1) = thread_stop (priv (stub c))"
    by (simp_all add: scratch_def handling_def sent_def with_queue_def set_failures_def)
  have s: "send g1 reply = Inr (sent g1 evs (frame reply))"
    by (rule send_now) (use g1' assms(1,10-12) in \<open>simp_all add: ready_def\<close>)
  define c1 where "c1 = c\<lparr>rbuf := pb, stub := sent g1 evs (frame reply), target := s', at := AtEvent ev\<rparr>"
  have "sys_run [ReaderTurn False (PollIn (ReadData (junk @ frame p))), MainTurn] c = Inr c1"
    using q(2) g1(1) s by (simp add: c1_def)
  then have "sys_run ([ReaderTurn False (PollIn (ReadData (junk @ frame p))), MainTurn] @ [MainTurn, MainTurn]) c =
      sys_run [MainTurn, MainTurn] c1"
    by (simp only: sys_run_append bindE_Inr)
  moreover have "sys_run [MainTurn, MainTurn] c1 = Inr (c1\<lparr>at := (if ev = EVENT_NONE then AtPop else Returned True)\<rparr>)"
    using after_handler [of c1] assms(13) by (auto simp: c1_def simp del: sys_run.simps)
  moreover have "ready (c1\<lparr>at := AtPop\<rparr>)"
    using assms(1) q g1(3) g1' by (simp add: ready_def c1_def stub_ok_def sent_def handling_def set_failures_def with_queue_def)
  ultimately show ?thesis
    using g1(2-4) q(1,6) by (intro exI [of _ "c1\<lparr>at := (if ev = EVENT_NONE then AtPop else Returned True)\<rparr>"]
        exI [of _ q] exI [of _ g1]) (simp add: c1_def)
qed

lemma start_ready:
  assumes "initialised g" "plenty g"
  shows "ready (sys_start g s)" "pb_cap (rbuf (sys_start g s)) = 10"
    "conn (priv (stub (sys_start g s))) = conn (priv g)" "target (sys_start g s) = s"
  using assms fresh_buf plenty_next [OF assms(2)]
  by (simp_all add: ready_def stub_ok_def sys_start_def initialised_def async_io_disable_def fresh_buf_def [symmetric])

lemma emu_stub_start: "emu_stub rv32 g \<Longrightarrow> emu_stub rv32 (stub (sys_start g e))"
  using plenty_next(2) [of g] by (simp add: emu_stub_def sys_start_def stub_ok_def async_io_disable_def used_malloc_def)

lemma emu_stub_plenty: "emu_stub rv32 g \<Longrightarrow> plenty g"
  by (simp add: emu_stub_def stub_ok_def)

lemma detach_session:
  assumes "ready c" "3 \<le> pb_cap (rbuf c)" "sock_script (conn (priv (stub c))) = Wrote a # Wrote b # Wrote n # evs"
    "0 < a" "0 < b" "6 \<le> n"
  shows "\<exists>c'. sys_run (exchange (frame (str ''D''))) c = Inr c' \<and> target c' = target c \<and> at c' = Returned True \<and>
    q_inv (pktqueue (priv (stub c'))) \<and> open_fds (conn (priv (stub c'))) = open_fds (conn (priv (stub c))) \<and>
    socket_fd (conn (priv (stub c'))) = socket_fd (conn (priv (stub c))) \<and>
    listen_fd (conn (priv (stub c'))) = listen_fd (conn (priv (stub c)))"
proof -
  have h: "\<exists>g1 s'. gdbstub_process_packet (handling (stub c) q evs) (request (str ''D'')) (target c) =
      bindE (send g1 (str ''OK'')) (\<lambda>g'. Inr (EVENT_DETACH, g', s')) \<and>
      scratch (handling (stub c) q evs) g1 \<and> stub_ok g1 \<and> s' = target c" for q evs
    using request_run(3) [of "handling (stub c) q evs" "[]"] assms(1) stub_ok_handling [of "stub c" q evs]
    by (intro exI [of _ "handling (stub c) q evs"]) (simp add: str_def ch_def ready_def)
  have "(2 :: nat) ^ 3 \<le> 2 ^ pb_cap (rbuf c)" using assms(2) by (intro power_increasing) simp_all
  then obtain c' q g1 where c: "sys_run (exchange (frame (str ''D''))) c = Inr c'" "target c' = target c"
    "at c' = Returned True" "q_inv q" "scratch (handling (stub c) q (Wrote n # evs)) g1"
    "stub c' = sent g1 evs (frame (str ''OK''))"
    using one_reply [OF assms(1), of "[]" "str ''D''" a b n evs "str ''OK''" EVENT_DETACH "\<lambda>s'. s' = target c"] h assms(3-6)
    by (auto simp: str_def ch_def INTR_CHAR_def)
  from c(5) have "conn (priv g1) = conn (priv (handling (stub c) q (Wrote n # evs)))" "pktqueue (priv g1) = q"
    by (simp_all add: scratch_def)
  with c show ?thesis by (intro exI [of _ c']) simp
qed

text \<open>A debugger reads the registers: the frame \<open>$g#67\<close>, behind whatever the debugger sent before it, is
  answered by two acknowledgements and one frame with the image of the 33 registers.\<close>

lemma session_reads_registers:
  assumes "emu_stub rv32 g" "initialised g" "ch CHR ''$'' \<notin> set junk" "INTR_CHAR \<notin> set junk" "length junk \<le> 1000"
    and "sock_script (conn (priv g)) = Wrote a # Wrote b # Wrote n # evs" "0 < a" "0 < b" "4096 \<le> n"
  shows "\<exists>c. sys_run (exchange (junk @ frame (str ''g''))) (sys_start g e) = Inr c \<and> target c = e \<and> at c = AtPop \<and>
    wire (conn (priv (stub c))) = wire (conn (priv g)) @ STR_ACK @ STR_ACK @ frame (hexstr (reg_image (emu_read_reg rv32) e 33))"
proof -
  let ?img = "hexstr (reg_image (emu_read_reg rv32) e 33)" and ?c = "sys_start g e"
  note start = start_ready [OF assms(2) emu_stub_plenty [OF assms(1)], of e]
  note es = emu_stub_handling [OF emu_stub_start [OF assms(1), of e]]
  have len: "length ?img = 2 * (33 * REGSZ rv32)" by (simp add: hexc.length_enc length_emu_image)
  have h: "\<exists>g1. gdbstub_process_packet (handling (stub ?c) q evs) (request (str ''g'')) (target ?c) =
      bindE (send g1 ?img) (\<lambda>g'. Inr (EVENT_NONE, g', e)) \<and> scratch (handling (stub ?c) q evs) g1 \<and> stub_ok g1" for q evs
    using emu_g [OF es [of q evs], of e] start(4) by (auto simp: replies_def)
  then have h': "\<exists>g1 s'. gdbstub_process_packet (handling (stub ?c) q evs) (request (str ''g'')) (target ?c) =
      bindE (send g1 ?img) (\<lambda>g'. Inr (EVENT_NONE, g', s')) \<and> scratch (handling (stub ?c) q evs) g1 \<and> stub_ok g1 \<and> s' = e" for q evs
    by blast
  obtain c q g1 where c: "sys_run (exchange (junk @ frame (str ''g''))) ?c = Inr c" "target c = e" "at c = AtPop"
    "scratch (handling (stub ?c) q (Wrote n # evs)) g1" "stub c = sent g1 evs (frame ?img)"
    using one_reply [OF start(1) assms(3) _ assms(4) _ _ _ assms(7,8) _ _ _ _ h', of n evs] start(2,3) assms(5,6,9)
      len REGSZ_bounds [of rv32] nul_free_hexstr by (auto simp: str_def ch_def INTR_CHAR_def)
  then show ?thesis using start(3) by (intro exI [of _ c]) (simp add: scratch_def)
qed

text \<open>The stub of the 64-bit build, for concrete sessions.\<close>

definition session_stub :: "sock_ev list \<Rightarrow> emu gdbstub_t" where
  "session_stub evs = stub0 (emu_ops False) (emu_arch False) 264 evs"

lemma session_stub: "emu_stub False (session_stub evs)" "initialised (session_stub evs)"
  "sock_script (conn (priv (session_stub evs))) = evs" "wire (conn (priv (session_stub evs))) = []"
  using stub_ok_stub0 initialised_stub0
  by (simp_all add: session_stub_def emu_stub_def) (simp_all add: stub0_def emu_arch_def REGSZ_def conn0_def)

end
