(* ===== verification/Dialogue.thy ===== *)
theory Dialogue
  imports Session
begin

text \<open>
  The stub in front of the emulator as a debug server.  The abstract server has registers, memory and
  at most one breakpoint, and answers commands; every request of \<^verbatim>\<open>src/src/gdbstub.c\<close> that reads or
  writes the target, run on the callbacks of \<^verbatim>\<open>src/emu/src/emu.c\<close>, refines a step of it, and a
  whole dialogue through both threads refines a run of it.
\<close>

subsection \<open>The abstract server\<close>

record machine =
  mregs :: "nat \<Rightarrow> byte list"
  mmem :: "nat \<Rightarrow> byte"
  mbreak :: "size_t option"

datatype command =
    ReadRegs
  | WriteRegs "byte list"
  | ReadReg nat
  | WriteReg nat "byte list"
  | ReadMem nat nat
  | WriteMem nat "byte list"
  | WriteBin nat "byte list"
  | SetBreak size_t
  | ClearBreak size_t
  | WhyStopped

text \<open>What a debugger sends for a command.\<close>

definition bp_text :: "size_t \<Rightarrow> byte list" where
  "bp_text a = digits_of 16 0 @ ch CHR '','' # digits_of 16 (unat a) @ ch CHR '','' # digits_of 16 4"

fun cmd_text :: "command \<Rightarrow> byte list" where
  "cmd_text ReadRegs = str ''g''"
| "cmd_text (WriteRegs img) = ch CHR ''G'' # hexstr img"
| "cmd_text (ReadReg i) = ch CHR ''p'' # digits_of 16 i"
| "cmd_text (WriteReg i v) = ch CHR ''P'' # digits_of 16 i @ ch CHR ''='' # hexstr v"
| "cmd_text (ReadMem a n) = ch CHR ''m'' # addr_len a n"
| "cmd_text (WriteMem a bs) = ch CHR ''M'' # addr_len a (length bs) @ ch CHR '':'' # hexstr bs"
| "cmd_text (WriteBin a bs) = ch CHR ''X'' # addr_len a (length bs) @ ch CHR '':'' # esc bs"
| "cmd_text (SetBreak a) = ch CHR ''Z'' # bp_text a"
| "cmd_text (ClearBreak a) = ch CHR ''z'' # bp_text a"
| "cmd_text WhyStopped = str ''?''"

text \<open>The commands a debugger may give: sizes as in the target description, ranges inside the address
  space, and, for the binary write, inside the memory and free of bytes that travel as the interrupt
  character.\<close>

fun cmd_ok :: "bool \<Rightarrow> command \<Rightarrow> bool" where
  "cmd_ok rv32 (WriteRegs img) \<longleftrightarrow> length img = 33 * REGSZ rv32"
| "cmd_ok rv32 (ReadReg i) \<longleftrightarrow> i < 33"
| "cmd_ok rv32 (WriteReg i v) \<longleftrightarrow> i < 33 \<and> length v = REGSZ rv32"
| "cmd_ok rv32 (ReadMem a n) \<longleftrightarrow> n \<le> 2045 \<and> a + n < 2 ^ 64"
| "cmd_ok rv32 (WriteMem a bs) \<longleftrightarrow> length bs < 2 ^ 31 \<and> a + length bs < 2 ^ 64"
| "cmd_ok rv32 (WriteBin a bs) \<longleftrightarrow> a + length bs \<le> MEM_SIZE \<and> INTR_CHAR \<notin> set (esc bs)"
| "cmd_ok rv32 _ \<longleftrightarrow> True"

fun serve :: "bool \<Rightarrow> command \<Rightarrow> machine \<Rightarrow> byte list \<times> machine" where
  "serve rv32 ReadRegs m = (hexstr (concat (map (mregs m) [0..<33])), m)"
| "serve rv32 (WriteRegs img) m =
     (str ''OK'', m\<lparr>mregs := (\<lambda>i. if i < 33 then take (REGSZ rv32) (drop (i * REGSZ rv32) img) else mregs m i)\<rparr>)"
| "serve rv32 (ReadReg i) m = (hexstr (mregs m i), m)"
| "serve rv32 (WriteReg i v) m = (str ''OK'', m\<lparr>mregs := (mregs m)(i := v)\<rparr>)"
| "serve rv32 (ReadMem a n) m =
     (if a + n \<le> MEM_SIZE then (hexstr (map (\<lambda>i. mmem m (a + i)) [0..<n]), m) else (str ''E14'', m))"
| "serve rv32 (WriteMem a bs) m =
     (if a + length bs \<le> MEM_SIZE then (str ''OK'', m\<lparr>mmem := mem_upd a bs (mmem m)\<rparr>) else (str ''E14'', m))"
| "serve rv32 (WriteBin a bs) m = (str ''OK'', m\<lparr>mmem := mem_upd a bs (mmem m)\<rparr>)"
| "serve rv32 (SetBreak a) m = (if mbreak m = None then (str ''OK'', m\<lparr>mbreak := Some a\<rparr>) else (str ''E22'', m))"
| "serve rv32 (ClearBreak a) m = (str ''OK'', if mbreak m = Some a then m\<lparr>mbreak := None\<rparr> else m)"
| "serve rv32 WhyStopped m = (str ''S05'', m)"

fun serve_all :: "bool \<Rightarrow> command list \<Rightarrow> machine \<Rightarrow> byte list list \<times> machine" where
  "serve_all rv32 [] m = ([], m)"
| "serve_all rv32 (cmd # cmds) m =
     (let (r, m1) = serve rv32 cmd m; (rs, m2) = serve_all rv32 cmds m1 in (r # rs, m2))"

text \<open>The server that an emulator implements.\<close>

definition machine_of :: "bool \<Rightarrow> emu \<Rightarrow> machine" where
  "machine_of rv32 e = \<lparr>mregs = (\<lambda>i. if i < 33 then reg_val (emu_read_reg rv32) e i else []),
     mmem = (\<lambda>i. if i < MEM_SIZE then mem e i else 0),
     mbreak = (if bp_is_set e then Some (bp_addr e) else None)\<rparr>"

subsection \<open>One request\<close>

lemma image_concat: "reg_image f s n = concat (map (reg_val f s) [0..<n])"
  by (induction n) simp_all

lemma machine_besides:
  "besides_regs e' = besides_regs e \<Longrightarrow> mmem (machine_of rv32 e') = mmem (machine_of rv32 e) \<and>
    mbreak (machine_of rv32 e') = mbreak (machine_of rv32 e)"
  by (auto simp: besides_regs_def machine_of_def)

lemma machine_mem:
  assumes "a + length bs \<le> MEM_SIZE"
  shows "machine_of rv32 (e\<lparr>mem := mem_upd a bs (mem e)\<rparr>) =
    (machine_of rv32 e)\<lparr>mmem := mem_upd a bs (mmem (machine_of rv32 e))\<rparr>"
proof -
  have "reg_val (emu_read_reg rv32) (e\<lparr>mem := m\<rparr>) i = reg_val (emu_read_reg rv32) e i" for m i
    by (simp add: reg_val_def emu_read_reg_def)
  then show ?thesis using assms by (auto simp: machine_of_def mem_upd_def fun_eq_iff)
qed

lemma bp_request:
  assumes "emu_stub rv32 g"
  shows "emu_set_bp e a BP_SOFTWARE = Inr (ok, e') \<Longrightarrow>
      replies g (ch CHR ''Z'' # bp_text a) e (if ok then str ''OK'' else str ''E22'') e'"
    "emu_del_bp e a BP_SOFTWARE = Inr (ok, e') \<Longrightarrow>
      replies g (ch CHR ''z'' # bp_text a) e (if ok then str ''OK'' else str ''E22'') e'"
proof -
  note o1 = emu_stub_ops [OF assms]
  have sc: "sscanf_hexs 3 (bp_text a) = [0, a, 4]"
    unfolding bp_text_def using sscanf_hexs_3 [of 0 "unat a" 4] unsigned_less [of a] by simp
  have z: "0 \<notin> set (bp_text a)" using nul_free_digits_of [of 16] by (simp add: bp_text_def c_defs)
  show "emu_set_bp e a BP_SOFTWARE = Inr (ok, e') \<Longrightarrow>
      replies g (ch CHR ''Z'' # bp_text a) e (if ok then str ''OK'' else str ''E22'') e'"
    and "emu_del_bp e a BP_SOFTWARE = Inr (ok, e') \<Longrightarrow>
      replies g (ch CHR ''z'' # bp_text a) e (if ok then str ''OK'' else str ''E22'') e'"
    using sc o1 request_misc(4,5) [OF z, of g e]
    by (auto intro!: repliesI [of _ _ _ g] simp: process_set_break_points_def process_del_break_points_def call_def
        BP_SOFTWARE_def SEND_EINVAL_def SEND_ERR_def no_event_st_def bindE_assoc)
qed

lemma emu_serves:
  assumes "emu_stub rv32 g" "cmd_ok rv32 cmd"
  shows "\<exists>e'. replies g (cmd_text cmd) e (fst (serve rv32 cmd (machine_of rv32 e))) e' \<and>
    machine_of rv32 e' = snd (serve rv32 cmd (machine_of rv32 e))"
proof (cases cmd)
  case ReadRegs
  have "reg_image (emu_read_reg rv32) e 33 = concat (map (mregs (machine_of rv32 e)) [0..<33])"
    unfolding image_concat by (intro arg_cong [of _ _ concat]) (simp add: machine_of_def)
  with ReadRegs emu_g [OF assms(1), of e] show ?thesis by auto
next
  case (WriteRegs img)
  with assms emu_G [OF assms(1), of img e] obtain e' where
    e': "replies g (ch CHR ''G'' # hexstr img) e (str ''OK'') e'" "besides_regs e' = besides_regs e"
    "\<forall>j < 33. emu_read_reg rv32 e' (int j) = Inr (0, reg_slice (emu_get_reg_bytes rv32) img j)" by auto
  then have "mregs (machine_of rv32 e') = mregs (snd (serve rv32 cmd (machine_of rv32 e)))"
    using WriteRegs by (simp add: machine_of_def fun_eq_iff reg_val_def reg_slice_def emu_reg_off unat_REGSZ)
  with e'(1) machine_besides [OF e'(2), of rv32] WriteRegs show ?thesis by (intro exI [of _ e']) simp
next
  case (ReadReg i)
  with assms emu_p [OF assms(1), of i e] show ?thesis by (auto simp: machine_of_def)
next
  case (WriteReg i v)
  with assms emu_P [OF assms(1), of i v e] obtain e' where
    e': "replies g (cmd_text cmd) e (str ''OK'') e'" "besides_regs e' = besides_regs e" "i < 33"
    "\<forall>j < 33. reg_val (emu_read_reg rv32) e' j = (if j = i then v else reg_val (emu_read_reg rv32) e j)" by auto
  then have "mregs (machine_of rv32 e') = mregs (snd (serve rv32 cmd (machine_of rv32 e)))"
    using WriteReg by (simp add: machine_of_def fun_eq_iff)
  with e'(1) machine_besides [OF e'(2), of rv32] WriteReg show ?thesis by (intro exI [of _ e']) simp
next
  case (ReadMem a n)
  show ?thesis
  proof (cases "a + n \<le> MEM_SIZE")
    case True
    then have "fst (serve rv32 cmd (machine_of rv32 e)) = hexstr (map (\<lambda>i. mem e (a + i)) [0..<n])"
      by (auto simp: ReadMem machine_of_def intro!: arg_cong [of _ _ hexstr])
    with True ReadMem assms emu_m [OF assms(1) _ True, of e] show ?thesis by (intro exI [of _ e]) simp
  next
    case False
    with ReadMem assms emu_fault(1) [OF assms(1), of a n e] emu_stub_ops(1) [OF assms(1)] stub_ok_used_malloc
    show ?thesis by (auto intro!: exI [of _ e] repliesI [of _ _ _ "used_malloc g"])
  qed
next
  case (WriteMem a bs)
  show ?thesis
  proof (cases "a + length bs \<le> MEM_SIZE")
    case True
    with WriteMem emu_write(1) [OF assms(1) True, of e] machine_mem [OF True, of rv32 e] show ?thesis by auto
  next
    case False
    with WriteMem assms emu_fault(2) [OF assms(1), of a "length bs" bs e] emu_stub_ops(1) [OF assms(1)] stub_ok_used_malloc
    show ?thesis by (auto intro!: exI [of _ e] repliesI [of _ _ _ "used_malloc g"])
  qed
next
  case (WriteBin a bs)
  with assms have "a + length bs \<le> MEM_SIZE" by simp
  with WriteBin emu_write(2) [OF assms(1) this, of e] machine_mem [OF this, of rv32 e] show ?thesis by auto
next
  case (SetBreak a)
  have "machine_of rv32 (e\<lparr>bp_is_set := True, bp_addr := a\<rparr>) = (machine_of rv32 e)\<lparr>mbreak := Some a\<rparr>"
    by (simp add: machine_of_def reg_val_def emu_read_reg_def cong: if_cong)
  moreover have "mbreak (machine_of rv32 e) = None \<longleftrightarrow> \<not> bp_is_set e" by (simp add: machine_of_def)
  moreover have "emu_set_bp e a BP_SOFTWARE = Inr (\<not> bp_is_set e, if bp_is_set e then e else e\<lparr>bp_is_set := True, bp_addr := a\<rparr>)"
    by (simp add: emu_set_bp_def)
  ultimately show ?thesis using bp_request(1) [OF assms(1), of e a] SetBreak by (cases "bp_is_set e") auto
next
  case (ClearBreak a)
  have "machine_of rv32 (e\<lparr>bp_is_set := False, bp_addr := 0\<rparr>) = (machine_of rv32 e)\<lparr>mbreak := None\<rparr>"
    by (simp add: machine_of_def reg_val_def emu_read_reg_def cong: if_cong)
  moreover have "mbreak (machine_of rv32 e) = Some a \<longleftrightarrow> bp_is_set e \<and> bp_addr e = a" by (simp add: machine_of_def)
  moreover have "emu_del_bp e a BP_SOFTWARE =
      Inr (True, if bp_is_set e \<and> bp_addr e = a then e\<lparr>bp_is_set := False, bp_addr := 0\<rparr> else e)"
    by (auto simp: emu_del_bp_def)
  ultimately show ?thesis using bp_request(2) [OF assms(1), of e a] ClearBreak
    by (cases "bp_is_set e \<and> bp_addr e = a") auto
next
  case WhyStopped
  have "gdbstub_process_packet g (request (ch CHR ''?'' # [])) e = bindE (send g (str ''S05'')) (\<lambda>g'. Inr (EVENT_NONE, g', e))"
    by (simp add: dispatch_simps no_event_def)
  then have "replies g (str ''?'') e (str ''S05'') e"
    using emu_stub_ops(1) [OF assms(1)] by (intro repliesI [of _ _ _ g]) (simp_all add: str_def ch_def)
  with WhyStopped show ?thesis by auto
qed

subsection \<open>Whole dialogues\<close>

text \<open>Neither the frame delimiters nor the interrupt character occur in a command.\<close>

lemma text_bound:
  "y \<in> set (digits_of 16 n) \<Longrightarrow> 35 < y" "y \<in> set (hexstr bs) \<Longrightarrow> 35 < y" "y \<in> set (addr_len a k) \<Longrightarrow> 35 < y"
proof -
  have x: "is_xdigit y \<Longrightarrow> 35 < y"
    by (auto simp: is_xdigit_def is_digit_def c_defs intro: less_le_trans [of 35 48] less_le_trans [of 35 65]
        less_le_trans [of 35 97])
  show "y \<in> set (digits_of 16 n) \<Longrightarrow> 35 < y" "y \<in> set (hexstr bs) \<Longrightarrow> 35 < y" "y \<in> set (addr_len a k) \<Longrightarrow> 35 < y"
    using x digits_of_16_xdigit hexstr_xdigit addr_len_chars [of y a k] by (auto simp: c_defs)
qed

lemma cmd_clean:
  assumes "cmd_ok rv32 cmd"
  shows "ch CHR ''#'' \<notin> set (cmd_text cmd)" "INTR_CHAR \<notin> set (cmd_text cmd)"
proof -
  have "35 < y \<or> (\<exists>a bs. cmd = WriteBin a bs \<and> y \<in> set (esc bs))" if "y \<in> set (cmd_text cmd)" for y
    using that text_bound [of y] by (cases cmd) (auto simp: bp_text_def str_def ch_def)
  then show "ch CHR ''#'' \<notin> set (cmd_text cmd)" "INTR_CHAR \<notin> set (cmd_text cmd)"
    using assms esc_no_hash by (fastforce simp: c_defs INTR_CHAR_def)+
qed

text \<open>The escape of \<open>#\<close> is the interrupt character: a binary write of a \<open>#\<close> is taken for an interrupt.\<close>

lemma esc_intr: "INTR_CHAR \<in> set (esc bs) \<longleftrightarrow> INTR_CHAR \<in> set bs \<or> ch CHR ''#'' \<in> set bs"
proof (induction bs)
  case (Cons b bs)
  have "must_escape b \<Longrightarrow> b XOR 0x20 = INTR_CHAR \<longleftrightarrow> b = ch CHR ''#''" "\<not> must_escape INTR_CHAR"
    "must_escape (ch CHR ''#'')" "ch CHR ''}'' \<noteq> INTR_CHAR"
    by (auto simp: must_escape_def c_defs INTR_CHAR_def)
  with Cons show ?case by auto
qed simp

lemma reply_fits:
  assumes "cmd_ok rv32 cmd"
  shows "length (fst (serve rv32 cmd (machine_of rv32 e))) \<le> 4090" "0 \<notin> set (fst (serve rv32 cmd (machine_of rv32 e)))"
proof -
  have "concat (map (mregs (machine_of rv32 e)) [0..<33]) = reg_image (emu_read_reg rv32) e 33"
    unfolding image_concat by (intro arg_cong [of _ _ concat]) (simp add: machine_of_def)
  then have g: "length (concat (map (mregs (machine_of rv32 e)) [0..<33])) = 33 * REGSZ rv32"
    by (simp only: length_emu_image)
  have p: "i < 33 \<Longrightarrow> length (mregs (machine_of rv32 e) i) = REGSZ rv32" for i
    by (simp add: machine_of_def length_emu_val)
  show "length (fst (serve rv32 cmd (machine_of rv32 e))) \<le> 4090" "0 \<notin> set (fst (serve rv32 cmd (machine_of rv32 e)))"
    using assms g p REGSZ_bounds [of rv32] nul_free_hexstr
    by (cases cmd; auto simp: hexc.length_enc str_def ch_def)+
qed

text \<open>The debugger says a list of commands, each behind other bytes (its own acknowledgements).\<close>

definition spoken :: "byte list \<times> command \<Rightarrow> byte list" where
  "spoken said = fst said @ frame (cmd_text (snd said))"

definition said_ok :: "bool \<Rightarrow> byte list \<times> command \<Rightarrow> bool" where
  "said_ok rv32 said \<longleftrightarrow> cmd_ok rv32 (snd said) \<and> ch CHR ''$'' \<notin> set (fst said) \<and> INTR_CHAR \<notin> set (fst said) \<and>
     length (fst said) + length (cmd_text (snd said)) + 4 \<le> 1024"

definition dialogue :: "(byte list \<times> command) list \<Rightarrow> turn list" where
  "dialogue talk = concat (map (\<lambda>said. exchange (spoken said)) talk)"

text \<open>The connection of a stub between two exchanges: its sockets, and what it has sent.\<close>

definition same_fds :: "'s gdbstub_t \<Rightarrow> 's gdbstub_t \<Rightarrow> bool" where
  "same_fds g g' \<longleftrightarrow> open_fds (conn (priv g')) = open_fds (conn (priv g)) \<and>
     socket_fd (conn (priv g')) = socket_fd (conn (priv g)) \<and> listen_fd (conn (priv g')) = listen_fd (conn (priv g))"

definition serving :: "bool \<Rightarrow> emu sys \<Rightarrow> bool" where
  "serving rv32 c \<longleftrightarrow> ready c \<and> emu_stub rv32 (stub c) \<and> 10 \<le> pb_cap (rbuf c)"

lemma exchange_refines:
  assumes "serving rv32 c" "said_ok rv32 said"
    and "sock_script (conn (priv (stub c))) = map Wrote [a, b, n] @ evs" "\<forall>k \<in> set [a, b, n]. 4096 \<le> k"
    and "serve rv32 (snd said) (machine_of rv32 (target c)) = (reply, m)"
  shows "\<exists>c'. sys_run (exchange (spoken said)) c = Inr c' \<and> serving rv32 c' \<and> machine_of rv32 (target c') = m \<and>
    sock_script (conn (priv (stub c'))) = evs \<and> same_fds (stub c) (stub c') \<and>
    wire (conn (priv (stub c'))) = wire (conn (priv (stub c))) @ STR_ACK @ STR_ACK @ frame reply"
proof -
  let ?cmd = "snd said" and ?junk = "fst said"
  have ok: "cmd_ok rv32 ?cmd" "ch CHR ''$'' \<notin> set ?junk" "INTR_CHAR \<notin> set ?junk"
    "length ?junk + length (cmd_text ?cmd) + 4 \<le> 1024"
    using assms(2) by (simp_all add: said_ok_def)
  have c: "ready c" "emu_stub rv32 (stub c)" using assms(1) by (simp_all add: serving_def)
  have "(1024 :: nat) = 2 ^ 10" by simp
  also have "\<dots> \<le> 2 ^ pb_cap (rbuf c)" using assms(1) by (intro power_increasing) (simp_all add: serving_def)
  finally have len: "length ?junk + length (cmd_text ?cmd) + 4 \<le> 2 ^ pb_cap (rbuf c)" using ok(4) by simp
  have fits: "length reply + 4 \<le> n" "length reply \<le> 4090" "0 \<notin> set reply"
    using reply_fits [OF ok(1), of "target c"] assms(4,5) by auto
  have h: "\<exists>g1 s'. gdbstub_process_packet (handling (stub c) q evs) (request (cmd_text ?cmd)) (target c) =
      bindE (send g1 reply) (\<lambda>g'. Inr (EVENT_NONE, g', s')) \<and> scratch (handling (stub c) q evs) g1 \<and> stub_ok g1 \<and>
      machine_of rv32 s' = m" for q evs
    using emu_serves [OF emu_stub_handling [OF c(2), of q evs] ok(1), of "target c"] assms(5)
    unfolding replies_def by fastforce
  have script: "sock_script (conn (priv (stub c))) = Wrote a # Wrote b # Wrote n # evs" "0 < a" "0 < b"
    using assms(3,4) by auto
  obtain c' q g1 where r: "sys_run (exchange (?junk @ frame (cmd_text ?cmd))) c = Inr c'" "machine_of rv32 (target c') = m"
    "ready c'" "pb_cap (rbuf c) \<le> pb_cap (rbuf c')" "scratch (handling (stub c) q (Wrote n # evs)) g1" "stub_ok g1"
    "stub c' = sent g1 evs (frame reply)"
    using one_reply [OF c(1) ok(2) cmd_clean(1) [OF ok(1)] ok(3) cmd_clean(2) [OF ok(1)] len script fits disjI1 [OF refl] h]
    by auto
  have s: "emu_stub rv32 (stub c')" "sock_script (conn (priv (stub c'))) = evs" "same_fds (stub c) (stub c')"
    "wire (conn (priv (stub c'))) = wire (conn (priv (stub c))) @ STR_ACK @ STR_ACK @ frame reply"
    using c(2) r(5-7) by (simp_all add: emu_stub_def scratch_def sent_def handling_def set_failures_def with_queue_def
        same_fds_def stub_ok_def)
  show ?thesis using r(1-4) s assms(1) by (intro exI [of _ c']) (simp add: serving_def spoken_def)
qed

lemma dialogue_run:
  assumes "serving rv32 c" "list_all (said_ok rv32) talk" "sock_script (conn (priv (stub c))) = map Wrote ns @ evs"
    and "length ns = 3 * length talk" "\<forall>k \<in> set ns. 4096 \<le> k"
    and "serve_all rv32 (map snd talk) (machine_of rv32 (target c)) = (answers, m)"
  shows "\<exists>c'. sys_run (dialogue talk) c = Inr c' \<and> serving rv32 c' \<and> machine_of rv32 (target c') = m \<and>
    sock_script (conn (priv (stub c'))) = evs \<and> same_fds (stub c) (stub c') \<and>
    wire (conn (priv (stub c'))) = wire (conn (priv (stub c))) @ concat (map (\<lambda>r. STR_ACK @ STR_ACK @ frame r) answers)"
  using assms
proof (induction talk arbitrary: c ns answers)
  case Nil
  then show ?case by (auto simp: dialogue_def same_fds_def)
next
  case (Cons said talk)
  then obtain a b n ns' where ns: "ns = a # b # n # ns'" "length ns' = 3 * length talk"
    by (auto simp: length_Suc_conv numeral_3_eq_3)
  obtain r m1 where one: "serve rv32 (snd said) (machine_of rv32 (target c)) = (r, m1)" by fastforce
  with Cons.prems(6) obtain rs where rest: "serve_all rv32 (map snd talk) m1 = (rs, m)" "answers = r # rs"
    by (auto split: prod.splits)
  obtain c1 where c1: "sys_run (exchange (spoken said)) c = Inr c1" "serving rv32 c1" "machine_of rv32 (target c1) = m1"
    "sock_script (conn (priv (stub c1))) = map Wrote ns' @ evs" "same_fds (stub c) (stub c1)"
    "wire (conn (priv (stub c1))) = wire (conn (priv (stub c))) @ STR_ACK @ STR_ACK @ frame r"
    using exchange_refines [OF Cons.prems(1) _ _ _ one, of a b n "map Wrote ns' @ evs"] Cons.prems(2,3,5) ns(1) by auto
  obtain c' where c': "sys_run (dialogue talk) c1 = Inr c'" "serving rv32 c'" "machine_of rv32 (target c') = m"
    "sock_script (conn (priv (stub c'))) = evs" "same_fds (stub c1) (stub c')"
    "wire (conn (priv (stub c'))) = wire (conn (priv (stub c1))) @ concat (map (\<lambda>r. STR_ACK @ STR_ACK @ frame r) rs)"
    using Cons.IH [OF c1(2) _ c1(4) ns(2)] Cons.prems(2,5) ns(1) rest(1) c1(3) by auto
  have "sys_run (dialogue (said # talk)) c = bindE (sys_run (exchange (spoken said)) c) (sys_run (dialogue talk))"
    by (simp only: dialogue_def list.map concat.simps sys_run_append)
  then have "sys_run (dialogue (said # talk)) c = Inr c'"
    unfolding c1(1) bindE_Inr using c'(1) by simp
  then show ?case using c' c1(5,6) rest(2) by (intro exI [of _ c']) (simp add: same_fds_def)
qed

lemma serving_start: "initialised g \<Longrightarrow> emu_stub rv32 g \<Longrightarrow> serving rv32 (sys_start g e)"
  using start_ready [of g e] emu_stub_plenty [of rv32 g] emu_stub_start [of rv32 g e] by (simp add: serving_def)

subsection \<open>Properties\<close>




text \<open>The witness writes two bytes and reads them back, with a refused access in between.\<close>

definition small_talk :: "(byte list \<times> command) list" where
  "small_talk = [([], WriteMem 16 [1, 2]), (str ''+'', ReadMem 4095 2), (str ''+'', ReadMem 16 2)]"


end
