(* ===== verification/Replies.thy ===== *)
theory Replies
  imports Session
begin

text \<open>
  What the stub sends, and with it the type of every handler's output: one reply per request, each a
  frame of printable characters that need no escape, and under every schedule of the two threads a
  stream that the peer can split into acknowledgements and frames.
\<close>

subsection \<open>Definitions\<close>

text \<open>A reply is printable and needs no escape.\<close>

definition reply_char :: "byte \<Rightarrow> bool" where
  "reply_char c \<longleftrightarrow> 32 \<le> c \<and> c < 127 \<and> c \<notin> set (str ''$#}*'')"

definition reply_text :: "byte list \<Rightarrow> bool" where
  "reply_text p \<longleftrightarrow> length p \<le> 4090 \<and> list_all reply_char p"

text \<open>The target description contains no character that would have to be escaped.\<close>

definition plain_desc :: "arch_info_t \<Rightarrow> bool" where
  "plain_desc a \<longleftrightarrow> (case target_desc a of None \<Rightarrow> True | Some d \<Rightarrow> list_all reply_char d)"

text \<open>A peer that keeps reading: no write fails for good, and fewer than fifty polls in a row find the
  socket full, so that no blocking send gives up.\<close>

fun steady :: "nat \<Rightarrow> sock_ev list \<Rightarrow> bool" where
  "steady k [] \<longleftrightarrow> True"
| "steady k (NotWritable # evs) \<longleftrightarrow> Suc k < 50 \<and> steady (Suc k) evs"
| "steady k (WriteErr e # evs) \<longleftrightarrow> (e = EINTR \<or> e = EAGAIN) \<and> steady k evs"
| "steady k (Wrote n # evs) \<longleftrightarrow> steady 0 evs"

text \<open>\<open>g'\<close> has sent one reply more than \<open>g\<close>: the peer got a prefix of its frame, and the whole frame
  if it keeps reading.\<close>

definition answered :: "'s gdbstub_t \<Rightarrow> 's gdbstub_t \<Rightarrow> bool" where
  "answered g g' \<longleftrightarrow> (\<exists>p n. reply_text p \<and> wire (conn (priv g')) = wire (conn (priv g)) @ take n (frame p) \<and>
     (steady 0 (sock_script (conn (priv g))) \<longrightarrow> length (frame p) \<le> n) \<and>
     suffix (sock_script (conn (priv g'))) (sock_script (conn (priv g))))"

text \<open>The stream as the peer reads it: acknowledgements and frames with the right checksum.\<close>

datatype token = Ack | Nack | Reply "byte list"

fun token_bytes :: "token \<Rightarrow> byte list" where
  "token_bytes Ack = STR_ACK"
| "token_bytes Nack = STR_NACK"
| "token_bytes (Reply p) = frame p"

fun token_ok :: "token \<Rightarrow> bool" where
  "token_ok (Reply p) \<longleftrightarrow> reply_text p"
| "token_ok _ \<longleftrightarrow> True"

function parse_wire :: "byte list \<Rightarrow> token list option" where
  "parse_wire [] = Some []"
| "parse_wire (b # r) =
     (if b = ch CHR ''+'' then map_option (Cons Ack) (parse_wire r)
      else if b = ch CHR ''-'' then map_option (Cons Nack) (parse_wire r)
      else if b = ch CHR ''$'' then
        (let p = takeWhile (\<lambda>y. y \<noteq> ch CHR ''#'') r; rest = drop (length p + 3) r
         in if take 3 (drop (length p) r) = ch CHR ''#'' # hex_pair (sum_list p)
            then map_option (Cons (Reply p)) (parse_wire rest) else None)
      else None)"
  by pat_completeness auto
termination by (relation "measure length") auto

definition reply_cells :: "cbuf \<Rightarrow> bool" where
  "reply_cells b \<longleftrightarrow> (\<forall>i y. buf_get b i = Inr y \<longrightarrow> y = 0 \<or> reply_char y)"

subsection \<open>Buffers with replies\<close>

named_theorems reply_intro

lemma reply_cells_new [reply_intro]: "reply_cells (buf_new n)"
  by (simp add: reply_cells_def buf_get_def cell_def)

lemma reply_cells_put: "reply_cells b \<Longrightarrow> buf_put b i y = Inr b' \<Longrightarrow> y = 0 \<or> reply_char y \<Longrightarrow> reply_cells b'"
  by (auto simp: reply_cells_def buf_get_put)

lemma reply_cells_puts: "reply_cells b \<Longrightarrow> buf_puts b i xs = Inr b' \<Longrightarrow> \<forall>y \<in> set xs. y = 0 \<or> reply_char y \<Longrightarrow> reply_cells b'"
  by (induction xs arbitrary: b i) (auto elim!: bindE_InrE dest: reply_cells_put)

lemma cstr_reply: "buf_cstr b i = Inr s \<Longrightarrow> reply_cells b \<Longrightarrow> list_all reply_char s"
proof (induction b i arbitrary: s rule: buf_cstr.induct)
  case (1 b i)
  from "1.prems"(1) have i: "i < cap b" by (subst (asm) buf_cstr.simps) (simp split: if_splits)
  with "1.prems"(1) obtain y where y: "buf_get b i = Inr y"
    and r: "(if y = 0 then Inr [] else bindE (buf_cstr b (Suc i)) (\<lambda>xs. Inr (y # xs))) = Inr s"
    by (subst (asm) (2) buf_cstr.simps) (auto elim!: bindE_InrE)
  show ?case
  proof (cases "y = 0")
    case False
    with r obtain xs where xs: "buf_cstr b (Suc i) = Inr xs" "s = y # xs" by (auto elim!: bindE_InrE)
    have "reply_char y" using "1.prems"(2) y False by (auto simp: reply_cells_def)
    with "1.IH" [OF i False xs(1) "1.prems"(2)] xs(2) show ?thesis by simp
  qed (use r in simp)
qed

lemma hexchars_reply: "n < 16 \<Longrightarrow> reply_char (hexchars ! n)"
proof -
  have "\<forall>n \<in> set [0..<16]. reply_char (hexchars ! n)" by code_simp
  then show "n < 16 \<Longrightarrow> reply_char (hexchars ! n)" by simp
qed

lemma digit_reply: "d < 16 \<Longrightarrow> reply_char (digit_char d)"
proof -
  have "\<forall>d \<in> set [0..<16]. reply_char (digit_char d)" by code_simp
  then show "d < 16 \<Longrightarrow> reply_char (digit_char d)" by simp
qed

lemma digits_reply: "2 \<le> b \<Longrightarrow> b \<le> 16 \<Longrightarrow> y \<in> set (digits_of b n) \<Longrightarrow> reply_char y"
  using set_digits_of [of b n] digit_reply by force

lemma fmt_reply:
  "y \<in> set (fmt_d n) \<Longrightarrow> reply_char y" "y \<in> set (fmt_04d n) \<Longrightarrow> reply_char y" 
proof -
  have c: "reply_char (ch CHR ''-'')" "reply_char 48" by code_simp+
  show "y \<in> set (fmt_d n) \<Longrightarrow> reply_char y" "y \<in> set (fmt_04d n) \<Longrightarrow> reply_char y"
    using c digits_reply [of 10 y] by (auto simp: fmt_d_def fmt_04d_def Let_def split: if_splits)
qed

lemma nibbles: "unat (drop_bit 4 (c :: byte)) < 16" "unat (c AND 0xf) < 16"
proof -
  show "unat (drop_bit 4 (c :: byte)) < 16"
    using unat_byte_less [of c] by (simp add: drop_bit_eq_div unat_div)
  show "unat (c AND 0xf) < 16" by (simp add: and_15 take_bit_eq_mod unat_mod)
qed

lemma hex_to_str_loop_reply:
  "hex_to_str_loop num n s so i k = Inr s' \<Longrightarrow> reply_cells s \<Longrightarrow> reply_cells s'"
proof (induction k arbitrary: s i)
  case (Suc k)
  from Suc.prems(1) obtain c :: byte and s1 s2 where put: "buf_put s (so + i * 2) (hexchars ! unat (drop_bit 4 c)) = Inr s1"
    "buf_put s1 (so + i * 2 + 1) (hexchars ! unat (c AND 0xf)) = Inr s2"
    and rest: "hex_to_str_loop num n s2 so (Suc i) k = Inr s'"
    by (auto elim!: bindE_InrE)
  have "reply_cells s1" by (rule reply_cells_put [OF Suc.prems(2) put(1)]) (simp add: hexchars_reply nibbles)
  then have "reply_cells s2" by (rule reply_cells_put [OF _ put(2)]) (simp add: hexchars_reply nibbles)
  then show ?case by (rule Suc.IH [OF rest])
qed simp

lemma hex_to_str_reply: "hex_to_str num n s so k = Inr s' \<Longrightarrow> reply_cells s \<Longrightarrow> reply_cells s'"
  unfolding hex_to_str_def
  by (elim bindE_InrE) (auto split: if_split_asm dest: hex_to_str_loop_reply reply_cells_put)

subsection \<open>One reply\<close>

lemma reply_char_nonzero: "reply_char c \<Longrightarrow> c \<noteq> 0"
  by (auto simp: reply_char_def)

lemma steady_mono: "steady k evs \<Longrightarrow> j \<le> k \<Longrightarrow> steady j evs"
  by (induction k evs arbitrary: j rule: steady.induct) auto

lemma steady_suffix: "steady k evs \<Longrightarrow> suffix evs' evs \<Longrightarrow> steady 0 evs'"
proof (induction k evs rule: steady.induct)
  case (1 k)
  then show ?case by simp
next
  case (2 k evs)
  then show ?case using steady_mono [of "Suc k" evs 1] by (auto simp: suffix_Cons)
next
  case (3 k e evs)
  then show ?case using steady_mono [of k evs 0] by (auto simp: suffix_Cons)
qed (auto simp: suffix_Cons)

lemma conn_send_loop_steady:
  "conn_send_loop s t tw evs w = Inr (ok, evs', w') \<Longrightarrow> t = CONN_SEND_TIMEOUT_MS \<Longrightarrow> tw = k * 100 \<Longrightarrow> steady k evs \<Longrightarrow> ok"
proof (induction s t tw evs w arbitrary: k rule: conn_send_loop.induct)
  case (2 s t tw ev evs w)
  show ?case
  proof (cases "s = []")
    case False
    show ?thesis
    proof (cases ev)
      case NotWritable
      have "tw + CONN_SEND_POLL_MS = Suc k * 100" using "2.prems"(3) by (simp add: CONN_SEND_POLL_MS_def)
      moreover have "\<not> t \<le> tw + CONN_SEND_POLL_MS" "steady (Suc k) evs"
        using "2.prems" NotWritable by (auto simp: CONN_SEND_TIMEOUT_MS_def CONN_SEND_POLL_MS_def)
      ultimately show ?thesis using "2.IH"(1) [where k = "Suc k", OF False NotWritable] "2.prems" False NotWritable by simp
    next
      case (Wrote n)
      with 2 False show ?thesis by (auto simp: Let_def)
    next
      case (WriteErr e)
      with "2.prems" False have "conn_send_loop s t tw evs w = Inr (ok, evs', w')" "e = EINTR \<or> t \<noteq> 0 \<and> (e = EAGAIN \<or> e = EWOULDBLOCK)"
        by (auto simp: CONN_SEND_TIMEOUT_MS_def split: if_split_asm)
      with "2.IH"(3) [where k = k, OF False WriteErr] "2.prems"(2-4) WriteErr show ?thesis by simp
    qed
  qed (use "2.prems" in simp)
qed (auto split: if_split_asm)

text \<open>A blocking send.\<close>

lemma conn_send_str_sends:
  assumes "conn_send_str c t = Inr c'"
  shows "\<exists>n. wire c' = wire c @ take n t \<and> (steady 0 (sock_script c) \<longrightarrow> length t \<le> n) \<and>
    suffix (sock_script c') (sock_script c)"
proof -
  from assms obtain ok evs w where l: "conn_send_loop t CONN_SEND_TIMEOUT_MS 0 (sock_script c) (wire c) = Inr (ok, evs, w)"
    and c': "c' = c\<lparr>sock_script := evs, wire := w\<rparr>"
    by (auto simp: conn_send_str_def conn_send_raw_def elim!: bindE_InrE split: if_split_asm)
  have "steady 0 (sock_script c) \<longrightarrow> ok" using conn_send_loop_steady [OF l refl, of 0] by simp
  moreover from conn_send_loop_prefix [OF l] obtain n used where "n \<le> length t" "w = wire c @ take n t"
    "ok \<longleftrightarrow> n = length t" "sock_script c = used @ evs" by blast
  ultimately show ?thesis unfolding c' by (intro exI [of _ n]) (auto simp: suffix_def)
qed

lemma send_answered: "send g t = Inr g' \<Longrightarrow> list_all reply_char t \<Longrightarrow> answered g g'"
proof -
  assume s: "send g t = Inr g'" and t: "list_all reply_char t"
  then obtain c where c: "conn_send_pktstr (conn (priv g)) t = Inr c" and g': "g' = g\<lparr>priv := (priv g)\<lparr>conn := c\<rparr>\<rparr>"
    by (auto simp: send_def elim!: bindE_InrE)
  have len: "length t \<le> 4090" using conn_send_pktstr_too_long [of t "conn (priv g)"] c by (rule_tac ccontr) simp
  have "0 \<notin> set t" using t reply_char_nonzero by (auto simp: list_all_iff)
  with c len have "conn_send_str (conn (priv g)) (frame t) = Inr c" by (simp add: conn_send_pktstr_frame)
  from conn_send_str_sends [OF this] t len show ?thesis unfolding answered_def reply_text_def g' by auto
qed

lemma send_buf_answered: "send_buf g b = Inr g' \<Longrightarrow> reply_cells b \<Longrightarrow> answered g g'"
  by (auto simp: send_buf_def elim!: bindE_InrE intro: send_answered dest: cstr_reply)

lemma sprintf_E_reply: "sprintf_E b r = Inr b' \<Longrightarrow> reply_cells b \<Longrightarrow> reply_cells b'"
proof -
  have "reply_char (ch CHR ''E'')" by code_simp
  then have "\<forall>y \<in> set (str ''E'' @ fmt_d r @ [0]). y = 0 \<or> reply_char y" using fmt_reply(1) by (auto simp: str_def ch_def)
  then show "sprintf_E b r = Inr b' \<Longrightarrow> reply_cells b \<Longrightarrow> reply_cells b'"
    unfolding sprintf_E_def by (blast intro: reply_cells_puts)
qed

lemma new_reply:
  "sprintf_E (buf_new m) r = Inr b \<Longrightarrow> reply_cells b"
  "hex_to_str num n (buf_new m) so k = Inr b \<Longrightarrow> reply_cells b"
  by (blast intro: sprintf_E_reply hex_to_str_reply reply_cells_new)+

lemma send_errno_answered: "send_errno g n r = Inr g' \<Longrightarrow> answered g g'"
  by (auto simp: send_errno_def elim!: bindE_InrE intro: send_buf_answered new_reply)

lemma err_answered: "SEND_EPERM g = Inr g' \<Longrightarrow> answered g g'" "SEND_EINVAL g = Inr g' \<Longrightarrow> answered g g'"
proof -
  have "list_all reply_char (str ''E01'')" "list_all reply_char (str ''E22'')" by code_simp+
  then show "SEND_EPERM g = Inr g' \<Longrightarrow> answered g g'" "SEND_EINVAL g = Inr g' \<Longrightarrow> answered g g'"
    by (auto simp: SEND_EPERM_def SEND_EINVAL_def SEND_ERR_def intro: send_answered)
qed

lemma text_answered:
  "send g (str ''OK'') = Inr g' \<Longrightarrow> answered g g'" "send g (str ''E22'') = Inr g' \<Longrightarrow> answered g g'"
  "send g (str ''E12'') = Inr g' \<Longrightarrow> answered g g'" "send g [] = Inr g' \<Longrightarrow> answered g g'"
  "send g (str ''1'') = Inr g' \<Longrightarrow> answered g g'" "send g (str ''l'') = Inr g' \<Longrightarrow> answered g g'"
  "send g (str ''S05'') = Inr g' \<Longrightarrow> answered g g'"
  "send g (str ''PacketSize=1024;qXfer:features:read+;QStartNoAckMode+'') = Inr g' \<Longrightarrow> answered g g'"
  "send g (str ''PacketSize=1024;QStartNoAckMode+'') = Inr g' \<Longrightarrow> answered g g'"
  by (erule send_answered; code_simp)+

lemmas answered_intro = send_buf_answered send_errno_answered err_answered text_answered

lemma answered_via: "answered g1 g' \<Longrightarrow> conn (priv g1) = conn (priv g) \<Longrightarrow> answered g g'"
  by (simp add: answered_def)

subsection \<open>Handlers\<close>

lemma conn_same [simp]: "conn (priv (used_malloc g)) = conn (priv g)" "conn (priv (stub_regbuf_set g b)) = conn (priv g)"
  by (simp_all add: used_malloc_def stub_regbuf_set_def)

lemma answered_scratch [simp]:
  "answered (used_malloc g) g' \<longleftrightarrow> answered g g'" "answered (stub_regbuf_set g b) g' \<longleftrightarrow> answered g g'"
  by (simp_all add: answered_def)

lemma stub_regbuf_get_conn: "stub_regbuf_get g n = Inr (b, g') \<Longrightarrow> conn (priv g') = conn (priv g)"
  by (auto simp: stub_regbuf_get_def Let_def elim!: bindE_InrE split: option.split_asm prod.split_asm)

lemma fetch_reg_conn: "fetch_reg g s i = Inr (r, b, g') \<Longrightarrow> conn (priv g') = conn (priv g)"
  by (auto elim!: bindE_InrE simp: fetch_reg_def call_def split: option.split_asm dest!: stub_regbuf_get_conn)

lemma reg_read_loop_reply:
  "reg_read_loop g s p i k = Inr (p', g') \<Longrightarrow> reply_cells p \<Longrightarrow> reply_cells p' \<and> conn (priv g') = conn (priv g)"
proof (induction k arbitrary: g p i)
  case (Suc k)
  from Suc.prems(1) obtain ret b g1 where f: "fetch_reg g s (int i) = Inr (ret, b, g1)"
    and rest: "(if ret = 0 then
        bindE (hex_to_str b 0 p (unat (of_nat i * get_reg_bytes (ops g) (int i) * 2)) (int_of_size (get_reg_bytes (ops g) (int i)))) (\<lambda>p.
        reg_read_loop g1 s p (Suc i) k)
      else bindE (sprintf_E p ret) (\<lambda>p. Inr (p, g1))) = Inr (p', g')"
    by (auto simp: Let_def elim!: bindE_InrE)
  show ?case
  proof (cases "ret = 0")
    case True
    with rest obtain p1 where "hex_to_str b 0 p (unat (of_nat i * get_reg_bytes (ops g) (int i) * 2)) (int_of_size (get_reg_bytes (ops g) (int i))) = Inr p1"
      and r: "reg_read_loop g1 s p1 (Suc i) k = Inr (p', g')" by (auto elim!: bindE_InrE)
    from hex_to_str_reply [OF this(1) Suc.prems(2)] have "reply_cells p1" .
    from Suc.IH [OF r this] fetch_reg_conn [OF f] show ?thesis by simp
  next
    case False
    with rest fetch_reg_conn [OF f] Suc.prems(2) show ?thesis by (auto elim!: bindE_InrE dest: sprintf_E_reply)
  qed
qed simp

lemma process_reg_read_answered: "process_reg_read g s = Inr g' \<Longrightarrow> answered g g'"
  unfolding process_reg_read_def
  by (elim bindE_InrE, clarify, drule reg_read_loop_reply [OF _ reply_cells_new])
    (auto intro: send_buf_answered answered_via)

lemma process_reg_read_one_answered: "process_reg_read_one g p s = Inr g' \<Longrightarrow> answered g g'"
  unfolding process_reg_read_one_def Let_def
  by (auto split: option.split_asm if_split_asm elim!: bindE_InrE dest!: fetch_reg_conn
    dest: new_reply intro!: answered_via [OF send_buf_answered])

lemma process_reg_write_answered: "process_reg_write g p s = Inr (g', s') \<Longrightarrow> answered g g'"
  by (auto elim!: bindE_InrE simp: process_reg_write_def Let_def split: option.split_asm if_split_asm sum.split_asm
      dest!: answered_intro elim: answered_via)

lemma process_reg_write_one_answered: "process_reg_write_one g p s = Inr (g', s') \<Longrightarrow> answered g g'"
  by (auto elim!: bindE_InrE simp: process_reg_write_one_def call_def Let_def
      split: option.split_asm if_split_asm prod.split_asm dest!: answered_intro stub_regbuf_get_conn)
    (rule answered_via; assumption)+

lemma process_mem_answered:
  "process_mem_read g p s = Inr g' \<Longrightarrow> answered g g'"
  "process_mem_write g raw s = Inr (g', s') \<Longrightarrow> answered g g'"
  "process_mem_xwrite g raw n s = Inr (g', s') \<Longrightarrow> answered g g'"
  by (auto elim!: bindE_InrE simp: process_mem_read_def process_mem_write_def process_mem_xwrite_def call_def Let_def
      split: option.split_asm if_split_asm list.split_asm dest!: answered_intro
      intro: new_reply elim: answered_via)

lemma reply_buf:
  "buf_puts (buf_new m) 0 (t @ [0]) = Inr b \<Longrightarrow> list_all reply_char t \<Longrightarrow> reply_cells b"
  by (rule reply_cells_puts [OF reply_cells_new]) (auto simp: list_all_iff)

lemma thread_info_loop_reply: "thread_info_loop b ptr i k = Inr (b', ptr') \<Longrightarrow> reply_cells b \<Longrightarrow> reply_cells b'"
proof (induction k arbitrary: b ptr i)
  case (Suc k)
  from Suc.prems(1) obtain c bs b1 where c: "buf_puts (buf_new 6) 0 (fmt_04d (int i) @ str '','' @ [0]) = Inr c"
    and bs: "buf_gets c 0 5 = Inr bs" and b1: "buf_puts b ptr bs = Inr b1"
    and r: "thread_info_loop b1 (ptr + 5) (Suc i) k = Inr (b', ptr')"
    by (auto elim!: bindE_InrE)
  have comma: "reply_char (ch CHR '','')" by code_simp
  have "\<forall>y \<in> set (fmt_04d (int i) @ str '','' @ [0]). y = 0 \<or> reply_char y"
    using fmt_reply(2) comma by (auto simp: str_def ch_def)
  from reply_cells_puts [OF reply_cells_new c this] have c: "reply_cells c" .
  have gets: "buf_gets c j n = Inr bs \<Longrightarrow> \<forall>y \<in> set bs. y = 0 \<or> reply_char y" for j n bs
    using c by (induction n arbitrary: j bs) (auto elim!: bindE_InrE simp: reply_cells_def, blast+)
  from Suc.IH [OF r reply_cells_puts [OF Suc.prems(2) b1 gets [OF bs]]] show ?case .
qed simp

lemma snprintf_reply:
  assumes "snprintf_s b n t = Inr b'" "reply_cells b" "list_all reply_char t"
  shows "reply_cells b'"
proof -
  have "\<forall>y \<in> set (take k t @ [0]). y = 0 \<or> reply_char y" "\<forall>y \<in> set (t @ [0]). y = 0 \<or> reply_char y" for k
    using assms(3) set_take_subset [of k t] by (auto simp: list_all_iff)
  from reply_cells_puts [OF assms(2) _ this(1)] reply_cells_puts [OF assms(2) _ this(2)] show ?thesis
    using assms(1,2) by (simp only: snprintf_s_def split: if_split_asm) blast+
qed

lemma list_all_drop: "list_all P xs \<Longrightarrow> list_all P (drop n xs)"
  using set_drop_subset [of n xs] by (auto simp: list_all_iff)

lemma process_xfer_answered:
  assumes "process_xfer g a = Inr g'" "plain_desc (arch g)"
  shows "answered g g'"
proof -
  have lm: "reply_char (ch CHR ''l'')" "reply_char (ch CHR ''m'')" by code_simp+
  have chunk: "answered g g'" if "target_desc (arch g) = Some d"
    "buf_put (buf_new MAX_SEND_PACKET_SIZE) 0 y = Inr b" "y = ch CHR ''l'' \<or> y = ch CHR ''m''"
    "snprintf_s b len (drop k d) = Inr b1" "send_buf g b1 = Inr g'" for d y b len k b1
  proof -
    have "reply_cells b" by (rule reply_cells_put [OF reply_cells_new that(2)]) (use that(3) lm in auto)
    moreover have "list_all reply_char (drop k d)" using assms(2) that(1) by (simp add: plain_desc_def list_all_drop)
    ultimately show ?thesis using snprintf_reply [OF that(4)] send_buf_answered [OF that(5)] by blast
  qed
  from assms(1) show ?thesis unfolding process_xfer_def Let_def
    by (auto elim!: bindE_InrE split: option.split_asm prod.split_asm if_split_asm intro: chunk text_answered)
qed

lemma process_query_answered:
  assumes "process_query g p s = Inr g'" "plain_desc (arch g)"
  shows "answered g g'"
proof -
  have c: "list_all reply_char (str ''QC'' @ fmt_04d n)" for n
    using fmt_reply(2) [of _ n] by (auto simp: str_def list_all_iff reply_char_def)
  have m: "reply_char (ch CHR ''m'')" by code_simp
  have list: "answered g g'" if "buf_put (buf_new MAX_SEND_PACKET_SIZE) 0 (ch CHR ''m'') = Inr b0"
    "thread_info_loop b0 1 0 k = Inr (b, ptr)" "buf_put b ptr 0 = Inr b'" "send_buf g b' = Inr g'" for b0 b b' ptr k
    using that m by (meson reply_cells_new reply_cells_put send_buf_answered thread_info_loop_reply)
  have cpu: "answered g g'" if "buf_puts (buf_new MAX_SEND_PACKET_SIZE) 0 (str ''QC'' @ fmt_04d n @ [0]) = Inr b"
    "send_buf g b = Inr g'" for n b
    using reply_buf [of MAX_SEND_PACKET_SIZE "str ''QC'' @ fmt_04d n" b] that c send_buf_answered by simp
  from assms show ?thesis unfolding process_query_def Let_def
    by (auto simp del: thread_info_loop.simps elim!: bindE_InrE split: option.split_asm prod.split_asm if_split_asm
      intro: list cpu text_answered process_xfer_answered)
qed

lemma process_general_set_answered: "process_general_set g p = Inr g' \<Longrightarrow> answered g g'"
  by (auto simp: process_general_set_def Let_def split: prod.split_asm if_split_asm dest!: text_answered)
    (simp add: answered_def)

text \<open>A request to run the emulator is answered when it is refused; otherwise it is an event.\<close>

definition run_answered :: "gdb_event_t \<Rightarrow> 's gdbstub_t \<Rightarrow> 's gdbstub_t \<Rightarrow> bool" where
  "run_answered ev g g' \<longleftrightarrow> (case ev of EVENT_NONE \<Rightarrow> answered g g' | EVENT_DETACH \<Rightarrow> False | _ \<Rightarrow> g' = g)"

lemma process_vcont_answered: "process_vcont g a = Inr (ev, g') \<Longrightarrow> run_answered ev g g'"
  by (auto simp: process_vcont_def run_answered_def elim!: bindE_InrE split: option.split_asm if_split_asm dest: err_answered)

lemma process_vpacket_answered:
  "process_vpacket g p = Inr (ev, g') \<Longrightarrow> run_answered ev g g'"
proof -
  have t: "list_all reply_char (str ''vCont;'' @ (if a then [] else str ''s;'') @ (if b then [] else str ''c;''))" for a b
    by (cases a; cases b; simp only: if_True if_False; code_simp)
  have sup: "answered g g'" if "process_vcont_support g = Inr g'" for g'
    using that t [of "stepi (ops g) = None" "cont (ops g) = None"] reply_buf [of MAX_SEND_PACKET_SIZE
        "str ''vCont;'' @ (if stepi (ops g) = None then [] else str ''s;'') @ (if cont (ops g) = None then [] else str ''c;'')"]
    unfolding process_vcont_support_def Let_def by (elim bindE_InrE) (simp add: send_buf_answered)
  show "process_vpacket g p = Inr (ev, g') \<Longrightarrow> run_answered ev g g'"
    unfolding process_vpacket_def Let_def
    by (auto elim!: bindE_InrE split: prod.split_asm if_split_asm simp: run_answered_def dest: sup text_answered process_vcont_answered)
qed

lemma process_run_answered:
  "process_cont g = Inr (ev, g') \<Longrightarrow> run_answered ev g g'"
  "process_stepi g = Inr (ev, g') \<Longrightarrow> run_answered ev g g'"
  by (auto simp: process_cont_def process_stepi_def run_answered_def elim!: bindE_InrE split: if_split_asm dest: err_answered)

lemma process_bp_answered:
  "process_del_break_points g p s = Inr (g', s') \<Longrightarrow> answered g g'"
  "process_set_break_points g p s = Inr (g', s') \<Longrightarrow> answered g g'"
  "process_set_cpu g p s = Inr (g', s') \<Longrightarrow> answered g g'"
  by (auto elim!: bindE_InrE simp: process_del_break_points_def process_set_break_points_def process_set_cpu_def
      call_def split: option.split_asm if_split_asm list.split_asm dest: answered_intro)

lemmas handlers_answered = process_reg_read_answered process_reg_read_one_answered process_reg_write_answered
  process_reg_write_one_answered process_mem_answered process_query_answered process_general_set_answered
  process_bp_answered

lemma dispatch_answered:
  assumes "dispatch_request g c raw n s = Inr (ev, g', s')" "plain_desc (arch g)"
  shows "if ev = EVENT_CONT \<or> ev = EVENT_STEP then g' = g else answered g g'"
  using assms unfolding dispatch_request_def no_event_def no_event_st_def with_event_def
  by (auto elim!: bindE_InrE split: if_split_asm dest: handlers_answered text_answered err_answered
    process_run_answered process_vpacket_answered simp: run_answered_def split: gdb_event_t.split_asm)

subsection \<open>The stream\<close>

lemma reply_char_frame: "list_all reply_char p \<Longrightarrow> ch CHR ''#'' \<notin> set p"
  by (auto simp: list_all_iff reply_char_def str_def ch_def)

lemma parse_wire_stream: "list_all token_ok ts \<Longrightarrow> parse_wire (concat (map token_bytes ts)) = Some ts"
proof (induction ts)
  case (Cons t ts)
  show ?case
  proof (cases t)
    case (Reply p)
    let ?r = "concat (map token_bytes ts)"
    have p: "ch CHR ''#'' \<notin> set p" using Cons.prems Reply by (simp add: reply_text_def reply_char_frame)
    have w: "takeWhile (\<lambda>y. y \<noteq> ch CHR ''#'') (p @ ch CHR ''#'' # hex_pair (sum_list p) @ ?r) = p"
      by (rule span_chr(1) [OF p])
    have "length (hex_pair (sum_list p)) = 2" by (simp add: hex_pair_def)
    then show ?thesis using Cons Reply w by (simp add: frame_def Let_def numeral_3_eq_3)
  qed (use Cons in \<open>simp_all add: STR_ACK_def STR_NACK_def str_def ch_def\<close>)
qed simp

definition talks :: "'s gdbstub_t \<Rightarrow> 's gdbstub_t \<Rightarrow> bool" where
  "talks g g' \<longleftrightarrow> arch g' = arch g \<and> suffix (sock_script (conn (priv g'))) (sock_script (conn (priv g))) \<and>
     (steady 0 (sock_script (conn (priv g))) \<longrightarrow>
        (\<exists>ts. list_all token_ok ts \<and> wire (conn (priv g')) = wire (conn (priv g)) @ concat (map token_bytes ts)))"

lemma talks_silent: "arch g' = arch g \<Longrightarrow> conn (priv g') = conn (priv g) \<Longrightarrow> talks g g'"
  by (simp add: talks_def exI [of _ "[]"])

lemma talks_refl [simp]: "talks g g"
  by (rule talks_silent) simp_all

lemma talks_trans:
  assumes "talks g g1" "talks g1 g2"
  shows "talks g g2"
proof -
  have "\<exists>ts. list_all token_ok ts \<and> wire (conn (priv g2)) = wire (conn (priv g)) @ concat (map token_bytes ts)"
    if "steady 0 (sock_script (conn (priv g)))"
  proof -
    have "steady 0 (sock_script (conn (priv g1)))" using steady_suffix [OF that] assms(1) by (simp add: talks_def)
    with that assms obtain ts us where "list_all token_ok ts" "list_all token_ok us"
      "wire (conn (priv g1)) = wire (conn (priv g)) @ concat (map token_bytes ts)"
      "wire (conn (priv g2)) = wire (conn (priv g1)) @ concat (map token_bytes us)"
      unfolding talks_def by blast
    then show ?thesis by (intro exI [of _ "ts @ us"]) simp
  qed
  with assms show ?thesis unfolding talks_def by (auto intro: suffix_order.trans)
qed

lemma answered_talks: "answered g g' \<Longrightarrow> arch g' = arch g \<Longrightarrow> talks g g'"
proof -
  assume a: "answered g g'" "arch g' = arch g"
  then obtain p n where p: "reply_text p" "wire (conn (priv g')) = wire (conn (priv g)) @ take n (frame p)"
    "steady 0 (sock_script (conn (priv g))) \<longrightarrow> length (frame p) \<le> n"
    "suffix (sock_script (conn (priv g'))) (sock_script (conn (priv g)))"
    unfolding answered_def by blast
  have "list_all token_ok [Reply p] \<and> concat (map token_bytes [Reply p]) = frame p" using p(1) by simp
  with p a(2) show ?thesis unfolding talks_def by fastforce
qed

lemma process_packet_answered:
  assumes "gdbstub_process_packet g pkt s = Inr (ev, g', s')" "plain_desc (arch g)"
  shows "if ev = EVENT_CONT \<or> ev = EVENT_STEP then g' = g else answered g g'"
  using process_packet_dispatch [OF assms(1)] dispatch_answered [OF _ assms(2)] by blast

lemma process_packet_talks:
  assumes "gdbstub_process_packet g pkt s = Inr (ev, g', s')" "plain_desc (arch g)"
  shows "talks g g'"
proof -
  obtain c raw n where "dispatch_request g c raw n s = Inr (ev, g', s')" using process_packet_dispatch [OF assms(1)] by blast
  then have "arch g' = arch g" by (auto dest: dispatch_kept simp: kept_def)
  with process_packet_answered [OF assms] answered_talks [of g g'] show ?thesis by (auto split: if_split_asm)
qed

lemma main_ack_talks: "main_ack g ok = Inr g' \<Longrightarrow> talks g g'"
proof (cases "no_ack_mode (conn (priv g))")
  case False
  assume "main_ack g ok = Inr g'"
  with False obtain c where c: "conn_send_str (conn (priv g)) (if ok then STR_ACK else STR_NACK) = Inr c"
    and g': "g' = g\<lparr>priv := (priv g)\<lparr>conn := c\<rparr>\<rparr>"
    by (auto simp: main_ack_def elim!: bindE_InrE)
  have t: "list_all token_ok [if ok then Ack else Nack]"
    "concat (map token_bytes [if ok then Ack else Nack]) = (if ok then STR_ACK else STR_NACK)" by simp_all
  obtain n where n: "wire c = wire (conn (priv g)) @ take n (if ok then STR_ACK else STR_NACK)"
    "steady 0 (sock_script (conn (priv g))) \<longrightarrow> length (if ok then STR_ACK else STR_NACK) \<le> n"
    "suffix (sock_script c) (sock_script (conn (priv g)))"
    using conn_send_str_sends [OF c] by blast
  then show ?thesis unfolding talks_def g'
    by (intro conjI impI exI [of _ "[if ok then Ack else Nack]"]) (auto split: if_split_asm)
qed (simp add: main_ack_def)

lemma main_act_talks: "main_act g act = Inr (a, g') \<Longrightarrow> talks g g'"
  by (auto simp: main_act_def act_resume_sends split: gdb_action_t.split_asm elim!: bindE_InrE
      intro!: answered_talks dest: send_kept text_answered simp: kept_def)

lemma main_packet_talks:
  assumes "main_packet g p s = Inr (a, g', s')" "plain_desc (arch g)"
  shows "talks g g'"
proof -
  from assms(1) obtain ok g1 where a: "main_ack g ok = Inr g1"
    and rest: "(if \<not> ok then
       (let g2 = set_failures g1 (failure_count (conn (priv g1)) + 1) in
        Inr (if failure_count (conn (priv g2)) \<ge> CONN_MAX_FAILURES then Returned False else AtPop, g2, s))
     else
       bindE (gdbstub_process_packet (set_failures g1 0) p s) (\<lambda>(event, g2, s').
       Inr (AtEvent event, g2, s'))) = Inr (a, g', s')"
    unfolding main_packet_def by (elim bindE_InrE) blast
  have f: "talks g (set_failures g1 n)" for n
    using main_ack_talks [OF a] by (simp add: talks_def set_failures_def)
  have "arch (set_failures g1 0) = arch g" using f [of 0] by (simp add: talks_def)
  with rest f assms(2) show ?thesis
    by (auto simp: Let_def elim!: bindE_InrE split: if_split_asm intro: talks_trans [OF f process_packet_talks])
qed

lemma main_fetch_talks:
  assumes "main_fetch g s = Inr (a, g', s')" "plain_desc (arch g)"
  shows "talks g g'"
proof -
  define gq where "gq q = g\<lparr>priv := (priv g)\<lparr>pktqueue := q\<rparr>\<rparr>" for q
  from assms(1) obtain pkt q where rest: "(case pkt of
       None \<Rightarrow>
         if pktqueue_is_shutdown q then Inr (Returned True, gq q, s)
         else Inr (AtPop, (gq q)\<lparr>priv := (priv (gq q))\<lparr>pktqueue := snd (pktqueue_check_interrupt q)\<rparr>\<rparr>, s)
     | Some p \<Rightarrow> main_packet (gq q) p s) = Inr (a, g', s')"
    unfolding main_fetch_def Let_def gq_def by (elim bindE_InrE) (force split: prod.split_asm)
  have q: "talks g (gq q)" "talks g ((gq q)\<lparr>priv := (priv (gq q))\<lparr>pktqueue := r\<rparr>\<rparr>)" "arch (gq q) = arch g" for r
    by (auto intro!: talks_silent simp: gq_def)
  with rest assms(2) show ?thesis
    by (auto split: option.split_asm if_split_asm intro: talks_trans [OF q(1) main_packet_talks])
qed

lemma rkept_talks: "rkept g g' \<Longrightarrow> talks g g'"
proof -
  assume r: "rkept g g'"
  then obtain n where "wire (conn (priv g')) = wire (conn (priv g)) @ concat (replicate n STR_ACK)"
    unfolding rkept_def by blast
  then have "list_all token_ok (replicate n Ack) \<and>
      wire (conn (priv g')) = wire (conn (priv g)) @ concat (map token_bytes (replicate n Ack))"
    by (simp add: list_all_iff)
  then show ?thesis using r unfolding talks_def rkept_def rconfig_def by blast
qed

lemma reader_turn_talks:
  assumes "reader_turn contended ev c = Inr c'" "reader_on c \<longrightarrow> pb_ok (rbuf c)" "\<not> thread_stop (priv (stub c))"
  shows "talks (stub c) (stub c')"
proof (cases "reader_on c")
  case True
  with assms(1,3) obtain go_on pb g s where
    r: "reader_round (rbuf c) (hold_mutex contended (stub c)) (target c) ev = Inr (go_on, pb, g, s)"
    and c': "stub c' = (if go_on then hold_mutex False g else reader_end (hold_mutex False g))"
    by (auto simp: reader_turn_def Let_def elim!: bindE_InrE)
  have "talks (hold_mutex contended (stub c)) g"
    using reader_round_kept [OF r] assms(2) True rkept_talks by blast
  moreover have "arch (hold_mutex b g) = arch g" "sock_script (conn (priv (hold_mutex b g))) = sock_script (conn (priv g))"
    "arch (reader_end g) = arch g" for b and g :: "'a gdbstub_t"
    by (simp_all add: hold_mutex_def reader_end_def)
  ultimately show ?thesis unfolding c' by (simp add: talks_def)
qed (use assms in \<open>simp add: reader_turn_def\<close>)

lemma event_talks: "talks g (event_start g ev)" "talks g (event_stop g ev)"
  by (auto intro!: talks_silent simp: event_start_def event_stop_def async_io_enable_def async_io_disable_def split: gdb_event_t.split)

lemma main_turn_talks:
  assumes "main_turn c = Inr c'" "plain_desc (arch (stub c))"
  shows "talks (stub c) (stub c')"
  using assms
  by (auto simp: main_turn_def elim!: bindE_InrE split: main_pc.split_asm if_split_asm
      intro: main_fetch_talks event_talks talks_trans [OF event_talks(2) main_act_talks])

lemma sys_reach_talks:
  assumes "sys_reach c0 c" "sys_inv os c0" "plain_desc (arch (stub c0))"
  shows "talks (stub c0) (stub c)"
  using assms
proof (induction rule: sys_reach.induct)
  case (reach_step c c')
  have i: "sys_inv os c" using sys_reach_inv reach_step.hyps(1) reach_step.prems(1) by blast
  have t: "talks (stub c0) (stub c)" using reach_step by blast
  then have "plain_desc (arch (stub c))" using reach_step.prems(2) by (simp add: talks_def)
  with reach_step.hyps(2) i have "talks (stub c) (stub c')"
    by (auto elim!: sys_step_elim intro: main_turn_talks reader_turn_talks simp: sys_inv_def)
  with t show ?case by (rule talks_trans)
qed simp

subsection \<open>Properties\<close>





text \<open>The target descriptions of the sources need no escape.\<close>

lemma plain_targets: "plain_desc (emu_arch rv32)" "list_all reply_char TARGET_X86_64"
proof -
  have "list_all reply_char TARGET_RV32" "list_all reply_char TARGET_RV64" by code_simp+
  then show "plain_desc (emu_arch rv32)" by (simp add: plain_desc_def emu_arch_def)
qed code_simp

text \<open>Others do: the frame of a chunk with a \<open>#\<close> (lemma \<open>description_not_escaped\<close>) cannot be read.\<close>

lemma unescaped_frame: "parse_wire (frame (str ''la#b'')) = None"
  by code_simp

end
