(* ===== verification/Schedules.thy ===== *)
theory Schedules
  imports Dialogue Replies
begin

text \<open>
  The debug server under every schedule.  A debugger that does not wait for replies sends its commands
  while earlier ones are still queued or being handled; however the scheduler interleaves the reader
  and the main thread of \<^verbatim>\<open>src/src/gdbstub.c\<close>, the replies are those of the abstract server, in order.
\<close>

subsection \<open>Schedules\<close>

text \<open>Turns of the reader without data.\<close>

fun idle :: "poll_ev \<Rightarrow> bool" where
  "idle (PollErr e) \<longleftrightarrow> e = EINTR"
| "idle PollTimeout \<longleftrightarrow> True"
| "idle PollOther \<longleftrightarrow> True"
| "idle (PollIn r) \<longleftrightarrow> False"

text \<open>A schedule in which the peer neither closes the connection nor fails, and what it says.\<close>

fun calm :: "turn \<Rightarrow> bool" where
  "calm MainTurn \<longleftrightarrow> True"
| "calm (ReaderTurn contended (PollIn (ReadData bs))) \<longleftrightarrow> True"
| "calm (ReaderTurn contended ev) \<longleftrightarrow> idle ev"

fun heard :: "turn list \<Rightarrow> byte list list" where
  "heard [] = []"
| "heard (ReaderTurn contended (PollIn (ReadData bs)) # ts) = bs # heard ts"
| "heard (t # ts) = heard ts"

definition replies_of :: "token list \<Rightarrow> byte list list" where
  "replies_of toks = concat (map (\<lambda>t. case t of Reply p \<Rightarrow> [p] | _ \<Rightarrow> []) toks)"

lemma replies_of_simps [simp]:
  "replies_of [] = []" "replies_of (toks @ toks') = replies_of toks @ replies_of toks'"
  "replies_of [Ack] = []" "replies_of [Ack, Reply p] = [p]"
  by (simp_all add: replies_of_def)

subsection \<open>Progress\<close>

text \<open>The commands \<open>did\<close> have been answered, the commands \<open>queued\<close> wait, and the commands \<open>rest\<close> have
  not been heard yet.\<close>

definition progress ::
    "bool \<Rightarrow> machine \<Rightarrow> byte list \<Rightarrow> (byte list \<times> command) list \<Rightarrow> (byte list \<times> command) list \<Rightarrow>
     (byte list \<times> command) list \<Rightarrow> emu sys \<Rightarrow> bool" where
  "progress rv32 m0 w0 did queued rest c \<longleftrightarrow>
     reader_on c \<and> \<not> thread_stop (priv (stub c)) \<and> \<not> send_mutex (conn (priv (stub c))) \<and>
     \<not> no_ack_mode (conn (priv (stub c))) \<and> pb_inv (rbuf c) \<and> valid (rbuf c) = [] \<and> 10 \<le> pb_cap (rbuf c) \<and>
     q_inv (pktqueue (priv (stub c))) \<and> \<not> q_shutdown (pktqueue (priv (stub c))) \<and>
     \<not> q_interrupted (pktqueue (priv (stub c))) \<and> emu_stub rv32 (stub c) \<and>
     q_contents (pktqueue (priv (stub c))) = map (\<lambda>said. request (cmd_text (snd said))) queued \<and>
     at c \<in> {AtPop, AtEvent EVENT_NONE, AtCall EVENT_NONE} \<and> (at c = AtPop \<or> did \<noteq> []) \<and>
     machine_of rv32 (target c) = snd (serve_all rv32 (map snd did) m0) \<and>
     (\<exists>ns evs. sock_script (conn (priv (stub c))) = map Wrote ns @ evs \<and> (\<forall>n \<in> set ns. 4096 \<le> n) \<and>
        2 * length queued + 3 * length rest \<le> length ns) \<and>
     (\<exists>toks. wire (conn (priv (stub c))) = w0 @ concat (map token_bytes toks) \<and>
        replies_of toks = fst (serve_all rv32 (map snd did) m0))"

lemma serve_all_snoc:
  "serve rv32 cmd (snd (serve_all rv32 cmds m)) = (r, m') \<Longrightarrow>
    serve_all rv32 (cmds @ [cmd]) m = (fst (serve_all rv32 cmds m) @ [r], m')"
  by (induction cmds arbitrary: m) (auto split: prod.splits)

lemma acked_simps [simp]:
  "pktqueue (priv (acked b g q evs)) = q" "send_mutex (conn (priv (acked b g q evs))) = send_mutex (conn (priv g))"
  "no_ack_mode (conn (priv (acked b g q evs))) = no_ack_mode (conn (priv g))"
  "thread_stop (priv (acked b g q evs)) = thread_stop (priv g)"
  "sock_script (conn (priv (acked b g q evs))) = (if b then sock_script (conn (priv g)) else evs)"
  "wire (conn (priv (acked b g q evs))) = wire (conn (priv g)) @ (if b then [] else STR_ACK)"
  by (simp_all add: acked_def Let_def sent_def with_queue_def)

lemma emu_stub_acked: "emu_stub rv32 g \<Longrightarrow> emu_stub rv32 (acked b g q evs)"
  using plenty_next(2) [of g] plenty_next(2) [of "used_malloc g"]
  by (simp add: emu_stub_def stub_ok_def acked_def Let_def sent_def with_queue_def)

text \<open>The reader hears a command.\<close>

lemma progress_hear:
  assumes "progress rv32 m0 w0 did queued (said # rest) c" "said_ok rv32 said"
  shows "\<exists>c'. reader_turn contended (PollIn (ReadData (spoken said))) c = Inr c' \<and>
    progress rv32 m0 w0 did (queued @ [said]) rest c'"
proof -
  let ?cmd = "snd said" and ?junk = "fst said"
  have ok: "cmd_ok rv32 ?cmd" "ch CHR ''$'' \<notin> set ?junk" "INTR_CHAR \<notin> set ?junk"
    "length ?junk + length (cmd_text ?cmd) + 4 \<le> 1024"
    using assms(2) by (simp_all add: said_ok_def)
  have p: "reader_on c" "\<not> thread_stop (priv (stub c))" "\<not> send_mutex (conn (priv (stub c)))" "pb_inv (rbuf c)"
    "valid (rbuf c) = []" "q_inv (pktqueue (priv (stub c)))" "plenty (stub c)" "10 \<le> pb_cap (rbuf c)"
    using assms(1) by (simp_all add: progress_def emu_stub_def stub_ok_def)
  have "(1024 :: nat) = 2 ^ 10" by simp
  also have "\<dots> \<le> 2 ^ pb_cap (rbuf c)" using p(8) by (intro power_increasing) simp_all
  finally have len: "length ?junk + length (cmd_text ?cmd) + 4 \<le> 2 ^ pb_cap (rbuf c)" using ok(4) by simp
  obtain ns evs where ns: "sock_script (conn (priv (stub c))) = map Wrote ns @ evs" "\<forall>n \<in> set ns. 4096 \<le> n"
    "2 * length queued + 3 * length (said # rest) \<le> length ns"
    using assms(1) unfolding progress_def by blast
  then obtain n ns' where n: "ns = n # ns'" by (cases ns) auto
  have script: "sock_script (conn (priv (stub c))) = Wrote n # map Wrote ns' @ evs" "0 < n" using ns(1,2) n by auto
  obtain pb q where t: "reader_turn contended (PollIn (ReadData (?junk @ frame (cmd_text ?cmd)))) c =
      Inr (c\<lparr>rbuf := pb, stub := acked contended (stub c) q (map Wrote ns' @ evs)\<rparr>)"
    "pb_inv pb" "valid pb = []" "pb_cap (rbuf c) \<le> pb_cap pb" "q_inv q"
    "q_contents q = q_contents (pktqueue (priv (stub c))) @ [request (cmd_text ?cmd)]"
    "q_shutdown q = q_shutdown (pktqueue (priv (stub c)))" "q_interrupted q = q_interrupted (pktqueue (priv (stub c)))"
    using reader_turn_frame [OF p(1-5) ok(2) cmd_clean(1) [OF ok(1)] ok(3) cmd_clean(2) [OF ok(1)] len p(6,7) script, of contended]
    by blast
  let ?c = "c\<lparr>rbuf := pb, stub := acked contended (stub c) q (map Wrote ns' @ evs)\<rparr>"
  have room: "\<exists>ns evs. sock_script (conn (priv (stub ?c))) = map Wrote ns @ evs \<and> (\<forall>n \<in> set ns. 4096 \<le> n) \<and>
      2 * length (queued @ [said]) + 3 * length rest \<le> length ns"
  proof (rule exI [of _ "if contended then ns else ns'"], rule exI [of _ evs])
    show "sock_script (conn (priv (stub ?c))) = map Wrote (if contended then ns else ns') @ evs \<and>
        (\<forall>n \<in> set (if contended then ns else ns'). 4096 \<le> n) \<and>
        2 * length (queued @ [said]) + 3 * length rest \<le> length (if contended then ns else ns')"
      using ns n by auto
  qed
  obtain toks where toks: "wire (conn (priv (stub c))) = w0 @ concat (map token_bytes toks)"
    "replies_of toks = fst (serve_all rv32 (map snd did) m0)"
    using assms(1) unfolding progress_def by blast
  have "\<exists>toks. wire (conn (priv (stub ?c))) = w0 @ concat (map token_bytes toks) \<and>
      replies_of toks = fst (serve_all rv32 (map snd did) m0)"
    by (rule exI [of _ "toks @ (if contended then [] else [Ack])"]) (use toks in simp)
  with room have "progress rv32 m0 w0 did (queued @ [said]) rest ?c"
    using assms(1) t(2-8) emu_stub_acked [of rv32 "stub c" contended q "map Wrote ns' @ evs"]
    unfolding progress_def by simp
  with t(1) show ?thesis unfolding spoken_def by blast
qed

text \<open>A turn of the reader without data changes nothing.\<close>

lemma reader_idle:
  assumes "idle ev" "reader_on c" "\<not> thread_stop (priv (stub c))" "\<not> send_mutex (conn (priv (stub c)))"
  shows "reader_turn contended ev c = Inr c"
proof -
  have "hold_mutex False (hold_mutex contended (stub c)) = stub c"
    using assms(4) by (simp add: hold_mutex_def set_conn_def)
  then show ?thesis using assms(1-3)
    by (cases ev) (simp_all add: reader_turn_def reader_round_def Let_def)
qed

text \<open>The main thread waits.\<close>

lemma main_waits:
  assumes "progress rv32 m0 w0 did [] rest c" "at c = AtPop"
  shows "main_turn c = Inr c"
proof -
  have "pktqueue_pop (pktqueue (priv (stub c))) = Inl Blocked"
    using assms(1) pq.pop_wait by (simp add: progress_def)
  with assms(2) show ?thesis by (simp add: main_turn_def)
qed

text \<open>The main thread answers the next command.\<close>

lemma progress_answer:
  assumes "progress rv32 m0 w0 did (said # queued) rest c" "at c = AtPop" "said_ok rv32 said"
  shows "\<exists>c'. main_turn c = Inr c' \<and> progress rv32 m0 w0 (did @ [said]) queued rest c' \<and> at c' = AtEvent EVENT_NONE"
proof -
  let ?cmd = "snd said" and ?p = "cmd_text (snd said)" and ?g = "stub c"
  have ok: "cmd_ok rv32 ?cmd" using assms(3) by (simp add: said_ok_def)
  have p: "\<not> send_mutex (conn (priv ?g))" "\<not> no_ack_mode (conn (priv ?g))" "q_inv (pktqueue (priv ?g))"
    "q_contents (pktqueue (priv ?g)) = request ?p # map (\<lambda>said. request (cmd_text (snd said))) queued" "emu_stub rv32 ?g"
    using assms(1) by (simp_all add: progress_def)
  obtain ns evs where ns: "sock_script (conn (priv ?g)) = map Wrote ns @ evs" "\<forall>n \<in> set ns. 4096 \<le> n"
    "2 * length (said # queued) + 3 * length rest \<le> length ns"
    using assms(1) unfolding progress_def by blast
  then obtain a b ns' where n: "ns = a # b # ns'" by (cases ns; cases "tl ns") auto
  have script: "sock_script (conn (priv ?g)) = Wrote a # Wrote b # map Wrote ns' @ evs" "0 < a" "4096 \<le> b"
    using ns(1,2) n by auto
  obtain q where q: "q_inv q" "q_contents q = map (\<lambda>said. request (cmd_text (snd said))) queued"
    "main_fetch ?g (target c) =
      bindE (gdbstub_process_packet (set_failures (sent (with_queue ?g q) (Wrote b # map Wrote ns' @ evs) STR_ACK) 0) (request ?p) (target c))
        (\<lambda>(event, g2, s'). Inr (AtEvent event, g2, s'))"
    "q_shutdown q = q_shutdown (pktqueue (priv ?g))" "q_interrupted q = q_interrupted (pktqueue (priv ?g))"
    using good_packet_round [OF p(3,4,1,2) script(1,2), of "target c"] by blast
  define g1 where "g1 = set_failures (sent (with_queue ?g q) (Wrote b # map Wrote ns' @ evs) STR_ACK) 0"
  have g1: "emu_stub rv32 g1" "pktqueue (priv g1) = q" "thread_stop (priv g1) = thread_stop (priv ?g)"
    using p(5) by (simp_all add: g1_def emu_stub_def stub_ok_def set_failures_def sent_def with_queue_def)
  define m where "m = machine_of rv32 (target c)"
  obtain r m' where one: "serve rv32 ?cmd m = (r, m')" by fastforce
  obtain g2 e' where h: "gdbstub_process_packet g1 (request ?p) (target c) = bindE (send g2 r) (\<lambda>g'. Inr (EVENT_NONE, g', e'))"
    "scratch g1 g2" "stub_ok g2" "machine_of rv32 e' = m'"
    using emu_serves [OF g1(1) ok, of "target c"] one unfolding m_def [symmetric] replies_def by auto
  have fits: "length r \<le> 4090" "0 \<notin> set r"
    using reply_fits [OF ok, of "target c"] one by (simp_all add: m_def)
  have conn: "conn (priv g2) = conn (priv g1)" "pktqueue (priv g2) = q" "thread_stop (priv g2) = thread_stop (priv ?g)"
    "emu_stub rv32 g2"
    using h(2,3) g1 by (simp_all add: scratch_def emu_stub_def)
  have "send g2 r = Inr (sent g2 (map Wrote ns' @ evs) (frame r))"
    by (rule send_now [of _ b]) (use conn(1) p(1) script(3) fits in \<open>simp_all add: g1_def\<close>)
  then have fetch: "main_fetch ?g (target c) = Inr (AtEvent EVENT_NONE, sent g2 (map Wrote ns' @ evs) (frame r), e')"
    using q(3) h(1) by (simp add: g1_def)
  let ?c = "c\<lparr>stub := sent g2 (map Wrote ns' @ evs) (frame r), target := e', at := AtEvent EVENT_NONE\<rparr>"
  have "pktqueue_pop (pktqueue (priv ?g)) \<noteq> Inl Blocked" using pq.pop_cases [OF p(3)] p(4) by auto
  then have turn: "main_turn c = Inr ?c" using fetch assms(2) by (simp add: main_turn_def)
  have all: "serve_all rv32 (map snd (did @ [said])) m0 = (fst (serve_all rv32 (map snd did) m0) @ [r], m')"
    using serve_all_snoc [of rv32 ?cmd "map snd did" m0 r m'] one assms(1) by (simp add: progress_def m_def)
  obtain toks where toks: "wire (conn (priv ?g)) = w0 @ concat (map token_bytes toks)"
    "replies_of toks = fst (serve_all rv32 (map snd did) m0)"
    using assms(1) unfolding progress_def by blast
  have "\<exists>toks. wire (conn (priv (stub ?c))) = w0 @ concat (map token_bytes toks) \<and>
      replies_of toks = fst (serve_all rv32 (map snd (did @ [said])) m0)"
    by (rule exI [of _ "toks @ [Ack, Reply r]"]) (use toks all conn(1) in \<open>simp add: g1_def\<close>)
  moreover have "\<exists>ns evs. sock_script (conn (priv (stub ?c))) = map Wrote ns @ evs \<and> (\<forall>n \<in> set ns. 4096 \<le> n) \<and>
      2 * length queued + 3 * length rest \<le> length ns"
    by (rule exI [of _ ns'], rule exI [of _ evs]) (use ns n in simp)
  moreover have "emu_stub rv32 (stub ?c)" using conn(4) by (simp add: emu_stub_def stub_ok_def sent_def)
  moreover have "thread_stop (priv (stub ?c)) = thread_stop (priv ?g)" "send_mutex (conn (priv (stub ?c))) = send_mutex (conn (priv ?g))"
    "no_ack_mode (conn (priv (stub ?c))) = no_ack_mode (conn (priv ?g))" "pktqueue (priv (stub ?c)) = q"
    using conn by (simp_all add: g1_def sent_def set_failures_def with_queue_def)
  ultimately have "progress rv32 m0 w0 (did @ [said]) queued rest ?c"
    using assms(1) q(1,2,4,5) all h(4) unfolding progress_def by simp
  with turn show ?thesis by (intro exI [of _ ?c]) simp
qed

text \<open>The turns that the main thread still needs.\<close>

definition pending :: "(byte list \<times> command) list \<Rightarrow> emu sys \<Rightarrow> nat" where
  "pending queued c = 3 * length queued + (if at c = AtPop then 0 else if at c = AtCall EVENT_NONE then 1 else 2)"

lemma progress_main:
  assumes "progress rv32 m0 w0 did queued rest c" "list_all (said_ok rv32) queued"
  shows "\<exists>c' did' queued'. main_turn c = Inr c' \<and> progress rv32 m0 w0 did' queued' rest c' \<and>
    did' @ queued' = did @ queued \<and> list_all (said_ok rv32) queued' \<and> pending queued' c' = pending queued c - 1"
proof -
  have "at c = AtPop \<or> at c = AtEvent EVENT_NONE \<or> at c = AtCall EVENT_NONE" "at c = AtPop \<or> did \<noteq> []"
    using assms(1) by (auto simp: progress_def)
  then consider "at c = AtPop" "queued = []" | said qs where "at c = AtPop" "queued = said # qs"
    | "at c = AtEvent EVENT_NONE" "did \<noteq> []" | "at c = AtCall EVENT_NONE"
    by (cases queued) auto
  then show ?thesis
  proof cases
    case 1
    with main_waits [of rv32 m0 w0 did rest c] assms show ?thesis
      by (intro exI [of _ c] exI [of _ did] exI [of _ "[]"]) (simp add: pending_def)
  next
    case (2 said qs)
    with progress_answer [of rv32 m0 w0 did said qs rest c] assms obtain c' where
      "main_turn c = Inr c'" "progress rv32 m0 w0 (did @ [said]) qs rest c'" "at c' = AtEvent EVENT_NONE" by auto
    with 2 assms(2) show ?thesis
      by (intro exI [of _ c'] exI [of _ "did @ [said]"] exI [of _ qs]) (simp add: pending_def)
  next
    case 3
    then have "main_turn c = Inr (c\<lparr>at := AtCall EVENT_NONE\<rparr>)" by (simp add: main_turn_def event_start_def)
    moreover have "progress rv32 m0 w0 did queued rest (c\<lparr>at := AtCall EVENT_NONE\<rparr>)"
      using assms(1) 3 by (simp add: progress_def)
    ultimately show ?thesis using 3 assms(2)
      by (intro exI [of _ "c\<lparr>at := AtCall EVENT_NONE\<rparr>"] exI [of _ did] exI [of _ queued]) (simp add: pending_def)
  next
    case 4
    then have "main_turn c = Inr (c\<lparr>at := AtPop\<rparr>)"
      by (simp add: main_turn_def event_call_def event_stop_def main_act_def)
    moreover have "progress rv32 m0 w0 did queued rest (c\<lparr>at := AtPop\<rparr>)"
      using assms(1) 4 by (simp add: progress_def)
    ultimately show ?thesis using 4 assms(2)
      by (intro exI [of _ "c\<lparr>at := AtPop\<rparr>"] exI [of _ did] exI [of _ queued]) (simp add: pending_def)
  qed
qed

lemma progress_mains:
  "progress rv32 m0 w0 did queued rest c \<Longrightarrow> list_all (said_ok rv32) queued \<Longrightarrow> pending queued c \<le> n \<Longrightarrow>
    \<exists>c' did'. sys_run (replicate n MainTurn) c = Inr c' \<and> progress rv32 m0 w0 did' [] rest c' \<and>
      did' = did @ queued \<and> at c' = AtPop"
proof (induction n arbitrary: did queued c)
  case 0
  then show ?case by (auto simp: pending_def split: if_split_asm)
next
  case (Suc n)
  obtain c1 did1 queued1 where 1: "main_turn c = Inr c1" "progress rv32 m0 w0 did1 queued1 rest c1"
    "did1 @ queued1 = did @ queued" "list_all (said_ok rv32) queued1" "pending queued1 c1 = pending queued c - 1"
    using progress_main [OF Suc.prems(1,2)] by blast
  have "pending queued1 c1 \<le> n" using 1(5) Suc.prems(3) by simp
  with Suc.IH [OF 1(2,4)] 1(1,3) show ?case by auto
qed

lemma progress_run:
  "progress rv32 m0 w0 did queued rest c \<Longrightarrow> list_all (said_ok rv32) (queued @ rest) \<Longrightarrow> list_all calm ts \<Longrightarrow>
    heard ts = map spoken rest \<Longrightarrow>
    \<exists>c' did' queued'. sys_run ts c = Inr c' \<and> progress rv32 m0 w0 did' queued' [] c' \<and>
      did' @ queued' = did @ queued @ rest \<and> list_all (said_ok rv32) queued'"
proof (induction ts arbitrary: did queued rest c)
  case Nil
  then show ?case by auto
next
  case (Cons t ts)
  show ?case
  proof (cases t)
    case MainTurn
    obtain c1 did1 queued1 where 1: "main_turn c = Inr c1" "progress rv32 m0 w0 did1 queued1 rest c1"
      "did1 @ queued1 = did @ queued" "list_all (said_ok rv32) queued1"
      using progress_main [OF Cons.prems(1)] Cons.prems(2) by auto
    have "list_all (said_ok rv32) (queued1 @ rest)" using 1(4) Cons.prems(2) by simp
    from Cons.IH [OF 1(2) this] Cons.prems(3,4) MainTurn obtain c' did' queued' where
      "sys_run ts c1 = Inr c'" "progress rv32 m0 w0 did' queued' [] c'" "did' @ queued' = did1 @ queued1 @ rest"
      "list_all (said_ok rv32) queued'" by auto
    moreover have "did1 @ queued1 @ rest = did @ queued @ rest" using 1(3) by (metis append.assoc)
    ultimately show ?thesis using 1(1) MainTurn by (intro exI [of _ c'] exI [of _ did'] exI [of _ queued']) simp
  next
    case (ReaderTurn b ev)
    show ?thesis
    proof (cases "\<exists>bs. ev = PollIn (ReadData bs)")
      case True
      then obtain bs where ev: "ev = PollIn (ReadData bs)" by blast
      with Cons.prems(4) ReaderTurn obtain said rest' where rest: "rest = said # rest'" "bs = spoken said" "heard ts = map spoken rest'"
        by (cases rest) auto
      obtain c1 where 1: "reader_turn b ev c = Inr c1" "progress rv32 m0 w0 did (queued @ [said]) rest' c1"
        using progress_hear [of rv32 m0 w0 did queued said rest' c b] Cons.prems(1,2) rest ev by auto
      from Cons.IH [OF 1(2)] Cons.prems(2,3) rest obtain c' did' queued' where
        "sys_run ts c1 = Inr c'" "progress rv32 m0 w0 did' queued' [] c'" "did' @ queued' = did @ queued @ rest"
        "list_all (said_ok rv32) queued'" by auto
      with 1(1) ReaderTurn show ?thesis by (intro exI [of _ c'] exI [of _ did'] exI [of _ queued']) simp
    next
      case False
      then have "idle ev" "heard (t # ts) = heard ts"
        using Cons.prems(3) ReaderTurn by (cases ev rule: idle.cases; cases "case ev of PollIn r \<Rightarrow> r | _ \<Rightarrow> ReadEOF"; auto)+
      moreover have "reader_on c" "\<not> thread_stop (priv (stub c))" "\<not> send_mutex (conn (priv (stub c)))"
        using Cons.prems(1) by (simp_all add: progress_def)
      ultimately show ?thesis
        using reader_idle [of ev c b] Cons.IH [OF Cons.prems(1,2)] Cons.prems(3,4) ReaderTurn by simp
    qed
  qed
qed

lemma progress_start:
  assumes "initialised g" "emu_stub rv32 g" "sock_script (conn (priv g)) = map Wrote ns @ evs"
    and "length ns = 3 * length talk" "\<forall>k \<in> set ns. 4096 \<le> k"
  shows "progress rv32 (machine_of rv32 e) (wire (conn (priv g))) [] [] talk (sys_start g e)"
proof -
  note start = start_ready [OF assms(1) emu_stub_plenty [OF assms(2)], of e]
  have "\<not> q_shutdown (pktqueue (priv (stub (sys_start g e))))" "\<not> q_interrupted (pktqueue (priv (stub (sys_start g e))))"
    using assms(1) by (simp_all add: sys_start_def initialised_def async_io_disable_def)
  moreover have "\<exists>ns evs. sock_script (conn (priv (stub (sys_start g e)))) = map Wrote ns @ evs \<and>
      (\<forall>n \<in> set ns. 4096 \<le> n) \<and> 2 * length ([] :: (byte list \<times> command) list) + 3 * length talk \<le> length ns"
    using assms(3-5) start(3) by (intro exI [of _ ns] exI [of _ evs]) simp
  moreover have "\<exists>toks. wire (conn (priv (stub (sys_start g e)))) = wire (conn (priv g)) @ concat (map token_bytes toks) \<and>
      replies_of toks = fst (serve_all rv32 (map snd []) (machine_of rv32 e))"
    using start(3) by (intro exI [of _ "[]"]) simp
  ultimately show ?thesis
    using start emu_stub_start [OF assms(2), of e] by (simp add: progress_def ready_def)
qed

lemma serve_all_append:
  "fst (serve_all rv32 (cmds @ cmds') m) =
     fst (serve_all rv32 cmds m) @ fst (serve_all rv32 cmds' (snd (serve_all rv32 cmds m)))"
  by (induction cmds arbitrary: m) (simp_all add: Let_def split_beta)

lemma length_serve_all: "length (fst (serve_all rv32 cmds m)) = length cmds"
  by (induction cmds arbitrary: m) (simp_all add: Let_def split_beta)

subsection \<open>Properties\<close>


text \<open>The witness: both commands are heard before the main thread moves, the second while the send
  mutex is taken.\<close>

definition hasty_talk :: "(byte list \<times> command) list" where
  "hasty_talk = [([], WriteMem 16 [1, 2]), ([], ReadMem 16 2)]"


end
