(* ===== verification/Stepping.thy ===== *)
theory Stepping
  imports EmuRun
begin

text \<open>
  \<open>emu_cont\<close> of \<^verbatim>\<open>src/emu/src/emu.c\<close> against a reference: a debugger that steps with \<open>emu_stepi\<close>
  until a reason to stop is seen from outside.
\<close>

text \<open>\<open>emu_exec\<close> refuses exactly the words that are no instruction of the subset.\<close>

lemma emu_exec_valid:
  assumes "emu_exec e w = Inr (r, e')"
  shows "r = (if isa_decode w = None then -1 else 0)"
proof -
  note [simp] = decode_fields opcode_eqs funct3_eqs bindE_Inr_iff
  consider "f_opcode w = 0x3" | "f_opcode w = 0x13" | "f_opcode w = 0x17" | "f_opcode w = 0x1b"
    | "f_opcode w = 0x23" | "f_opcode w = 0x33" | "f_opcode w = 0x37" | "f_opcode w = 0x3b"
    | "f_opcode w = 0x67" | "f_opcode w = 0x6f" | "f_opcode w \<notin> {0x3, 0x13, 0x17, 0x1b, 0x23, 0x33, 0x37, 0x3b, 0x67, 0x6f}"
    by blast
  then show ?thesis
    using assms
    by cases (auto simp: emu_exec_def Let_def isa_decode_def opcode_3_def opcode_13_def opcode_17_def
        opcode_1b_def opcode_23_def opcode_33_def opcode_37_def opcode_3b_def opcode_67_def opcode_6f_def
        split: if_splits)
qed

subsection \<open>Continuing is stepping\<close>

definition inst_at :: "emu \<Rightarrow> 32 word" where
  "inst_at e = ucast (of_le (map (\<lambda>j. mem e (unat (pc e) + j)) [0..<4]))"

text \<open>A debugger that steps up to \<open>n\<close> times with \<open>emu_stepi\<close>.  It looks at the program counter
  before a step and at the instruction and the byte at \<open>TOHOST_ADDR\<close> after it.\<close>

fun stepping :: "nat \<Rightarrow> emu \<Rightarrow> (gdb_action_t \<times> emu) res option" where
  "stepping 0 e = None"
| "stepping (Suc n) e =
    (if pc e \<ge> code_size e \<or> pc e = bp_addr e then Some (Inr (ACT_RESUME, e))
     else case emu_stepi e of
        Inl err \<Rightarrow> Some (Inl err)
      | Inr (_, e') \<Rightarrow>
          if isa_decode (inst_at e) = None then Some (Inr (ACT_RESUME, e'))
          else if mem e' TOHOST_ADDR \<noteq> 0 then Some (Inr (ACT_SHUTDOWN, e'))
          else stepping n e')"

lemma take_irq_Nil [simp]: "irq e = [] \<Longrightarrow> take_irq e = e"
  by (simp add: take_irq_def)

lemma emu_start_run_id: "\<not> halt e \<Longrightarrow> emu_start_run e = e"
  by (simp add: emu_start_run_def)

lemma round1_stepi:
  "\<not> halt e \<Longrightarrow> pc e < code_size e \<Longrightarrow> emu_stepi e = map_sum id (map_prod (\<lambda>_. ACT_RESUME) id) (round1 e)"
  by (simp add: emu_stepi_def round1_def emu_start_run_id Let_def bindE_def split: sum.split)

lemma round1_valid:
  assumes "emu_wf e" "pc e < code_size e" "round1 e = Inr (r, e')"
  shows "r = (if isa_decode (inst_at e) = None then -1 else 0)"
  using assms(3) fetch_ok [OF assms(1,2)] by (auto simp: round1_def inst_at_def dest: emu_exec_valid)

text \<open>Without interrupts both follow the same case distinction.\<close>

lemma stepping_round:
  assumes "emu_wf e" "irq e = []" "\<not> halt e"
  shows "stepping (Suc n) e = cont_round (stepping n) e"
proof (cases "running e")
  case True
  then have "pc e < code_size e" by (simp add: running_def)
  then show ?thesis
    using True assms round1_valid [of e] round1_stepi [of e]
    by (auto simp: cont_round_def running_def split: sum.split)
next
  case False
  then show ?thesis using assms by (auto simp: cont_round_def running_def)
qed

definition uninterrupted :: "emu \<Rightarrow> bool" where
  "uninterrupted e \<longleftrightarrow> emu_wf e \<and> irq e = [] \<and> \<not> halt e"

lemma uninterrupted_round1: "uninterrupted e \<Longrightarrow> round1 e = Inr (r, e') \<Longrightarrow> uninterrupted e'"
  using round1_frame [of e r e'] by (auto simp: uninterrupted_def emu_wf_def)

lemma stepping_cont: "uninterrupted e \<Longrightarrow> stepping n e = Some r \<Longrightarrow> emu_cont_loop e = Some r"
proof (induction n arbitrary: e)
  case (Suc n)
  then have u: "emu_wf e" "irq e = []" "\<not> halt e" by (auto simp: uninterrupted_def)
  show ?case
    using Suc.prems(2) Suc.IH uninterrupted_round1 [OF Suc.prems(1)]
    unfolding stepping_round [OF u] emu_cont_loop_round [of e]
    by (auto simp: cont_round_def u split: sum.splits if_splits)
qed simp

lemma rounds_stepping:
  "rounds e e' \<Longrightarrow> uninterrupted e \<Longrightarrow>
     uninterrupted e' \<and> (\<exists>k. \<forall>n. stepping (k + n) e = stepping n e')"
proof (induction rule: rounds.induct)
  case (rounds_refl e)
  then show ?case by (auto intro: exI [of _ 0])
next
  case (rounds_step e r e1 e2)
  then have u: "emu_wf e" "irq e = []" "\<not> halt e" by (auto simp: uninterrupted_def)
  with rounds_step have "uninterrupted e1"
    using uninterrupted_round1 [OF rounds_step.prems] by simp
  with rounds_step.IH obtain k where k: "uninterrupted e2" "\<And>n. stepping (k + n) e1 = stepping n e2" by blast
  have "stepping (Suc (k + n)) e = stepping n e2" for n
    unfolding stepping_round [OF u] using rounds_step.hyps k(2) by (simp add: cont_round_def)
  then have "\<forall>n. stepping (Suc k + n) e = stepping n e2" by simp
  with k(1) show ?case by blast
qed

lemma cont_stepping:
  assumes "uninterrupted e" "emu_cont_loop e = Some r"
  shows "\<exists>n. stepping n e = Some r"
proof -
  obtain e1 where e1: "rounds e e1" "last_round e1 r"
    using emu_cont_loop_reason [OF assms(2)] by blast
  from rounds_stepping [OF e1(1) assms(1)] obtain k
    where k: "uninterrupted e1" "stepping (k + 1) e = stepping 1 e1" by blast
  then have u: "emu_wf e1" "irq e1 = []" "\<not> halt e1" by (auto simp: uninterrupted_def)
  have "stepping 1 e1 = Some r"
    using e1(2) stepping_round [OF u, of 0] by (auto simp: cont_round_def last_round_def)
  with k(2) show ?thesis by metis
qed

text \<open>C7.  Continuing is stepping.  Unless it is interrupted, \<open>emu_cont\<close> returns what a debugger reaches
  that steps until the program counter is outside the code or at the breakpoint, the instruction was
  none of the subset, or the guest wrote to \<open>TOHOST_ADDR\<close>; it returns if and only if the debugger
  comes to an end, and runs forever if and only if the debugger never does.\<close>

theorem emu_cont_is_stepping:
  assumes "emu_wf e" "irq e = []"
  shows "emu_cont e = r \<longleftrightarrow>
    (\<exists>n. stepping n (emu_start_run e) = Some r) \<or>
    r = Inl Diverges \<and> (\<forall>n. stepping n (emu_start_run e) = None)"
proof -
  have u: "uninterrupted (emu_start_run e)"
    using assms by (simp add: uninterrupted_def emu_wf_def emu_start_run_def)
  have iff: "stepping n (emu_start_run e) = Some a \<Longrightarrow> emu_cont e = a" for n a
    using stepping_cont [OF u, of n a] by (simp add: emu_cont_def)
  show ?thesis
  proof (cases "\<exists>n a. stepping n (emu_start_run e) = Some a")
    case True
    then obtain n a where "stepping n (emu_start_run e) = Some a" by blast
    with iff show ?thesis by (metis option.distinct(1))
  next
    case False
    then have "emu_cont_loop (emu_start_run e) = None"
      using cont_stepping [OF u] by (cases "emu_cont_loop (emu_start_run e)") auto
    with False show ?thesis by (auto simp: emu_cont_def)
  qed
qed

text \<open>The witness is a guest of two instructions, \<open>addi sp, sp, 1\<close>.\<close>

definition count_guest :: emu where
  "count_guest = snd (init_mem (Some [0x13, 1, 0x11, 0, 0x13, 1, 0x11, 0]) True 8 (emu_init []))"

theorem emu_cont_is_stepping_witness:
  "emu_wf count_guest \<and> irq count_guest = [] \<and>
   map_sum id (map_prod id pc) (emu_cont count_guest) = Inr (ACT_RESUME, 8) \<and>
   (\<forall>r. emu_cont count_guest = r \<longleftrightarrow>
    (\<exists>n. stepping n (emu_start_run count_guest) = Some r) \<or>
    r = Inl Diverges \<and> (\<forall>n. stepping n (emu_start_run count_guest) = None))"
proof -
  have h: "emu_wf count_guest" "irq count_guest = []"
    by code_simp+
  have s: "map_option (map_sum id (map_prod id pc)) (stepping 3 (emu_start_run count_guest)) = Some (Inr (ACT_RESUME, 8))"
    by code_simp
  then obtain r where r: "stepping 3 (emu_start_run count_guest) = Some r"
    "map_sum id (map_prod id pc) r = Inr (ACT_RESUME, 8)" by auto
  from r(1) have "emu_cont count_guest = r"
    using emu_cont_is_stepping [OF h, of r] by blast
  with r(2) have "map_sum id (map_prod id pc) (emu_cont count_guest) = Inr (ACT_RESUME, 8)" by simp
  then show ?thesis using h emu_cont_is_stepping [OF h] by blast
qed

end
