(* ===== verification/Faults.thy ===== *)
theory Faults
  imports System
begin

text \<open>
  What can go wrong in the reader thread of \<^verbatim>\<open>src/src/gdbstub.c\<close>: the only ways in which its turn is
  undefined behaviour of C, and how it ends when the reassembly buffer cannot grow.
\<close>

subsection \<open>Packets in the buffer\<close>

text \<open>The buffers between the packets that are popped from one and the same read.\<close>

inductive pops :: "pktbuf_t \<Rightarrow> pktbuf_t \<Rightarrow> bool" where
  pops_refl: "pops pb pb"
| pops_step: "pktbuf_is_complete pb = Inr (True, pb1) \<Longrightarrow> pktbuf_pop_packet True pb1 = Inr (p, pb2) \<Longrightarrow>
    pops pb2 pb3 \<Longrightarrow> pops pb pb3"

text \<open>A packet whose checksum has only one digit yet, or a packet with bytes behind it in a buffer
  that is filled to the last byte.\<close>

definition bad_end :: "pktbuf_t \<Rightarrow> bool" where
  "bad_end pb \<longleftrightarrow> (\<exists>pb1. pktbuf_is_complete pb = Inr (True, pb1) \<and>
     (pb_end_pos pb1 = int (pb_size pb1) \<or>
      pb_size pb1 = 2 ^ pb_cap pb1 \<and> pb_end_pos pb1 + 1 < int (pb_size pb1)))"

lemma complete_no_fault:
  assumes "pb_inv pb"
  shows "\<exists>b pb1. pktbuf_is_complete pb = Inr (b, pb1) \<and> pb_inv pb1 \<and>
    (b \<longrightarrow> 0 \<le> pb_end_pos pb1 \<and> pb_end_pos pb1 \<le> int (pb_size pb1))"
proof (cases "ch CHR ''$'' \<in> set (valid pb)")
  case True
  from pktbuf_is_complete_spec [OF assms True] obtain pb1 where pb1: "pb_inv pb1"
    "pktbuf_is_complete pb =
      (case find_byte (ch CHR ''#'') (valid pb1) of
         Some k \<Rightarrow> if k + 2 \<le> length (valid pb1) then Inr (True, pb1\<lparr>pb_end_pos := int (k + 2)\<rparr>)
                   else Inr (False, pb1)
       | None \<Rightarrow> Inr (False, pb1))" by blast
  have upd: "pb_inv (pb1\<lparr>pb_end_pos := k\<rparr>)" for k using pb1(1) by (simp add: pb_inv_def)
  show ?thesis
    using pb1 upd length_valid [OF pb1(1)] by (auto split: option.split)
next
  case False
  then show ?thesis using pktbuf_is_complete_no_head [OF False] pb_inv_clear [OF assms] by auto
qed

lemma pop_fault:
  assumes "pb_inv pb" "0 \<le> pb_end_pos pb" "pb_end_pos pb \<le> int (pb_size pb)" "pktbuf_pop_packet ok pb = Inl err"
  shows "\<not> ok \<and> err = NullDeref \<or> ok \<and> err = OutOfBounds \<and>
    (pb_end_pos pb = int (pb_size pb) \<or> pb_size pb = 2 ^ pb_cap pb \<and> pb_end_pos pb + 1 < int (pb_size pb))"
proof (cases ok)
  case False
  with assms show ?thesis by (simp add: pktbuf_pop_packet_def)
next
  case True
  obtain e where e: "pb_end_pos pb = int e" using assms(2) nonneg_int_cases by blast
  have "\<not> (e < pb_size pb \<and> (pb_size pb < 2 ^ pb_cap pb \<or> e + 1 = pb_size pb))"
    using pktbuf_pop_spec [OF assms(1) e] assms(4) True by auto
  moreover have "err = OutOfBounds"
    using assms(4) True by (auto simp: pktbuf_pop_packet_def memmove_def Let_def bindE_Inl_iff split: if_split_asm)
  moreover have "pb_size pb \<le> 2 ^ pb_cap pb" using assms(1) by (simp add: pb_inv_def)
  ultimately show ?thesis using True assms(3) unfolding e by linarith
qed

lemma try_send_fault: "conn_try_send_str c s = Inl err \<Longrightarrow> err = Blocked \<and> \<not> send_mutex c"
proof -
  have "conn_send_loop s t tw evs w = Inl err \<Longrightarrow> err = Blocked" for s t tw evs w
    by (induction s t tw evs w rule: conn_send_loop.induct) (auto split: if_split_asm sock_ev.split_asm simp: Let_def)
  moreover assume "conn_try_send_str c s = Inl err"
  ultimately show ?thesis
    by (auto simp: conn_try_send_str_def conn_send_raw_def bindE_Inl_iff split: if_split_asm)
qed

lemma push_no_fault: "q_inv q \<Longrightarrow> pktqueue_push q p ok \<noteq> Inl err"
  using pq.push_ok [of q p] pq.push_fail [of q p] by (cases ok) auto

lemma reader_packets_fault:
  "reader_packets pb g = Inl err \<Longrightarrow> pb_inv pb \<Longrightarrow> q_inv (pktqueue (priv g)) \<Longrightarrow>
    err = Blocked \<and> \<not> send_mutex (conn (priv g)) \<or> err = NullDeref \<and> \<not> plenty g \<or>
    err = OutOfBounds \<and> (\<exists>pb2. pops pb pb2 \<and> bad_end pb2)"
proof (induction "pb_size pb" arbitrary: pb g rule: less_induct)
  case less
  obtain b pb1 where c: "pktbuf_is_complete pb = Inr (b, pb1)" "pb_inv pb1"
    "b \<longrightarrow> 0 \<le> pb_end_pos pb1 \<and> pb_end_pos pb1 \<le> int (pb_size pb1)"
    using complete_no_fault [OF less.prems(2)] by blast
  have b: b using less.prems(1) c(1) by (subst (asm) reader_packets.simps) (auto split: if_split_asm)
  define g0 where "g0 = used_malloc g"
  note unf = less.prems(1) [unfolded reader_packets.simps [of pb g] Let_def, folded g0_def]
  show ?case
  proof (cases "pktbuf_pop_packet (next_malloc g) pb1")
    case (Inl e)
    with unf c(1) b have "err = e" by simp
    with pop_fault [OF c(2) _ _ Inl] c(1,3) b show ?thesis
      using plenty_next(1) [of g] pops_refl [of pb] by (auto simp: bad_end_def)
  next
    case (Inr pp)
    then obtain p pb2 where p: "pktbuf_pop_packet (next_malloc g) pb1 = Inr (p, pb2)" by (cases pp) auto
    then have "next_malloc g" "p \<noteq> None"
      using c(3) b by (auto simp: pktbuf_pop_packet_def Let_def elim!: bindE_InrE split: if_split_asm)
    then obtain pkt where pkt: "p = Some pkt" and ok: "next_malloc g" by blast
    have size: "pb_size pb2 < pb_size pb" and inv: "pb_inv pb2"
      using pktbuf_is_complete_size [of pb pb1] pktbuf_pop_size [OF p] pb_inv_pop [OF p c(2)] c(1) b by auto
    have pops: "pops pb pb3" if "pops pb2 pb3" for pb3
      using pops_step [OF _ _ that] c(1) b p ok by auto
    have next_round: ?thesis if "reader_packets pb2 g2 = Inl err" "rquiet g g2" for g2
    proof -
      have "q_inv (pktqueue (priv g2))" "plenty g \<longrightarrow> plenty g2"
        "send_mutex (conn (priv g2)) = send_mutex (conn (priv g))"
        using that(2) less.prems(3) by (simp_all add: rquiet_def rkept_def rconfig_def)
      with less.hyps [OF size that(1) inv] pops show ?thesis by auto
    qed
    from push_no_fault [OF less.prems(3)] obtain pushed q
      where q: "pktqueue_push (pktqueue (priv g0)) pkt (next_malloc g0) = Inr (pushed, q)"
      by (cases "pktqueue_push (pktqueue (priv g0)) pkt (next_malloc g0)") (auto simp: g0_def)
    let ?g1 = "set_queue (used_malloc g0) q"
    have push: "rquiet g ?g1" using rquiet_trans [OF rquiet_malloc rquiet_push] q by (simp add: g0_def)
    have g1: "conn (priv ?g1) = conn (priv g)" by (simp add: g0_def)
    show ?thesis
    proof (cases "pushed")
      case False
      then have "reader_packets pb2 ?g1 = Inl err" using unf c(1) b p pkt q by simp
      from next_round [OF this push] show ?thesis by simp
    next
      case True
      then have send: "bindE (conn_try_send_str (conn (priv g)) STR_ACK)
          (\<lambda>rc. reader_packets pb2 (set_conn ?g1 (snd rc))) = Inl err"
        using unf c(1) b p pkt q g1 by simp
      show ?thesis
      proof (cases "conn_try_send_str (conn (priv g)) STR_ACK")
        case (Inl e)
        with send try_send_fault [OF Inl] show ?thesis by simp
      next
        case (Inr rc)
        then have rc: "conn_try_send_str (conn (priv g)) STR_ACK = Inr (fst rc, snd rc)" by simp
        have "rquiet g (set_conn ?g1 (snd rc))" using rquiet_trans [OF push rquiet_conn, of "fst rc"] rc g1 by simp
        then show ?thesis using next_round [of "set_conn ?g1 (snd rc)"] send Inr by simp
      qed
    qed
  qed
qed

subsection \<open>A turn of the reader\<close>

lemma fill_no_fault: "pb_ok pb \<Longrightarrow> pktbuf_fill_from_file ok pb r \<noteq> Inl err"
  by (auto simp: pktbuf_fill_from_file_def assertE_def pb_ok_def pb_inv_def pb_null_def Let_def split: read_ev.split)

lemma fill_bytes:
  assumes "pktbuf_fill_from_file ok pb r = Inr (n, pb1)" "pb_ok pb" "0 < n"
  shows "\<exists>bs k. r = ReadData bs \<and> pb_inv pb1 \<and> valid pb1 = valid pb @ take k bs"
proof -
  from assms obtain bs where r: "r = ReadData bs"
    by (cases r) (auto simp: pktbuf_fill_from_file_def assertE_def Let_def split: if_split_asm)
  have "pktbuf_fill_from_file True pb r = Inr (n, pb1) \<and> pb_inv pb"
    using pb_ok_grow [OF assms(2), of ok] pb_null_fill [OF assms(1)] assms(1,3) fill_not_full [of pb ok r]
    by (cases ok) auto
  moreover have "bs \<noteq> []"
    using assms(1,3) r by (auto simp: pktbuf_fill_from_file_def assertE_def Let_def split: if_split_asm)
  ultimately show ?thesis using pktbuf_fill_data [of pb bs] r by auto
qed

lemma reader_round_fault:
  assumes "reader_round pb g s ev = Inl err" "pb_ok pb" "q_inv (pktqueue (priv g))"
  shows "err = Blocked \<and> \<not> send_mutex (conn (priv g)) \<or> err = NullDeref \<and> \<not> plenty g \<or>
    err = OutOfBounds \<and> (\<exists>bs k pb1 pb2. ev = PollIn (ReadData bs) \<and> pb_inv pb1 \<and>
      valid pb1 = valid pb @ take k bs \<and> pops pb1 pb2 \<and> bad_end pb2)"
proof -
  from assms(1) obtain r where ev: "ev = PollIn r" by (cases ev) (auto simp: reader_round_def)
  obtain n pb1 where f: "pktbuf_fill_from_file (next_malloc g) pb r = Inr (n, pb1)"
    using fill_no_fault [OF assms(2)] by (cases "pktbuf_fill_from_file (next_malloc g) pb r") auto
  define g0 where "g0 = (if pktbuf_full pb then used_malloc g else g)"
  have g0: "rkept g g0" using rkept_malloc [of g] by (simp add: g0_def)
  obtain g1 s1 where sc: "reader_scan (take (nat n) (drop (pb_size pb1 - nat n) (pb_data pb1))) g0 s = (g1, s1)"
    by fastforce
  from assms(1) ev f sc have n: "0 < n" and p: "reader_packets pb1 g1 = Inl err"
    by (auto simp: reader_round_def Let_def g0_def [symmetric] bindE_Inl_iff split: if_split_asm)
  have k: "rkept g g1" using rkept_trans [OF g0 reader_scan_rkept [OF sc]] .
  then have q: "q_inv (pktqueue (priv g1))" "plenty g \<longrightarrow> plenty g1"
    "send_mutex (conn (priv g1)) = send_mutex (conn (priv g))"
    using assms(3) by (simp_all add: rkept_def rconfig_def)
  obtain bs j where b: "r = ReadData bs" "pb_inv pb1" "valid pb1 = valid pb @ take j bs"
    using fill_bytes [OF f assms(2) n] by blast
  from reader_packets_fault [OF p b(2) q(1)] q(2,3) b ev show ?thesis by blast
qed


text \<open>C20. When memory runs out the session ends in order: if the buffer is full and \<open>realloc\<close> fails,
  or it never was allocated, the next read that brings data ends the reader, which signals the
  shutdown and frees the buffer; packets already queued stay there, and neither the target nor the
  peer sees anything of it.\<close>

theorem out_of_memory_ends_session:
  assumes "initialised g" "sys_reach (sys_start g s) c" "reader_on c"
    and "pktbuf_full (rbuf c) \<and> \<not> next_malloc (stub c) \<or> pb_data (rbuf c) = []"
  shows "\<exists>c1. reader_turn contended (PollIn (ReadData bs)) c = Inr c1 \<and> \<not> reader_on c1 \<and>
    pb_data (rbuf c1) = [] \<and> q_shutdown (pktqueue (priv (stub c1))) \<and>
    q_contents (pktqueue (priv (stub c1))) = q_contents (pktqueue (priv (stub c))) \<and>
    target c1 = target c \<and> at c1 = at c \<and> wire (conn (priv (stub c1))) = wire (conn (priv (stub c)))"
proof -
  have i: "sys_inv (ops g) c" by (rule sys_reach_inv [OF assms(2) sys_start_inv [OF assms(1)]])
  then have ok: "pb_ok (rbuf c)" "\<not> thread_stop (priv (stub c))" using assms(3) by (simp_all add: sys_inv_def)
  have "pb_data (pktbuf_grow (next_malloc (stub c)) (rbuf c)) = []"
    using assms(4) ok(1) by (auto simp: pktbuf_grow_def pb_ok_def pb_inv_def pb_null_def pktbuf_full_def)
  moreover have "pb_size (rbuf c) \<le> 2 ^ pb_cap (rbuf c)"
    using ok(1) by (auto simp: pb_ok_def pb_inv_def pb_null_def)
  moreover have "next_malloc (hold_mutex contended (stub c)) = next_malloc (stub c)"
    by (simp add: hold_mutex_def next_malloc_def)
  ultimately have "reader_round (rbuf c) (hold_mutex contended (stub c)) (target c) (PollIn (ReadData bs)) =
      Inr (False, pktbuf_grow (next_malloc (stub c)) (rbuf c),
        if pktbuf_full (rbuf c) then used_malloc (hold_mutex contended (stub c)) else hold_mutex contended (stub c), target c)"
    by (simp add: reader_round_def pktbuf_fill_from_file_def assertE_def Let_def EFAULT_def EINTR_def
        EAGAIN_def EWOULDBLOCK_def)
  then show ?thesis using assms(3) ok(2)
    by (simp add: reader_turn_def Let_def reader_end_def q_contents_def pktqueue_signal_shutdown_def
        pktbuf_destroy_def hold_mutex_def)
qed


text \<open>The witness starts a reader whose first allocation fails.\<close>

definition poor_start :: "(byte \<times> byte list) sys" where
  "poor_start = sys_start ((stub0 pair_ops \<lparr>target_desc = None, smp = 1, reg_num = 2\<rparr> 3 [])\<lparr>mallocs := [False]\<rparr>) (1, [2, 3])"

theorem out_of_memory_ends_session_witness:
  "\<exists>c1. reader_turn False (PollIn (ReadData (str ''$g#67''))) poor_start = Inr c1 \<and> \<not> reader_on c1 \<and>
     q_shutdown (pktqueue (priv (stub c1))) \<and> target c1 = (1, [2, 3])"
proof -
  have i: "initialised ((stub0 pair_ops \<lparr>target_desc = None, smp = 1, reg_num = 2\<rparr> 3 [])\<lparr>mallocs := [False]\<rparr>)"
    using initialised_stub0 [of pair_ops "\<lparr>target_desc = None, smp = 1, reg_num = 2\<rparr>" 3 "[]"]
    by (simp add: initialised_def)
  have s: "reader_on poor_start" "pb_data (rbuf poor_start) = []" "target poor_start = (1, [2, 3])"
    by (simp_all add: poor_start_def sys_start_def next_malloc_def pktbuf_init_def pktbuf_clear_def)
  show ?thesis
    using out_of_memory_ends_session [OF i reach_start, where s = "(1, [2, 3])" and contended = False, folded poor_start_def] s
    by fastforce
qed

end
