(* ===== verification/Spec2Isabelle.thy ===== *)
theory Spec2Isabelle
  imports Schedules Stepping Faults
begin

text \<open>
  \<^bold>\<open>mini-gdbstub\<close>: a GDB remote protocol server as a library (\<^verbatim>\<open>src/src\<close>, \<^verbatim>\<open>src/include\<close>) and the
  reference emulator that uses it (\<^verbatim>\<open>src/emu/src/emu.c\<close>).

  \<^bold>\<open>The program.\<close>  Two threads serve one connection.  \<open>socket_reader\<close> owns the receiving side: it
  fills the reassembly buffer (\<open>packet.c\<close>), looks for the interrupt character, cuts complete frames
  out of the buffer, pushes them to the packet queue (\<open>pktqueue.c\<close>) and acknowledges them
  (\<open>conn.c\<close>).  The main thread (\<open>gdbstub_run\<close>) pops a packet, verifies its checksum
  (\<open>utils/csum.c\<close>), dispatches it to a handler, which talks to the emulator through the callbacks
  of \<open>struct target_ops\<close>, converts data with \<open>utils/translate.c\<close>, uses the register buffer
  (\<open>regbuf.c\<close>) and sends one reply; a handler may ask for an event, which runs the emulator.  The
  emulator has 33 registers, 4096 bytes of memory, one breakpoint and a RISC-V subset.

  \<^bold>\<open>The theories\<close>, in the order of imports:

  \<^item> \<open>Prelude\<close>: machine types, the failures of C (\<open>c_error\<close>), the result type and its sequencing,
    buffers whose cells may be uninitialised.  \<open>CLib\<close>: the C library functions the sources use
    (\<open>strchr\<close>, \<open>strtok\<close>, \<open>sscanf\<close>, \<open>sprintf\<close>) on byte lists.
  \<^item> \<open>Translate\<close>: checksum, hexadecimal and the escapes of the \<open>X\<close> packet; the interfaces \<open>codec\<close>
    and \<open>block_codec\<close> give the round trips.
  \<^item> \<open>Packet\<close>: \<open>packet.c\<close> and \<open>packet_csum_verify\<close>.  \<open>frame\<close> is a frame of the protocol, \<open>valid\<close> the
    bytes in the buffer, \<open>pb_inv\<close> its invariant.
  \<^item> \<open>Pktqueue\<close>: \<open>pktqueue.c\<close>, a linked list in a store of nodes; \<open>q_inv\<close> and \<open>q_contents\<close> abstract
    it to a list, and the interface \<open>packet_queue\<close> is what the threads rely on.
  \<^item> \<open>Regbuf\<close>: \<open>regbuf.c\<close>.  \<open>Conn\<close>: \<open>conn.c\<close>; the socket is a script of outcomes of \<open>poll\<close> and
    \<open>write\<close>, and \<open>wire\<close> the bytes written.
  \<^item> \<open>Target\<close>: \<open>gdbstub.h\<close> and the state of the stub; the interfaces \<open>target_regs\<close> and \<open>target_mem\<close>
    state what the README asks of the register and memory callbacks.
  \<^item> \<open>Gdbstub\<close>: every request handler of \<open>gdbstub.c\<close> and the dispatcher.  \<open>StubRegs\<close> (registers),
    \<open>StubMem\<close> (memory), \<open>Requests\<close> (the table of requests, events, what a handler may change) and
    \<open>Queries\<close> (target description, thread list) hold what they guarantee on every target that keeps
    the interfaces.
  \<^item> \<open>Emu\<close>: \<open>emu.c\<close>, with the interpretations of \<open>target_regs\<close> and \<open>target_mem\<close>.  \<open>Isa\<close>: the subset
    as the RISC-V manual defines it, which \<open>emu_exec\<close> refines.  \<open>EmuRun\<close>: continue, step, interrupt,
    breakpoint.  \<open>Stepping\<close>: continuing is equivalent to stepping.  \<open>EmuStub\<close>: every request that reads
    or writes the emulator, and their round trips.
  \<^item> \<open>Reader\<close>: \<open>socket_reader\<close>; reassembly, interrupts, and what the reader may change.
  \<^item> \<open>Run\<close>: \<open>gdbstub_handle_event\<close>, \<open>gdbstub_act_resume\<close>, \<open>gdbstub_run\<close>.
  \<^item> \<open>System\<close>: the two threads as turns on the shared state, the relation \<open>sys_step\<close>, the states
    \<open>sys_reach\<close>able under every schedule and the invariant \<open>sys_inv\<close>.
  \<^item> \<open>Setup\<close>: \<open>gdbstub_init\<close> with its error ladder, and \<open>gdbstub_close\<close>.
  \<^item> \<open>Faults\<close>: the only ways in which a turn of the reader is undefined behaviour, and the end of a session
    that runs out of memory.
  \<^item> \<open>Session\<close>: \<open>main\<close> of the emulator, schedules as lists of turns, a request through both threads.
  \<^item> \<open>Replies\<close>: one reply per request, and the language of all that the stub sends.
  \<^item> \<open>Dialogue\<close>: the abstract debug server (\<open>machine\<close>, \<open>command\<close>, \<open>serve\<close>), the abstraction \<open>machine_of\<close> of
    the emulator, and the refinement of commands and of whole dialogues.
  \<^item> \<open>Schedules\<close>: the same for a debugger that does not wait for replies, under every interleaving of the
    threads.
  \<^item> this theory: properties of whole sessions.

  \<^bold>\<open>State.\<close>  \<open>gdbstub_t\<close> and \<open>gdbstub_private\<close> are records with the fields of the structures, less the
  thread handle; the emulator is the type parameter \<open>'s\<close> of the callbacks, and the record \<open>emu\<close> for
  the reference emulator.  Heap objects are values inside their owner, except the queue's nodes,
  which are shared by \<open>head\<close>, \<open>tail\<close> and \<open>next\<close>.  Outcomes that the code does not determine are
  arguments: \<open>mallocs\<close> (allocations), \<open>sock_script\<close> (sending), \<open>poll_ev\<close> (receiving), \<open>net_env\<close> and
  \<open>init_env\<close> (set-up), \<open>irq\<close> (interrupts while the emulator runs), the schedule.  A failed assertion, an
  access outside an object, a read of an indeterminate byte, a null pointer, a wait that does not
  end and a loop that does not end are values of \<open>c_error\<close>; a theorem that a result is \<open>Inr\<close> excludes
  them.

  \<^bold>\<open>Loops and fuel.\<close>  Loops over data are structural or have a measure (\<open>reader_packets\<close>: the bytes in
  the buffer).  \<open>regbuf_grow\<close> and \<open>emu_cont_loop\<close> may run forever and are partial functions, whose
  value \<open>None\<close> is divergence; \<open>regbuf_get_returns\<close>, \<open>emu_cont_returns_on_interrupt\<close> and
  \<open>emu_cont_is_stepping\<close> say when they return; the fuel of \<open>stepping\<close> is the number of steps the
  reference debugger may take, and that theorem covers both the case that some number is enough and
  the case that none is.  The loops of the threads run on a script or on fuel: \<open>run_drains_queue\<close> shows that
  two rounds more than there are packets are enough, unless a call inside a round fails or waits.

  \<^bold>\<open>Interleaving.\<close>  An operation of the queue holds its mutex and is one step.  A turn of the reader is
  one round of its loop; a turn of the main thread goes from the pop to the event, from the event to
  the raised flag, or from the call of the callback to the next pop.  A send mutex held by the main
  thread during the reader's turn is the argument \<open>contended\<close>.  Interrupts that arrive while
  \<open>emu_cont\<close> is running are its own script \<open>irq\<close>.

  \<^bold>\<open>Allocation.\<close>  Each call of \<open>malloc\<close>, \<open>calloc\<close> and \<open>realloc\<close> in the library takes the next outcome of
  \<open>mallocs\<close> (an exhausted list stands for success); \<open>packet.c\<close> and \<open>emu.c\<close> do not check some of them, and
  the null pointers that follow are part of the model (\<open>pb_null\<close>, \<open>NullDeref\<close>).  The \<open>int\<close> fields of the
  reassembly buffer are natural numbers; they overflow at a buffer of 2 GiB.

  \<^bold>\<open>Not modelled.\<close>  Debug output; \<open>log.h\<close>; the thread handle; \<open>args\<close>, which is the state the callbacks
  get; the weak memory order of the relaxed atomics; finer interleavings than the turns above; the
  arguments of \<open>poll\<close>, whose result is an event of the scripts (\<open>socket_poll\<close>, \<open>socket_writable\<close>).  The test
  program \<^verbatim>\<open>src/emu/tests\<close>, the build files and the CI scripts are outside the development.
\<close>

subsection \<open>Properties\<close>

text \<open>C18.  The debugger's interrupt stops the target.  The debugger continues the emulator with \<open>c\<close>; if
  the reader calls \<open>on_interrupt\<close> in any round of the run, whatever the guest executes, the round of
  the main loop comes to its end: the debugger gets the stop reply and the loop waits for the next
  request, or the guest ended the session itself, or it accessed data outside its memory.\<close>

theorem interrupt_stops_target:
  assumes "ops g = emu_ops rv32" "emu_wf e" "True \<in> set (irq e)"
    and "q_inv (pktqueue (priv g))" "q_contents (pktqueue (priv g)) = request (str ''c'') # ps"
    and "\<not> send_mutex (conn (priv g))" "\<not> no_ack_mode (conn (priv g))" "\<not> async_io (priv g)"
    and "sock_script (conn (priv g)) = Wrote a # Wrote b # evs" "0 < a" "7 \<le> b"
  shows "(\<exists>g' e'. main_round g e = Inr (AtPop, g', e') \<and>
      wire (conn (priv g')) = wire (conn (priv g)) @ STR_ACK @ frame (str ''S05'')) \<or>
    (\<exists>g' e'. main_round g e = Inr (Returned True, g', e') \<and> mem e' TOHOST_ADDR \<noteq> 0) \<or>
    main_round g e = Inl OutOfBounds"
proof -
  have c: "q_contents (pktqueue (priv g)) = request (ch CHR ''c'' # []) # ps"
    using assms(5) by (simp add: str_def ch_def)
  have f: "ch CHR ''c'' = ch CHR ''c'' \<and> cont (ops g) = Some emu_cont \<or> ch CHR ''c'' = ch CHR ''s'' \<and> stepi (ops g) = Some emu_cont"
    using assms(1) by (simp add: emu_ops_def)
  from emu_cont_irq [OF assms(2,3)] show ?thesis
  proof (elim disjE exE conjE)
    assume "emu_cont e = Inl OutOfBounds"
    with resume_fault [OF assms(4) c assms(6,7,9,10) f] show ?thesis by simp
  next
    fix act e' assume e': "emu_cont e = Inr (act, e')" "act \<noteq> ACT_NONE"
    from resume_round [OF assms(4) c assms(6-11) f e'(1)] obtain g' where
      g': "main_round g e = Inr (if act = ACT_SHUTDOWN then Returned True else AtPop, g', e')"
        "wire (conn (priv g')) = wire (conn (priv g)) @ STR_ACK @ (if act = ACT_RESUME then frame (str ''S05'') else [])"
      by blast
    show ?thesis using g' e' emu_cont_shutdown [OF e'(1)] by (cases act) auto
  qed
qed

theorem interrupt_stops_target_witness:
  "let g = with_queue (session_stub [Wrote 1, Wrote 7]) (queue_of [request (str ''c'')]); e = spin [False, True] in
   (\<exists>g' e'. main_round g e = Inr (AtPop, g', e') \<and> wire (conn (priv g')) = STR_ACK @ frame (str ''S05'')) \<or>
   (\<exists>g' e'. main_round g e = Inr (Returned True, g', e') \<and> mem e' TOHOST_ADDR \<noteq> 0) \<or> main_round g e = Inl OutOfBounds"
proof -
  have w: "emu_wf (spin [False, True])" and i: "irq (spin [False, True]) = [False, True]" by code_simp+
  let ?g = "with_queue (session_stub [Wrote 1, Wrote 7]) (queue_of [request (str ''c'')])"
  have "ops ?g = emu_ops False" by (simp add: session_stub_def stub0_def)
  from interrupt_stops_target [OF this w, of "[]" 1 7 "[]"] i show ?thesis
    by (simp add: queue_of session_stub_def stub0_def conn0_def)
qed



text \<open>C40.  An interrupt can be lost.  Between the moment at which the main thread raises the flag and
  the first instruction of \<open>emu_cont\<close>, the reader already delivers an interrupt to the emulator, but
  \<open>emu_cont\<close> begins by clearing \<open>halt\<close>: the continue then runs exactly as if no interrupt had come.\<close>

theorem early_interrupt_is_lost:
  assumes "initialised g" "ops g = emu_ops rv32" "sys_reach (sys_start g e) c" "at c = AtCall EVENT_CONT"
    and "reader_on c" "pb_inv (rbuf c)" "plenty (stub c)"
    and "reader_turn contended (PollIn (ReadData [INTR_CHAR])) c = Inr c1"
  shows "target c1 = emu_on_interrupt (target c) \<and>
    event_call (stub c1) EVENT_CONT (target c1) = event_call (stub c) EVENT_CONT (target c)"
proof -
  have i: "sys_inv (emu_ops rv32) c" using sys_reach_inv [OF assms(3) sys_start_inv [OF assms(1)]] assms(2) by simp
  have eff: "ops (stub c1) = ops (stub c)" "async_io (priv (stub c))" "ops (stub c) = emu_ops rv32"
    using reader_turn_effect [OF assms(8)] i assms(4) by (auto simp: sys_inv_def)
  have t: "target c1 = emu_on_interrupt (target c)"
    using reader_turn_intr [OF assms(8,5,6)] i eff(2,3) assms(7) by (simp add: sys_inv_def emu_ops_def)
  then show ?thesis
    using eff by (simp add: event_call_def call_def emu_ops_def emu_cont_def emu_start_run_def emu_on_interrupt_def emu_halt_def)
qed

definition cont_pending :: "emu sys" where
  "cont_pending = projr (sys_run [ReaderTurn False (PollIn (ReadData (frame (str ''c'')))), MainTurn, MainTurn]
     (sys_start (session_stub [Wrote 1, Wrote 1]) (emu_init [])))"

theorem early_interrupt_is_lost_witness:
  "at cont_pending = AtCall EVENT_CONT \<and>
   (\<exists>c1. reader_turn False (PollIn (ReadData [INTR_CHAR])) cont_pending = Inr c1 \<and>
      target c1 = emu_on_interrupt (target cont_pending))"
proof -
  let ?ts = "[ReaderTurn False (PollIn (ReadData (frame (str ''c'')))), MainTurn, MainTurn]"
  let ?c0 = "sys_start (session_stub [Wrote 1, Wrote 1]) (emu_init [])"
  have r: "map_sum id (\<lambda>c. (at c, reader_on c, (pb_inv (rbuf c), mallocs (stub c)), map_sum id (\<lambda>_. ()) (reader_turn False (PollIn (ReadData [INTR_CHAR])) c)))
      (sys_run ?ts ?c0) = Inr (AtCall EVENT_CONT, True, (True, []), Inr ())"
    by code_simp
  then obtain c c1 where c: "sys_run ?ts ?c0 = Inr c" "at c = AtCall EVENT_CONT" "reader_on c"
    "pb_inv (rbuf c)" "plenty (stub c)" "reader_turn False (PollIn (ReadData [INTR_CHAR])) c = Inr c1"
    by (cases "sys_run ?ts ?c0";
        cases "reader_turn False (PollIn (ReadData [INTR_CHAR])) (projr (sys_run ?ts ?c0))") auto
  have "ops (session_stub [Wrote 1, Wrote 1]) = emu_ops False" by (simp add: session_stub_def stub0_def)
  from early_interrupt_is_lost [OF session_stub(2) this sys_run_reach [OF c(1)] c(2-6)]
  show ?thesis using c by (simp add: cont_pending_def)
qed

end
